(* ===== verification/WH_Prelude.thy ===== *)
theory WH_Prelude
  imports Main "HOL-Library.Word"
begin

text \<open>
  Shared vocabulary of the WovenHat kernel development: the machine integer types of the
  Rust sources, the checked, saturating and little-endian operations of the standard library
  that the kernel calls, and the list lemmas the component theories rest on.

  Conventions used everywhere:
  \<^item> \<open>u8\<close>, \<open>u16\<close>, \<open>u32\<close>, \<open>u64\<close> are words of their width, so that \<open>+\<close> wraps as
    \<open>wrapping_add\<close> does; \<open>usize\<close> is 64 bits wide on the kernel's only target, x86-64,
    and is modelled by \<open>nat\<close>, with the bound written out wherever the source checks it;
  \<^item> a fixed-size array is a list whose length an invariant fixes;
  \<^item> \<open>Result<T, E>\<close> is the sum \<open>'e + 'a\<close> with \<open>Inl\<close> for \<open>Err\<close>;
  \<^item> \<open>&mut self\<close> is the state passed in and returned.
\<close>

section \<open>Integer types\<close>

type_synonym u8 = "8 word"
type_synonym u16 = "16 word"
type_synonym u32 = "32 word"
type_synonym u64 = "64 word"
type_synonym usize = nat
type_synonym bytes = "8 word list"

named_theorems wf_simps \<open>unfolding rules for the well-formedness invariants\<close>
named_theorems step_simps \<open>unfolding rules for the operations of a component\<close>

text \<open>The largest \<open>usize\<close> value plus one.\<close>

definition usize_limit :: nat where
  "usize_limit = 18446744073709551616"

text \<open>Rust's \<open>checked_add\<close> and \<open>checked_mul\<close> on unsigned words and on \<open>usize\<close>.\<close>

definition checked_add :: "'w::len word \<Rightarrow> 'w word \<Rightarrow> 'w word option" where
  "checked_add a b = (if unat a + unat b < 2 ^ LENGTH('w) then Some (a + b) else None)"

definition checked_mul :: "'w::len word \<Rightarrow> 'w word \<Rightarrow> 'w word option" where
  "checked_mul a b = (if unat a * unat b < 2 ^ LENGTH('w) then Some (a * b) else None)"

definition checked_add_usize :: "nat \<Rightarrow> nat \<Rightarrow> nat option" where
  "checked_add_usize a b = (if a + b < usize_limit then Some (a + b) else None)"

definition checked_mul_usize :: "nat \<Rightarrow> nat \<Rightarrow> nat option" where
  "checked_mul_usize a b = (if a * b < usize_limit then Some (a * b) else None)"

text \<open>Rust's \<open>saturating_add\<close> and \<open>saturating_sub\<close>.\<close>

definition saturating_add :: "'w::len word \<Rightarrow> 'w word \<Rightarrow> 'w word" where
  "saturating_add a b = (if unat a + unat b < 2 ^ LENGTH('w) then a + b else - 1)"

definition saturating_sub :: "'w::len word \<Rightarrow> 'w word \<Rightarrow> 'w word" where
  "saturating_sub a b = (if b \<le> a then a - b else 0)"

lemma checked_add_Some:
  "checked_add a b = Some c \<Longrightarrow> unat c = unat a + unat b"
  by (auto simp: checked_add_def unat_word_ariths split: if_splits)

lemma checked_add_eq_None:
  fixes a b :: "'w::len word"
  shows "checked_add a b = None \<longleftrightarrow> 2 ^ LENGTH('w) \<le> unat a + unat b"
  by (auto simp: checked_add_def)

lemma checked_mul_Some:
  "checked_mul a b = Some c \<Longrightarrow> unat c = unat a * unat b"
  by (auto simp: checked_mul_def unat_word_ariths split: if_splits)

lemma checked_add_usize_Some [simp]:
  "checked_add_usize a b = Some c \<longleftrightarrow> c = a + b \<and> a + b < usize_limit"
  by (auto simp: checked_add_usize_def)

lemma checked_add_usize_None [simp]:
  "checked_add_usize a b = None \<longleftrightarrow> usize_limit \<le> a + b"
  by (auto simp: checked_add_usize_def)

lemma checked_mul_usize_Some [simp]:
  "checked_mul_usize a b = Some c \<longleftrightarrow> c = a * b \<and> a * b < usize_limit"
  by (auto simp: checked_mul_usize_def)

lemma unat_saturating_add:
  fixes a b :: "'w::len word"
  shows "unat (saturating_add a b) = min (unat a + unat b) (2 ^ LENGTH('w) - 1)"
proof (cases "unat a + unat b < 2 ^ LENGTH('w)")
  case True
  then show ?thesis by (simp add: saturating_add_def unat_word_ariths)
next
  case False
  then show ?thesis by (simp add: saturating_add_def unsigned_minus_1_eq_mask mask_eq_exp_minus_1)
qed

lemma unat_saturating_sub: "unat (saturating_sub a b) = unat a - unat b"
  by (auto simp: saturating_sub_def unat_sub word_le_nat_alt)

lemma unat_add_of_nat:
  fixes a :: u64
  shows "unat a + n < 2 ^ 64 \<Longrightarrow> unat (a + word_of_nat n) = unat a + n"
  by (simp add: unat_word_ariths unat_of_nat)

text \<open>
  Evaluation works at the word's own width: an unsigned sum overflows exactly when it wraps
  below its first operand.
\<close>

lemma add_wraps_iff:
  fixes a b :: "'w::len word"
  shows "unat a + unat b < 2 ^ LENGTH('w) \<longleftrightarrow> a \<le> a + b"
proof (cases "unat a + unat b < 2 ^ LENGTH('w)")
  case True
  then show ?thesis by (simp add: word_le_nat_alt unat_word_ariths)
next
  case False
  have "unat a + unat b < 2 * 2 ^ LENGTH('w)"
    using unsigned_less [of a, where 'a = nat] unsigned_less [of b, where 'a = nat] by linarith
  with False have "(unat a + unat b) mod 2 ^ LENGTH('w) = unat a + unat b - 2 ^ LENGTH('w)"
    by (simp add: mod_if)
  moreover have "\<not> unat a \<le> unat a + unat b - 2 ^ LENGTH('w)"
    using False unsigned_less [of b, where 'a = nat] by linarith
  ultimately show ?thesis using False by (simp add: word_le_nat_alt unat_word_ariths)
qed

lemma checked_add_code [code]: "checked_add a b = (let c = a + b in if a \<le> c then Some c else None)"
  by (simp add: checked_add_def add_wraps_iff Let_def)

lemma checked_mul_code [code]:
  fixes a b :: "'w::len word"
  shows "checked_mul a b = (if uint a * uint b < 2 ^ LENGTH('w) then Some (a * b) else None)"
proof -
  have "int (unat a * unat b) < int (2 ^ LENGTH('w)) \<longleftrightarrow> unat a * unat b < 2 ^ LENGTH('w)"
    by (rule of_nat_less_iff)
  then have "uint a * uint b < 2 ^ LENGTH('w) \<longleftrightarrow> unat a * unat b < 2 ^ LENGTH('w)" by simp
  then show ?thesis by (simp add: checked_mul_def)
qed

lemma saturating_add_code [code]: "saturating_add a b = (let c = a + b in if a \<le> c then c else - 1)"
  by (simp add: saturating_add_def add_wraps_iff Let_def)

lemma checked_add_usize_code [code]:
  "checked_add_usize a b = (if int a + int b < 18446744073709551616 then Some (a + b) else None)"
  by (simp add: checked_add_usize_def usize_limit_def)

lemma checked_mul_usize_code [code]:
  "checked_mul_usize a b = (if int a * int b < 18446744073709551616 then Some (a * b) else None)"
proof -
  have "int a * int b < 18446744073709551616 \<longleftrightarrow> a * b < usize_limit"
    unfolding usize_limit_def of_nat_mult [symmetric] by linarith
  then show ?thesis by (simp add: checked_mul_usize_def)
qed

text \<open>A byte-string literal \<open>b"..."\<close>.\<close>

definition ascii :: "string \<Rightarrow> bytes" where
  "ascii s = map of_char s"

text \<open>The \<open>?\<close> operator: an error leaves the function, a value is passed on.\<close>

definition bindE :: "'e + 'a \<Rightarrow> ('a \<Rightarrow> 'e + 'b) \<Rightarrow> 'e + 'b" where
  "bindE r f = (case r of Inl e \<Rightarrow> Inl e | Inr a \<Rightarrow> f a)"

text \<open>\<open>ok_or\<close> and a failing guard.\<close>

definition ok_or :: "'a option \<Rightarrow> 'e \<Rightarrow> 'e + 'a" where
  "ok_or x e = (case x of None \<Rightarrow> Inl e | Some a \<Rightarrow> Inr a)"

lemma bindE_simps [simp]: "bindE (Inl e) f = Inl e" "bindE (Inr a) f = f a"
  by (simp_all add: bindE_def)

lemma bindE_Inr: "bindE r f = Inr b \<longleftrightarrow> (\<exists>a. r = Inr a \<and> f a = Inr b)"
  by (cases r) simp_all

lemma ok_or_simps [simp]: "ok_or None e = Inl e" "ok_or (Some a) e = Inr a"
  by (simp_all add: ok_or_def)

lemma ok_or_Inr: "ok_or x e = Inr a \<longleftrightarrow> x = Some a"
  by (cases x) simp_all

section \<open>Fallible operations on a state\<close>

text \<open>
  A method that takes \<open>&mut self\<close> and returns a \<open>Result\<close> keeps the changes it made before an
  error. \<open>bindS\<close> is the \<open>?\<close> operator on such methods.
\<close>

type_synonym ('s, 'e, 'a) io = "'s \<Rightarrow> ('e + 'a) \<times> 's"

definition retS :: "'a \<Rightarrow> ('s, 'e, 'a) io" where
  "retS a = (\<lambda>s. (Inr a, s))"

definition liftS :: "'e + 'a \<Rightarrow> ('s, 'e, 'a) io" where
  "liftS r = (\<lambda>s. (r, s))"

definition getS :: "('s \<Rightarrow> 'a) \<Rightarrow> ('s, 'e, 'a) io" where
  "getS f = (\<lambda>s. (Inr (f s), s))"

definition modS :: "('s \<Rightarrow> 's) \<Rightarrow> ('s, 'e, unit) io" where
  "modS f = (\<lambda>s. (Inr (), f s))"

definition bindS :: "('s, 'e, 'a) io \<Rightarrow> ('a \<Rightarrow> ('s, 'e, 'b) io) \<Rightarrow> ('s, 'e, 'b) io" where
  "bindS m f = (\<lambda>s. case m s of (Inl e, s') \<Rightarrow> (Inl e, s') | (Inr a, s') \<Rightarrow> f a s')"

definition thenS :: "('s, 'e, 'a) io \<Rightarrow> ('s, 'e, 'b) io \<Rightarrow> ('s, 'e, 'b) io" where
  "thenS m k = bindS m (\<lambda>_. k)"

text \<open>An early return of an error when a condition fails.\<close>

definition guardS :: "bool \<Rightarrow> 'e \<Rightarrow> ('s, 'e, unit) io" where
  "guardS c e = (\<lambda>s. (if c then Inr () else Inl e, s))"

lemmas ioS_defs = retS_def liftS_def getS_def modS_def guardS_def

lemma retS_eq [simp]: "retS a s = (r, s') \<longleftrightarrow> r = Inr a \<and> s' = s"
  by (auto simp: retS_def)

lemma liftS_eq [simp]: "liftS x s = (r, s') \<longleftrightarrow> x = r \<and> s' = s"
  by (auto simp: liftS_def)

lemma getS_eq [simp]: "getS f s = (r, s') \<longleftrightarrow> r = Inr (f s) \<and> s' = s"
  by (auto simp: getS_def)

lemma modS_eq [simp]: "modS f s = (r, s') \<longleftrightarrow> r = Inr () \<and> s' = f s"
  by (auto simp: modS_def)

lemma guardS_Inr [simp]: "guardS c e s = (Inr u, s') \<longleftrightarrow> c \<and> s' = s"
  by (auto simp: guardS_def)

lemma guardS_Inl [simp]: "guardS c e s = (Inl e', s') \<longleftrightarrow> \<not> c \<and> e' = e \<and> s' = s"
  by (auto simp: guardS_def)

lemma bindS_Inr: "bindS m f s = (Inr b, s') \<longleftrightarrow> (\<exists>a t. m s = (Inr a, t) \<and> f a t = (Inr b, s'))"
  by (auto simp: bindS_def split: prod.splits sum.splits)

lemma bindS_Inl:
  "bindS m f s = (Inl e, s') \<longleftrightarrow> m s = (Inl e, s') \<or> (\<exists>a t. m s = (Inr a, t) \<and> f a t = (Inl e, s'))"
  by (auto simp: bindS_def split: prod.splits sum.splits)

lemma thenS_Inr: "thenS m k s = (Inr b, s') \<longleftrightarrow> (\<exists>a t. m s = (Inr a, t) \<and> k t = (Inr b, s'))"
  by (simp add: thenS_def bindS_Inr)

lemma thenS_Inl:
  "thenS m k s = (Inl e, s') \<longleftrightarrow> m s = (Inl e, s') \<or> (\<exists>a t. m s = (Inr a, t) \<and> k t = (Inl e, s'))"
  by (simp add: thenS_def bindS_Inl)

text \<open>\<open>keeps P m\<close>: whatever \<open>m\<close> returns, it leaves a state satisfying \<open>P\<close> if it found one.\<close>

definition keeps :: "('s \<Rightarrow> bool) \<Rightarrow> ('s, 'e, 'a) io \<Rightarrow> bool" where
  "keeps P m \<longleftrightarrow> (\<forall>s. P s \<longrightarrow> P (snd (m s)))"

named_theorems keeps_intros \<open>rules that an operation keeps a predicate\<close>

lemma keepsD: "keeps P m \<Longrightarrow> P s \<Longrightarrow> m s = (r, s') \<Longrightarrow> P s'"
  by (metis keeps_def snd_conv)

lemma keepsI: "(\<And>s r s'. P s \<Longrightarrow> m s = (r, s') \<Longrightarrow> P s') \<Longrightarrow> keeps P m"
  by (metis keeps_def prod.collapse)

lemma keeps_ret [keeps_intros]: "keeps P (retS a)"
  by (simp add: keeps_def retS_def)

lemma keeps_lift [keeps_intros]: "keeps P (liftS r)"
  by (simp add: keeps_def liftS_def)

lemma keeps_get [keeps_intros]: "keeps P (getS f)"
  by (simp add: keeps_def getS_def)

lemma keeps_guard [keeps_intros]: "keeps P (guardS c e)"
  by (simp add: keeps_def guardS_def)

lemma keeps_bind [keeps_intros]:
  assumes "keeps P m" "\<And>a. keeps P (f a)"
  shows "keeps P (bindS m f)"
proof (rule keepsI)
  fix s r s' assume s: "P s" "bindS m f s = (r, s')"
  obtain q t where q: "m s = (q, t)" by force
  then have "P t" using keepsD [OF assms(1) s(1)] by blast
  then show "P s'" using s(2) q keepsD [OF assms(2)] by (cases q) (auto simp: bindS_def)
qed

lemma keeps_then [keeps_intros]: "keeps P m \<Longrightarrow> keeps P k \<Longrightarrow> keeps P (thenS m k)"
  unfolding thenS_def by (rule keeps_bind)

lemma keeps_if [keeps_intros]: "keeps P m \<Longrightarrow> keeps P k \<Longrightarrow> keeps P (if c then m else k)"
  by simp

lemma keeps_let [keeps_intros]: "(\<And>x. keeps P (f x)) \<Longrightarrow> keeps P (let x = a in f x)"
  by simp

lemma keeps_option [keeps_intros]:
  "keeps P m \<Longrightarrow> (\<And>x. keeps P (f x)) \<Longrightarrow> keeps P (case a of None \<Rightarrow> m | Some x \<Rightarrow> f x)"
  by (cases a) auto

section \<open>Searching slices\<close>

text \<open>
  \<open>iter().position(p)\<close>: the index of the first element satisfying the predicate. It also
  gives \<open>iter_mut().find(p)\<close>, whose result the sources only use to overwrite that slot.
\<close>

fun position :: "('a \<Rightarrow> bool) \<Rightarrow> 'a list \<Rightarrow> nat option" where
  "position P [] = None"
| "position P (x # xs) = (if P x then Some 0 else map_option Suc (position P xs))"

lemma position_None [simp]: "position P xs = None \<longleftrightarrow> (\<forall>x\<in>set xs. \<not> P x)"
  by (induction xs) auto

lemma position_Some_iff:
  "position P xs = Some i \<longleftrightarrow> i < length xs \<and> P (xs ! i) \<and> (\<forall>j<i. \<not> P (xs ! j))"
proof (induction xs arbitrary: i)
  case Nil
  then show ?case by simp
next
  case (Cons x xs)
  show ?case
  proof (cases i)
    case 0
    then show ?thesis by auto
  next
    case (Suc k)
    then show ?thesis using Cons.IH [of k] by (auto simp: less_Suc_eq_0_disj)
  qed
qed

lemma position_SomeD:
  assumes "position P xs = Some i"
  shows "i < length xs" and "P (xs ! i)"
  using assms by (simp_all add: position_Some_iff)

lemma position_exists:
  assumes "x \<in> set xs" "P x"
  obtains i where "position P xs = Some i"
  using assms position_None [of P xs] by (cases "position P xs") auto

lemma position_unique:
  assumes "i < length xs" "P (xs ! i)" "\<And>j. j < length xs \<Longrightarrow> P (xs ! j) \<Longrightarrow> j = i"
  shows "position P xs = Some i"
proof -
  have "\<not> P (xs ! j)" if "j < i" for j
    using assms(3) [of j] assms(1) that by auto
  with assms(1,2) show ?thesis by (simp add: position_Some_iff)
qed

text \<open>\<open>max_by_key\<close> over an enumerated slice: Rust returns the last of the maximal elements.\<close>

fun max_index :: "('a \<Rightarrow> 'k::linorder) \<Rightarrow> 'a list \<Rightarrow> nat option" where
  "max_index k [] = None"
| "max_index k (x # xs) =
     (case max_index k xs of
        None \<Rightarrow> Some 0
      | Some i \<Rightarrow> if k (xs ! i) < k x then Some 0 else Some (Suc i))"

lemma max_index_None [simp]: "max_index k xs = None \<longleftrightarrow> xs = []"
  by (cases xs) (auto split: option.splits)

lemma max_index_Some:
  "max_index k xs = Some i \<Longrightarrow> i < length xs \<and> (\<forall>x\<in>set xs. k x \<le> k (xs ! i))"
proof (induction xs arbitrary: i)
  case Nil
  then show ?case by simp
next
  case (Cons x xs)
  show ?case
  proof (cases "max_index k xs")
    case None
    with Cons.prems show ?thesis by simp
  next
    case (Some j)
    with Cons.IH have j: "j < length xs" "\<forall>y\<in>set xs. k y \<le> k (xs ! j)" by auto
    show ?thesis
    proof (cases "k (xs ! j) < k x")
      case True
      with Some Cons.prems have "i = 0" by simp
      with j True show ?thesis by fastforce
    next
      case False
      with Some Cons.prems have "i = Suc j" by simp
      with j False show ?thesis by auto
    qed
  qed
qed

section \<open>Copying into buffers\<close>

text \<open>
  \<open>dst[off..off + src.len()].copy_from_slice(src)\<close>. The source panics when the range does
  not fit; every use in the development is guarded by a proof that it does.
\<close>

definition copy_at :: "'a list \<Rightarrow> nat \<Rightarrow> 'a list \<Rightarrow> 'a list" where
  "copy_at dst off src = take off dst @ src @ drop (off + length src) dst"

text \<open>\<open>&xs[off..off + n]\<close>.\<close>

definition slice :: "'a list \<Rightarrow> nat \<Rightarrow> nat \<Rightarrow> 'a list" where
  "slice xs off n = take n (drop off xs)"

lemma length_copy_at [simp]:
  "off + length src \<le> length dst \<Longrightarrow> length (copy_at dst off src) = length dst"
  by (simp add: copy_at_def)

lemma length_slice [simp]: "length (slice xs off n) = min n (length xs - off)"
  by (simp add: slice_def)

lemma nth_slice: "i < n \<Longrightarrow> off + i < length xs \<Longrightarrow> slice xs off n ! i = xs ! (off + i)"
  by (simp add: slice_def)

lemma slice_copy_at:
  "off + length src \<le> length dst \<Longrightarrow> slice (copy_at dst off src) off (length src) = src"
  by (simp add: slice_def copy_at_def)

lemma nth_copy_at:
  assumes "off + length src \<le> length dst" "i < length dst"
  shows "copy_at dst off src ! i =
    (if off \<le> i \<and> i < off + length src then src ! (i - off) else dst ! i)"
  using assms by (auto simp: copy_at_def nth_append)

lemma take_copy_at_0:
  "length src \<le> length dst \<Longrightarrow> take (length src) (copy_at dst 0 src) = src"
  by (simp add: copy_at_def)

lemma slice_copy_at_within:
  "off + n \<le> length src \<Longrightarrow> slice (copy_at dst 0 src) off n = slice src off n"
  by (simp add: slice_def copy_at_def)

lemma slice_copy_at_after:
  assumes "o1 + length src \<le> off" "o1 + length src \<le> length dst"
  shows "slice (copy_at dst o1 src) off n = slice dst off n"
proof -
  have "drop off (copy_at dst o1 src) = drop (off - (o1 + length src)) (drop (o1 + length src) dst)"
    using assms by (simp add: copy_at_def)
  also have "\<dots> = drop off dst" using assms by simp
  finally show ?thesis by (simp add: slice_def)
qed

lemma slice_update:
  "slice (xs[i := b]) off n = (if off \<le> i then (slice xs off n)[i - off := b] else slice xs off n)"
  by (simp add: slice_def take_update_swap drop_update_swap)

lemma slice_append_slice:
  "slice xs off (m + n) = slice xs off m @ slice xs (off + m) n"
  by (simp add: slice_def take_add add.commute)

section \<open>Little-endian integers\<close>

fun le_nat :: "bytes \<Rightarrow> nat" where
  "le_nat [] = 0"
| "le_nat (b # bs) = unat b + 256 * le_nat bs"

fun le_bytes :: "nat \<Rightarrow> nat \<Rightarrow> bytes" where
  "le_bytes 0 v = []"
| "le_bytes (Suc n) v = word_of_nat (v mod 256) # le_bytes n (v div 256)"

text \<open>\<open>from_le_bytes\<close> and \<open>to_le_bytes\<close> at any width.\<close>

definition from_le_bytes :: "bytes \<Rightarrow> 'w::len word" where
  "from_le_bytes bs = word_of_nat (le_nat bs)"

lemma from_le_bytes_code [code]:
  "from_le_bytes [] = (0 :: 'w::len word)"
  "from_le_bytes (b # bs) = (ucast b + 256 * from_le_bytes bs :: 'w::len word)"
  by (simp_all add: from_le_bytes_def)

lemma length_le_bytes [simp]: "length (le_bytes n v) = n"
  by (induction n arbitrary: v) auto

lemma le_nat_bound: "le_nat bs < 256 ^ length bs"
proof (induction bs)
  case Nil
  then show ?case by simp
next
  case (Cons b bs)
  have "unat b < 256" using unsigned_less [of b, where 'a = nat] by simp
  with Cons show ?case by simp
qed

lemma le_nat_le_bytes: "le_nat (le_bytes n v) = v mod 256 ^ n"
proof (induction n arbitrary: v)
  case 0
  then show ?case by simp
next
  case (Suc n)
  have "unat (word_of_nat (v mod 256) :: u8) = v mod 256"
    by (simp add: unat_of_nat)
  with Suc show ?case by (simp add: mod_mult2_eq)
qed

lemma le_bytes_roundtrip:
  "v < 256 ^ n \<Longrightarrow> le_nat (le_bytes n v) = v"
  by (simp add: le_nat_le_bytes)

lemma le_nat_inj: "length xs = length ys \<Longrightarrow> le_nat xs = le_nat ys \<Longrightarrow> xs = ys"
proof (induction xs ys rule: list_induct2)
  case Nil
  then show ?case by simp
next
  case (Cons x xs y ys)
  have "unat x < 256" "unat y < 256"
    using unsigned_less [of x, where 'a = nat] unsigned_less [of y, where 'a = nat] by simp_all
  moreover from Cons.prems have "(unat x + 256 * le_nat xs) mod 256 = (unat y + 256 * le_nat ys) mod 256" by simp
  ultimately have "unat x = unat y" by simp
  with Cons.prems Cons.IH show ?case by (simp add: word_unat_eq_iff)
qed

lemma unat_from_le_bytes:
  assumes "8 * length bs \<le> LENGTH('w::len)"
  shows "unat (from_le_bytes bs :: 'w word) = le_nat bs"
proof -
  have "(256 :: nat) ^ length bs = 2 ^ (8 * length bs)" by (simp add: power_mult)
  also have "\<dots> \<le> 2 ^ LENGTH('w)" using assms by (intro power_increasing) simp_all
  finally have "le_nat bs < 2 ^ LENGTH('w)" using le_nat_bound [of bs] by linarith
  then show ?thesis by (simp add: from_le_bytes_def unat_of_nat)
qed

lemma from_le_bytes_inj:
  assumes "length xs = length ys" "8 * length ys \<le> LENGTH('w::len)"
    "(from_le_bytes xs :: 'w word) = from_le_bytes ys"
  shows "xs = ys"
proof (rule le_nat_inj [OF assms(1)])
  have "unat (from_le_bytes xs :: 'w word) = unat (from_le_bytes ys :: 'w word)" using assms(3) by simp
  then show "le_nat xs = le_nat ys" using assms(1,2) by (simp add: unat_from_le_bytes)
qed

lemma from_le_bytes_le_bytes:
  assumes "8 * n \<le> LENGTH('w::len)" "v < 256 ^ n"
  shows "unat (from_le_bytes (le_bytes n v) :: 'w word) = v"
  using assms by (simp add: unat_from_le_bytes le_bytes_roundtrip)

section \<open>Ring buffers\<close>

text \<open>
  Several kernel queues keep a fixed array, a read index and a count; \<open>ring\<close> lists the
  \<open>n\<close> live elements from index \<open>h\<close>.
\<close>

definition ring :: "'a list \<Rightarrow> nat \<Rightarrow> nat \<Rightarrow> 'a list" where
  "ring xs h n = map (\<lambda>i. xs ! ((h + i) mod length xs)) [0..<n]"

lemma length_ring [simp]: "length (ring xs h n) = n"
  by (simp add: ring_def)

lemma ring_0 [simp]: "ring xs h 0 = []"
  by (simp add: ring_def)

lemma ring_Suc: "ring xs h (Suc n) = ring xs h n @ [xs ! ((h + n) mod length xs)]"
  by (simp add: ring_def)

lemma ring_pop:
  assumes "h < length xs"
  shows "ring xs h (Suc n) = xs ! h # ring xs ((h + 1) mod length xs) n"
proof -
  have eq: "((h + 1) mod length xs + i) mod length xs = (h + Suc i) mod length xs" for i
    using mod_add_left_eq [of "h + 1" "length xs" i] by simp
  have "ring xs h (Suc n) = xs ! (h mod length xs) # map (\<lambda>i. xs ! ((h + Suc i) mod length xs)) [0..<n]"
    unfolding ring_def by (simp add: upt_conv_Cons map_Suc_upt [symmetric] del: upt_Suc)
  with assms eq show ?thesis by (simp add: ring_def)
qed

lemma ring_index_inj:
  assumes "(h + i) mod m = (h + j) mod m" "i < m" "j < m"
  shows "i = (j::nat)"
proof -
  have aux: "i \<le> j \<Longrightarrow> i = j" if "(h + i) mod m = (h + j) mod m" "i < m" "j < m" for i j :: nat
  proof -
    assume "i \<le> j"
    then have "m dvd (h + j) - (h + i)"
      using that(1) mod_eq_dvd_iff_nat [of "h + i" "h + j" m] by simp
    then have "m dvd j - i" by simp
    then have "j - i = 0" using that(3) dvd_imp_le [of m "j - i"] by (cases "j - i") auto
    with \<open>i \<le> j\<close> show "i = j" by simp
  qed
  show ?thesis using aux [of i j] aux [of j i] assms by (cases "i \<le> j") auto
qed

lemma ring_update_other:
  assumes "n \<le> k" "k < length xs"
  shows "ring (xs[(h + k) mod length xs := x]) h n = ring xs h n"
proof (rule nth_equalityI)
  fix i assume "i < length (ring (xs[(h + k) mod length xs := x]) h n)"
  then have i: "i < n" by simp
  then have "(h + i) mod length xs \<noteq> (h + k) mod length xs"
    using ring_index_inj [of h i "length xs" k] assms by auto
  with i show "ring (xs[(h + k) mod length xs := x]) h n ! i = ring xs h n ! i"
    by (simp add: ring_def)
qed simp

lemma ring_push:
  assumes "n < length xs"
  shows "ring (xs[(h + n) mod length xs := x]) h (Suc n) = ring xs h n @ [x]"
proof -
  have "(h + n) mod length xs < length xs" using assms by (intro mod_less_divisor) linarith
  then show ?thesis using ring_update_other [of n n xs h x] assms by (simp add: ring_Suc)
qed

section \<open>Alignment\<close>

text \<open>\<open>is_power_of_two\<close>: exactly one bit is set.\<close>

definition is_power_of_two :: "'w::len word \<Rightarrow> bool" where
  "is_power_of_two a \<longleftrightarrow> a \<in> set (map (\<lambda>n. 2 ^ n) [0..<LENGTH('w)])"

lemma is_power_of_twoE:
  fixes a :: "'w::len word"
  assumes "is_power_of_two a"
  obtains n where "n < LENGTH('w)" "a = 2 ^ n" "unat a = 2 ^ n"
proof -
  from assms obtain n where n: "n < LENGTH('w)" "a = 2 ^ n" by (auto simp: is_power_of_two_def)
  from n(2) have "a = word_of_nat (2 ^ n)" by simp
  then have "unat a = 2 ^ n mod 2 ^ LENGTH('w)" by (simp only: unat_of_nat take_bit_eq_mod)
  with n(1) have "unat a = 2 ^ n" by simp
  with n show thesis by (rule that)
qed

text \<open>Evaluation by repeated halving.\<close>

fun int_pow2 :: "nat \<Rightarrow> int \<Rightarrow> bool" where
  "int_pow2 0 x \<longleftrightarrow> False"
| "int_pow2 (Suc k) x \<longleftrightarrow> x = 1 \<or> even x \<and> int_pow2 k (x div 2)"

lemma int_pow2_iff: "int_pow2 k x \<longleftrightarrow> (\<exists>n<k. x = 2 ^ n)"
proof (induction k arbitrary: x)
  case 0
  then show ?case by simp
next
  case (Suc k)
  show ?case
  proof
    assume "int_pow2 (Suc k) x"
    then consider "x = 1" | "even x" "int_pow2 k (x div 2)" by auto
    then show "\<exists>n<Suc k. x = 2 ^ n"
    proof cases
      case 1
      then show ?thesis by (auto intro: exI [of _ 0])
    next
      case 2
      with Suc.IH obtain n where "n < k" "x div 2 = 2 ^ n" by auto
      with 2(1) have "x = 2 ^ Suc n" by (metis dvd_mult_div_cancel power_Suc)
      with \<open>n < k\<close> show ?thesis by blast
    qed
  next
    assume "\<exists>n<Suc k. x = 2 ^ n"
    then obtain n where n: "n < Suc k" "x = 2 ^ n" by blast
    with Suc.IH [of "x div 2"] show "int_pow2 (Suc k) x" by (cases n) auto
  qed
qed

lemma is_power_of_two_code [code]:
  fixes a :: "'w::len word"
  shows "is_power_of_two a \<longleftrightarrow> int_pow2 LENGTH('w) (uint a)"
proof -
  have "a = 2 ^ n \<longleftrightarrow> uint a = 2 ^ n" if "n < LENGTH('w)" for n
  proof -
    have "uint (word_of_int (2 ^ n) :: 'w word) = 2 ^ n mod 2 ^ LENGTH('w)"
      by (simp only: unsigned_of_int take_bit_eq_mod) simp
    with that have "uint (2 ^ n :: 'w word) = 2 ^ n" by simp
    then show ?thesis by (metis word_uint_eq_iff)
  qed
  moreover have "is_power_of_two a \<longleftrightarrow> (\<exists>n<LENGTH('w). a = 2 ^ n)" by (auto simp: is_power_of_two_def)
  ultimately show ?thesis unfolding int_pow2_iff by blast
qed

lemma word_and_not:
  fixes a b :: "'w::len word"
  shows "and a (not b) = a - and a b"
proof -
  have "a - and a b = and a (not (and a b))" by (rule disjunctive_diff) (simp add: bit_and_iff)
  also have "\<dots> = and a (not b)" by (rule bit_word_eqI) (auto simp: bit_and_iff bit_or_iff bit_not_iff)
  finally show ?thesis by simp
qed

text \<open>\<open>address & !(alignment - 1)\<close> rounds down to a multiple of a power of two.\<close>

lemma unat_align_down:
  fixes a :: "'w::len word"
  assumes "n < LENGTH('w)"
  shows "unat (and a (not (2 ^ n - 1))) = unat a - unat a mod 2 ^ n"
proof -
  have "and a (2 ^ n - 1) = take_bit n a" by (simp add: take_bit_eq_mask mask_eq_exp_minus_1)
  moreover have "unat (take_bit n a) = unat a mod 2 ^ n"
    unfolding take_bit_eq_mod [of n "unat a", symmetric] by (simp only: unsigned_take_bit_eq)
  moreover from this have "take_bit n a \<le> a" by (simp add: word_le_nat_alt)
  ultimately show ?thesis by (simp add: word_and_not unat_sub)
qed

lemma unat_align_down_bounds:
  fixes a :: "'w::len word"
  assumes "n < LENGTH('w)"
  defines "r \<equiv> unat (and a (not (2 ^ n - 1)))"
  shows "r \<le> unat a" "unat a < r + 2 ^ n" "2 ^ n dvd r"
proof -
  have r: "r = unat a - unat a mod 2 ^ n" unfolding r_def by (rule unat_align_down [OF assms(1)])
  then show "r \<le> unat a" by simp
  have "unat a mod 2 ^ n < 2 ^ n" by simp
  with r show "unat a < r + 2 ^ n" using mod_less_eq_dividend [of "unat a" "2 ^ n"] by linarith
  show "2 ^ n dvd r" unfolding r by (rule dvd_minus_mod)
qed

text \<open>Distinct multiples of the page size are a page apart.\<close>

lemma aligned_gap:
  assumes "4096 dvd a" "4096 dvd b" "a < b"
  shows "a + 4096 \<le> (b :: nat)"
proof -
  obtain p q where "a = 4096 * p" "b = 4096 * q" using assms(1,2) by (auto elim!: dvdE)
  with assms(3) show ?thesis by simp
qed

end
