(* ===== verification/Frame_Memory.thy ===== *)
theory Frame_Memory
  imports WH_Prelude
begin

text \<open>
  The physical frame allocator (\<open>kernel/src/memory.rs\<close>). The allocator is shown to implement a
  pool of frames: a frame it grants is not held by anybody, a frame handed back is granted
  again, and it fails only when every frame is held.

  The bootloader's memory map is a list of regions. The frame constructor
  \<open>PhysFrame::from_start_address(PhysAddr::new(a)).ok()\<close> of the \<open>x86_64\<close> crate is the parameter
  \<open>pf\<close>; frames are represented by their start addresses.
\<close>

section \<open>Model\<close>

definition FRAME_SIZE :: u64 where
  "FRAME_SIZE = 4096"

definition MAX_USABLE_REGIONS :: nat where
  "MAX_USABLE_REGIONS = 128"

definition MAX_RECLAIMED_FRAMES :: nat where
  "MAX_RECLAIMED_FRAMES = 1024"

text \<open>The fields of the bootloader's region that the allocator reads; \<open>region_usable\<close> is
  \<open>kind == MemoryRegionKind::Usable\<close>.\<close>

record MemoryRegion =
  region_start :: u64
  region_end :: u64
  region_usable :: bool

record FrameRange =
  fr_start :: u64
  fr_next :: u64
  fr_end :: u64

definition frame_range_empty :: FrameRange where
  "frame_range_empty = \<lparr>fr_start = 0, fr_next = 0, fr_end = 0\<rparr>"

datatype mem_init_error = AlreadyInitialized | TooManyUsableRegions | AddressOverflow | NoUsableFrames

record PhysicalFrameAllocator =
  ranges :: "FrameRange list"
  range_count :: nat
  current_range :: nat
  total_frames :: u64
  allocated_frames :: u64
  reclaimed_frames :: "u64 list"
  reclaimed_count :: nat
  initialized :: bool

definition allocator_empty :: PhysicalFrameAllocator where
  "allocator_empty =
     \<lparr>ranges = replicate MAX_USABLE_REGIONS frame_range_empty, range_count = 0, current_range = 0,
      total_frames = 0, allocated_frames = 0,
      reclaimed_frames = replicate MAX_RECLAIMED_FRAMES 0, reclaimed_count = 0, initialized = False\<rparr>"

definition mem_align_down :: "u64 \<Rightarrow> u64 \<Rightarrow> u64" where
  "mem_align_down address alignment = and address (not (alignment - 1))"

definition mem_align_up :: "u64 \<Rightarrow> u64 \<Rightarrow> u64 option" where
  "mem_align_up address alignment =
     map_option (\<lambda>value. mem_align_down value alignment) (checked_add address (alignment - 1))"

text \<open>The loop over the regions; an early return leaves the ranges entered so far in place.\<close>

fun initialize_loop ::
  "MemoryRegion list \<Rightarrow> PhysicalFrameAllocator \<Rightarrow> (mem_init_error + unit) \<times> PhysicalFrameAllocator" where
  "initialize_loop [] a = (Inr (), a)"
| "initialize_loop (region # rest) a =
     (if \<not> region_usable region then initialize_loop rest a
      else case mem_align_up (max (region_start region) 0x100000) FRAME_SIZE of
        None \<Rightarrow> (Inl AddressOverflow, a)
      | Some start \<Rightarrow>
          (let fin = mem_align_down (region_end region) FRAME_SIZE in
           if fin \<le> start then initialize_loop rest a
           else if range_count a = length (ranges a) then (Inl TooManyUsableRegions, a)
           else let frames = (fin - start) div FRAME_SIZE in
             case checked_add (total_frames a) frames of
               None \<Rightarrow> (Inl AddressOverflow, a)
             | Some tot \<Rightarrow>
                 initialize_loop rest
                   (a\<lparr>total_frames := tot,
                      ranges := (ranges a)[range_count a := \<lparr>fr_start = start, fr_next = start, fr_end = fin\<rparr>],
                      range_count := range_count a + 1\<rparr>)))"

definition initialize ::
  "PhysicalFrameAllocator \<Rightarrow> MemoryRegion list \<Rightarrow> (mem_init_error + unit) \<times> PhysicalFrameAllocator" where
  "initialize a regions =
     (if initialized a then (Inl AlreadyInitialized, a)
      else case initialize_loop regions a of
             (Inl e, a') \<Rightarrow> (Inl e, a')
           | (Inr _, a') \<Rightarrow>
               if total_frames a' = 0 then (Inl NoUsableFrames, a')
               else (Inr (), a'\<lparr>initialized := True\<rparr>))"

record MemStats =
  usable_regions :: nat
  stat_total_frames :: u64
  stat_allocated_frames :: u64
  remaining_frames :: u64

definition mem_stats :: "PhysicalFrameAllocator \<Rightarrow> MemStats" where
  "mem_stats a =
     \<lparr>usable_regions = range_count a, stat_total_frames = total_frames a,
      stat_allocated_frames = allocated_frames a,
      remaining_frames = saturating_sub (total_frames a) (allocated_frames a)\<rparr>"

definition frame_contains :: "PhysicalFrameAllocator \<Rightarrow> u64 \<Rightarrow> bool" where
  "frame_contains a address \<longleftrightarrow>
     list_ex (\<lambda>range. fr_start range \<le> address \<and> address < fr_end range) (take (range_count a) (ranges a))"

definition deallocate_frame :: "PhysicalFrameAllocator \<Rightarrow> u64 \<Rightarrow> bool \<times> PhysicalFrameAllocator" where
  "deallocate_frame a address =
     (if \<not> frame_contains a address \<or> allocated_frames a = 0 \<or>
         reclaimed_count a = length (reclaimed_frames a) \<or>
         address \<in> set (take (reclaimed_count a) (reclaimed_frames a))
      then (False, a)
      else (True, a\<lparr>reclaimed_frames := (reclaimed_frames a)[reclaimed_count a := address],
                   reclaimed_count := reclaimed_count a + 1,
                   allocated_frames := allocated_frames a - 1\<rparr>))"

text \<open>The \<open>while\<close> loop over the ranges.\<close>

function allocate_loop ::
  "(u64 \<Rightarrow> u64 option) \<Rightarrow> PhysicalFrameAllocator \<Rightarrow> u64 option \<times> PhysicalFrameAllocator" where
  "allocate_loop pf a =
     (if current_range a < range_count a then
        (let range = ranges a ! current_range a in
         if fr_next range < fr_end range then
           (pf (fr_next range),
            a\<lparr>ranges := (ranges a)[current_range a := range\<lparr>fr_next := fr_next range + FRAME_SIZE\<rparr>],
              allocated_frames := allocated_frames a + 1\<rparr>)
         else allocate_loop pf (a\<lparr>current_range := current_range a + 1\<rparr>))
      else (None, a))"
  by pat_completeness auto
termination
  by (relation "measure (\<lambda>(_, a). range_count a - current_range a)") auto

definition allocate_frame ::
  "(u64 \<Rightarrow> u64 option) \<Rightarrow> PhysicalFrameAllocator \<Rightarrow> u64 option \<times> PhysicalFrameAllocator" where
  "allocate_frame pf a =
     (if \<not> initialized a then (None, a)
      else if reclaimed_count a \<noteq> 0 then
        (let n = reclaimed_count a - 1; address = reclaimed_frames a ! n
         in (pf address, a\<lparr>reclaimed_count := n, allocated_frames := allocated_frames a + 1\<rparr>))
      else allocate_loop pf a)"

declare allocate_loop.simps [simp del]

definition memory_self_test :: "(u64 \<Rightarrow> u64 option) \<Rightarrow> PhysicalFrameAllocator \<Rightarrow> bool \<times> PhysicalFrameAllocator" where
  "memory_self_test pf a =
     (let (first, a) = allocate_frame pf a;
          (second, a) = allocate_frame pf a;
          (third, a) = allocate_frame pf a
      in case (first, second, third) of
           (Some f, Some s, Some t) \<Rightarrow>
             (f \<noteq> s \<and> s \<noteq> t \<and> f \<noteq> t \<and> frame_contains a f \<and> frame_contains a s \<and> frame_contains a t, a)
         | _ \<Rightarrow> (False, a))"

section \<open>Frames of an allocator\<close>

definition frame_aligned :: "u64 \<Rightarrow> bool" where
  "frame_aligned x \<longleftrightarrow> 4096 dvd unat x"

text \<open>The frames between two addresses.\<close>

definition frames_in :: "u64 \<Rightarrow> u64 \<Rightarrow> u64 set" where
  "frames_in s e = {x. frame_aligned x \<and> s \<le> x \<and> x < e}"

definition range_ok :: "FrameRange \<Rightarrow> bool" where
  "range_ok r \<longleftrightarrow> frame_aligned (fr_start r) \<and> frame_aligned (fr_next r) \<and> frame_aligned (fr_end r) \<and>
     fr_start r \<le> fr_next r \<and> fr_next r \<le> fr_end r \<and> unat (fr_end r) \<le> 2 ^ 52"

definition all_frames :: "PhysicalFrameAllocator \<Rightarrow> u64 set" where
  "all_frames a = (\<Union>i<range_count a. frames_in (fr_start (ranges a ! i)) (fr_end (ranges a ! i)))"

definition granted :: "PhysicalFrameAllocator \<Rightarrow> u64 set" where
  "granted a = (\<Union>i<range_count a. frames_in (fr_start (ranges a ! i)) (fr_next (ranges a ! i)))"

definition reclaimed :: "PhysicalFrameAllocator \<Rightarrow> u64 list" where
  "reclaimed a = take (reclaimed_count a) (reclaimed_frames a)"

text \<open>The frames somebody holds, and the free ones.\<close>

definition held :: "PhysicalFrameAllocator \<Rightarrow> u64 set" where
  "held a = granted a - set (reclaimed a)"

definition free_frames :: "PhysicalFrameAllocator \<Rightarrow> u64 set" where
  "free_frames a = all_frames a - held a"

definition ranges_disjoint :: "PhysicalFrameAllocator \<Rightarrow> bool" where
  "ranges_disjoint a \<longleftrightarrow> (\<forall>i j. i < j \<longrightarrow> j < range_count a \<longrightarrow>
     fr_end (ranges a ! i) \<le> fr_start (ranges a ! j) \<or> fr_end (ranges a ! j) \<le> fr_start (ranges a ! i))"

definition wf_allocator :: "PhysicalFrameAllocator \<Rightarrow> bool" where
  "wf_allocator a \<longleftrightarrow>
     length (ranges a) = MAX_USABLE_REGIONS \<and> range_count a \<le> MAX_USABLE_REGIONS \<and>
     length (reclaimed_frames a) = MAX_RECLAIMED_FRAMES \<and> reclaimed_count a \<le> MAX_RECLAIMED_FRAMES \<and>
     (\<forall>i<range_count a. range_ok (ranges a ! i)) \<and> ranges_disjoint a \<and>
     (\<forall>i<range_count a. i < current_range a \<longrightarrow> fr_next (ranges a ! i) = fr_end (ranges a ! i)) \<and>
     distinct (reclaimed a) \<and> set (reclaimed a) \<subseteq> granted a \<and>
     unat (allocated_frames a) = card (held a)"

section \<open>Granting from a range\<close>

lemma next_frame:
  assumes "range_ok r" "fr_next r < fr_end r"
  shows "unat (fr_next r + FRAME_SIZE) = unat (fr_next r) + 4096"
    "range_ok (r\<lparr>fr_next := fr_next r + FRAME_SIZE\<rparr>)"
    "frames_in (fr_start r) (fr_next r + FRAME_SIZE) = insert (fr_next r) (frames_in (fr_start r) (fr_next r))"
    "fr_next r \<in> frames_in (fr_start r) (fr_end r)"
proof -
  from assms have al: "4096 dvd unat (fr_next r)" "4096 dvd unat (fr_end r)"
    and lt: "unat (fr_next r) < unat (fr_end r)" and top: "unat (fr_end r) \<le> 2 ^ 52"
    by (simp_all add: range_ok_def frame_aligned_def word_less_nat_alt)
  have gap: "unat (fr_next r) + 4096 \<le> unat (fr_end r)" by (rule aligned_gap [OF al lt])
  with top show u: "unat (fr_next r + FRAME_SIZE) = unat (fr_next r) + 4096"
    by (simp add: unat_word_ariths FRAME_SIZE_def)
  show "range_ok (r\<lparr>fr_next := fr_next r + FRAME_SIZE\<rparr>)"
    using assms(1) u gap al by (simp add: range_ok_def frame_aligned_def word_le_nat_alt)
  show "fr_next r \<in> frames_in (fr_start r) (fr_end r)"
    using assms by (simp add: frames_in_def range_ok_def)
  show "frames_in (fr_start r) (fr_next r + FRAME_SIZE) = insert (fr_next r) (frames_in (fr_start r) (fr_next r))"
  proof (rule set_eqI)
    fix x
    have "x \<le> fr_next r \<longleftrightarrow> x < fr_next r + FRAME_SIZE" if "frame_aligned x"
      using that aligned_gap [of "unat (fr_next r)" "unat x"] al(1) u
      by (auto simp: frame_aligned_def word_le_nat_alt word_less_nat_alt not_less [symmetric])
    then show "x \<in> frames_in (fr_start r) (fr_next r + FRAME_SIZE) \<longleftrightarrow>
        x \<in> insert (fr_next r) (frames_in (fr_start r) (fr_next r))"
      using assms(1) by (auto simp: frames_in_def range_ok_def order_le_less)
  qed
qed

lemma finite_granted [simp]: "finite (granted a)" "finite (held a)" "finite (all_frames a)"
  by (rule finite_subset [OF subset_UNIV finite])+

lemma granted_subset: "wf_allocator a \<Longrightarrow> granted a \<subseteq> all_frames a"
proof -
  assume wf: "wf_allocator a"
  have "frames_in (fr_start (ranges a ! i)) (fr_next (ranges a ! i)) \<subseteq>
      frames_in (fr_start (ranges a ! i)) (fr_end (ranges a ! i))" if "i < range_count a" for i
    using wf that by (auto simp: wf_allocator_def range_ok_def frames_in_def)
  then show ?thesis by (auto simp: granted_def all_frames_def)
qed

text \<open>A frame beyond the cursor of its range has not been granted by any range.\<close>

lemma next_not_granted:
  assumes wf: "wf_allocator a" and i: "i < range_count a" "fr_next (ranges a ! i) < fr_end (ranges a ! i)"
  shows "fr_next (ranges a ! i) \<notin> granted a"
proof
  let ?x = "fr_next (ranges a ! i)"
  assume "?x \<in> granted a"
  then obtain j where j: "j < range_count a" "fr_start (ranges a ! j) \<le> ?x" "?x < fr_next (ranges a ! j)"
    by (auto simp: granted_def frames_in_def)
  then have ne: "j \<noteq> i" by auto
  have ok: "range_ok (ranges a ! i)" "range_ok (ranges a ! j)" using wf i(1) j(1) by (auto simp: wf_allocator_def)
  have bounds: "fr_start (ranges a ! i) \<le> ?x" "fr_next (ranges a ! j) \<le> fr_end (ranges a ! j)"
    using ok by (simp_all add: range_ok_def)
  have "fr_end (ranges a ! i) \<le> fr_start (ranges a ! j) \<or> fr_end (ranges a ! j) \<le> fr_start (ranges a ! i)"
    using wf ne i(1) j(1) unfolding wf_allocator_def ranges_disjoint_def by (metis nat_neq_iff)
  then show False
  proof
    assume "fr_end (ranges a ! i) \<le> fr_start (ranges a ! j)"
    from order_less_le_trans [OF i(2) order_trans [OF this j(2)]] show False by simp
  next
    assume "fr_end (ranges a ! j) \<le> fr_start (ranges a ! i)"
    from order_less_le_trans [OF j(3) order_trans [OF bounds(2) order_trans [OF this bounds(1)]]]
    show False by simp
  qed
qed

lemma granted_update:
  assumes wf: "wf_allocator a" and i: "i < range_count a" "fr_next (ranges a ! i) < fr_end (ranges a ! i)"
    and a': "ranges a' = (ranges a)[i := (ranges a ! i)\<lparr>fr_next := fr_next (ranges a ! i) + FRAME_SIZE\<rparr>]"
      "range_count a' = range_count a"
  shows "granted a' = insert (fr_next (ranges a ! i)) (granted a)" and "all_frames a' = all_frames a"
proof -
  have len: "i < length (ranges a)" using wf i(1) by (simp add: wf_allocator_def)
  have ok: "range_ok (ranges a ! i)" using wf i(1) by (simp add: wf_allocator_def)
  let ?f = "\<lambda>x j. frames_in (fr_start (ranges x ! j)) (fr_next (ranges x ! j))"
  have fi: "?f a' i = insert (fr_next (ranges a ! i)) (?f a i)"
    using next_frame(3) [OF ok i(2)] a' len by simp
  have fj: "?f a' j = ?f a j" if "j \<noteq> i" for j using that a' by simp
  have mem: "x \<in> ?f a' j \<longleftrightarrow> (j = i \<and> x = fr_next (ranges a ! i)) \<or> x \<in> ?f a j" for x j
    using fi fj [of j] by (cases "j = i") simp_all
  show "granted a' = insert (fr_next (ranges a ! i)) (granted a)"
    unfolding granted_def a'(2) using i(1) by (auto simp: mem)
  have "fr_start (ranges a' ! j) = fr_start (ranges a ! j) \<and> fr_end (ranges a' ! j) = fr_end (ranges a ! j)" for j
    using a' len by (cases "j = i") simp_all
  then show "all_frames a' = all_frames a" by (simp add: all_frames_def a'(2))
qed

section \<open>The operations on the pool\<close>

text \<open>
  The \<open>x86_64\<close> crate: a frame is built from every page-aligned physical address below the
  52-bit limit of the architecture.
\<close>

definition phys_frame_ok :: "(u64 \<Rightarrow> u64 option) \<Rightarrow> bool" where
  "phys_frame_ok pf \<longleftrightarrow> (\<forall>x. frame_aligned x \<longrightarrow> unat x < 2 ^ 52 \<longrightarrow> pf x = Some x)"

lemma all_frames_frame:
  assumes "wf_allocator a" "x \<in> all_frames a"
  shows "frame_aligned x" "unat x < 2 ^ 52" "frame_contains a x"
proof -
  from assms(2) obtain i where i: "i < range_count a" "x \<in> frames_in (fr_start (ranges a ! i)) (fr_end (ranges a ! i))"
    by (auto simp: all_frames_def)
  with assms(1) have ok: "range_ok (ranges a ! i)" "i < length (ranges a)" by (auto simp: wf_allocator_def)
  from i(2) ok show "frame_aligned x" "unat x < 2 ^ 52"
    by (auto simp: frames_in_def range_ok_def word_less_nat_alt)
  have "ranges a ! i \<in> set (take (range_count a) (ranges a))"
    using i(1) ok(2) by (auto simp: in_set_conv_nth intro!: exI [of _ i])
  with i(2) show "frame_contains a x" by (auto simp: frame_contains_def list_ex_iff frames_in_def)
qed

lemma card_held:
  assumes "wf_allocator a"
  shows "card (held a) \<le> 2 ^ 52"
proof -
  have "unat ` held a \<subseteq> {..<2 ^ 52}"
    using all_frames_frame(2) [OF assms] granted_subset [OF assms] by (auto simp: held_def)
  then have "card (unat ` held a) \<le> 2 ^ 52" by (metis card_lessThan card_mono finite_lessThan)
  moreover have "card (unat ` held a) = card (held a)"
    by (rule card_image) (simp add: inj_on_def word_unat_eq_iff)
  ultimately show ?thesis by simp
qed

lemma allocated_succ:
  assumes "wf_allocator a" "x \<notin> held a"
  shows "unat (allocated_frames a + 1) = card (insert x (held a))"
  using assms card_held [OF assms(1)] by (simp add: wf_allocator_def unat_word_ariths)

text \<open>What a grant promises; \<open>None\<close> means that no frame is free.\<close>

definition grant_ok :: "PhysicalFrameAllocator \<Rightarrow> u64 option \<Rightarrow> PhysicalFrameAllocator \<Rightarrow> bool" where
  "grant_ok a r a' \<longleftrightarrow> wf_allocator a' \<and> all_frames a' = all_frames a \<and> initialized a' = initialized a \<and>
     total_frames a' = total_frames a \<and>
     (case r of None \<Rightarrow> held a' = held a \<and> free_frames a = {}
      | Some f \<Rightarrow> f \<in> free_frames a \<and> held a' = insert f (held a))"

lemma wf_exhausted:
  assumes "wf_allocator a" "range_count a \<le> current_range a"
  shows "granted a = all_frames a"
  using assms by (auto simp: wf_allocator_def granted_def all_frames_def)

lemma held_none_reclaimed: "reclaimed_count a = 0 \<Longrightarrow> held a = granted a"
  by (simp add: held_def reclaimed_def)

lemma grant_from_range:
  assumes pf: "phys_frame_ok pf" and wf: "wf_allocator a" and none: "reclaimed_count a = 0"
    and i: "i < range_count a" "fr_next (ranges a ! i) < fr_end (ranges a ! i)" "current_range a \<le> i"
  defines "a' \<equiv> a\<lparr>ranges := (ranges a)[i := (ranges a ! i)\<lparr>fr_next := fr_next (ranges a ! i) + FRAME_SIZE\<rparr>],
      allocated_frames := allocated_frames a + 1\<rparr>"
  shows "grant_ok a (pf (fr_next (ranges a ! i))) a'"
proof -
  let ?r = "ranges a ! i"
  have ok: "range_ok ?r" and len: "i < length (ranges a)" using wf i(1) by (simp_all add: wf_allocator_def)
  have a': "ranges a' = (ranges a)[i := ?r\<lparr>fr_next := fr_next ?r + FRAME_SIZE\<rparr>]" "range_count a' = range_count a"
    "reclaimed a' = reclaimed a" by (simp_all add: a'_def reclaimed_def)
  note g = granted_update [OF wf i(1,2) a'(1,2)] next_not_granted [OF wf i(1,2)]
  have mem: "fr_next ?r \<in> all_frames a"
    using next_frame(4) [OF ok i(2)] i(1) by (auto simp: all_frames_def)
  then have r: "pf (fr_next ?r) = Some (fr_next ?r)"
    using pf all_frames_frame [OF wf mem] by (simp add: phys_frame_ok_def)
  have "fr_start (ranges a' ! j) = fr_start (ranges a ! j)" "fr_end (ranges a' ! j) = fr_end (ranges a ! j)" for j
    using a'(1) len by (cases "j = i"; simp)+
  then have dis: "ranges_disjoint a'" using wf by (simp add: wf_allocator_def ranges_disjoint_def a'(2))
  have oks: "\<forall>j<range_count a. range_ok (ranges a' ! j)"
    using wf next_frame(2) [OF ok i(2)] len by (simp add: wf_allocator_def nth_list_update a'(1))
  have held': "held a' = insert (fr_next ?r) (held a)"
    using g(1) none held_none_reclaimed [of a] held_none_reclaimed [of a'] by (simp add: a'_def)
  have fresh: "fr_next ?r \<notin> held a" using g(3) by (simp add: held_def)
  have "wf_allocator a'"
    using wf dis oks a' none i(3) held' allocated_succ [OF wf fresh]
    by (simp add: wf_allocator_def reclaimed_def nth_list_update a'_def)
  with r held' fresh g(2) mem show ?thesis by (simp add: grant_ok_def free_frames_def a'_def)
qed

lemma allocate_loop_ok:
  assumes "phys_frame_ok pf" "wf_allocator a" "reclaimed_count a = 0" "allocate_loop pf a = (r, a')"
  shows "grant_ok a r a'"
  using assms
proof (induction pf a rule: allocate_loop.induct)
  case (1 pf a)
  let ?i = "current_range a" and ?r = "ranges a ! current_range a"
  consider (grant) "?i < range_count a" "fr_next ?r < fr_end ?r"
    | (skip) "?i < range_count a" "\<not> fr_next ?r < fr_end ?r" | (stop) "range_count a \<le> ?i" by linarith
  then show ?case
  proof cases
    case grant
    then have "r = pf (fr_next ?r)" "a' = a\<lparr>ranges := (ranges a)[?i := ?r\<lparr>fr_next := fr_next ?r + FRAME_SIZE\<rparr>],
        allocated_frames := allocated_frames a + 1\<rparr>"
      using "1.prems"(4) by (subst (asm) allocate_loop.simps; simp add: Let_def)+
    with grant_from_range [OF "1.prems"(1-3) grant] show ?thesis by simp
  next
    case skip
    let ?a = "a\<lparr>current_range := ?i + 1\<rparr>"
    have "fr_next ?r = fr_end ?r" using skip "1.prems"(2) by (auto simp: wf_allocator_def range_ok_def)
    then have wf1: "wf_allocator ?a" using "1.prems"(2)
      by (auto simp: wf_allocator_def ranges_disjoint_def reclaimed_def granted_def held_def less_Suc_eq)
    have "allocate_loop pf ?a = (r, a')"
      using "1.prems"(4) skip by (subst (asm) allocate_loop.simps; simp add: Let_def)
    from "1.IH" [OF skip(1) refl skip(2) "1.prems"(1) wf1 _ this] "1.prems"(3)
    have "grant_ok ?a r a'" by simp
    moreover have "all_frames ?a = all_frames a" "held ?a = held a"
      by (simp_all add: all_frames_def held_def granted_def reclaimed_def)
    ultimately show ?thesis by (simp add: grant_ok_def free_frames_def split: option.splits)
  next
    case stop
    then have "r = None" "a' = a" using "1.prems"(4) by (subst (asm) allocate_loop.simps; simp)+
    with "1.prems"(2,3) wf_exhausted [OF _ stop] held_none_reclaimed [of a] show ?thesis
      by (simp add: grant_ok_def free_frames_def)
  qed
qed

lemma allocate_frame_ok:
  assumes pf: "phys_frame_ok pf" and wf: "wf_allocator a" and init: "initialized a"
    and al: "allocate_frame pf a = (r, a')"
  shows "grant_ok a r a'"
proof (cases "reclaimed_count a = 0")
  case True
  with al init have "allocate_loop pf a = (r, a')" by (simp add: allocate_frame_def)
  with allocate_loop_ok [OF pf wf True] show ?thesis by simp
next
  case False
  then obtain n where n: "reclaimed_count a = Suc n" by (cases "reclaimed_count a") auto
  let ?x = "reclaimed_frames a ! n"
  let ?a = "a\<lparr>reclaimed_count := n, allocated_frames := allocated_frames a + 1\<rparr>"
  from al init n have r: "r = pf ?x" "a' = ?a" by (simp_all add: allocate_frame_def Let_def)
  have "n < length (reclaimed_frames a)" using wf n by (simp add: wf_allocator_def)
  then have rec: "reclaimed a = reclaimed ?a @ [?x]" by (simp add: reclaimed_def n take_Suc_conv_app_nth)
  with wf have x: "?x \<in> granted a" "?x \<notin> set (reclaimed ?a)" "distinct (reclaimed ?a)"
    by (simp_all add: wf_allocator_def)
  then have mem: "?x \<in> all_frames a" using granted_subset [OF wf] by auto
  have same: "granted ?a = granted a" "all_frames ?a = all_frames a" by (simp_all add: granted_def all_frames_def)
  have held': "held ?a = insert ?x (held a)" and fresh: "?x \<notin> held a"
    using x rec by (auto simp: held_def same)
  have "wf_allocator ?a"
    using wf n x rec same held' allocated_succ [OF wf fresh]
    by (auto simp: wf_allocator_def ranges_disjoint_def)
  moreover have "pf ?x = Some ?x" using pf all_frames_frame [OF wf mem] by (simp add: phys_frame_ok_def)
  ultimately show ?thesis using r held' fresh mem same(2) by (simp add: grant_ok_def free_frames_def)
qed

lemma deallocate_frame_ok:
  assumes wf: "wf_allocator a" and f: "f \<in> held a" and de: "deallocate_frame a f = (ok, a')"
  shows "wf_allocator a' \<and> all_frames a' = all_frames a \<and> initialized a' = initialized a \<and>
    (ok \<longleftrightarrow> reclaimed_count a < MAX_RECLAIMED_FRAMES) \<and> held a' = (if ok then held a - {f} else held a)"
proof -
  from f granted_subset [OF wf] have mem: "f \<in> all_frames a" "f \<notin> set (reclaimed a)" "f \<in> granted a"
    by (auto simp: held_def)
  have pos: "0 < card (held a)" using f by (auto simp: card_gt_0_iff)
  with wf have nz: "allocated_frames a \<noteq> 0" by (auto simp: wf_allocator_def)
  show ?thesis
  proof (cases "reclaimed_count a = MAX_RECLAIMED_FRAMES")
    case True
    with de wf show ?thesis by (auto simp: deallocate_frame_def wf_allocator_def)
  next
    case False
    let ?n = "reclaimed_count a"
    let ?a = "a\<lparr>reclaimed_frames := (reclaimed_frames a)[?n := f], reclaimed_count := ?n + 1,
      allocated_frames := allocated_frames a - 1\<rparr>"
    have n: "?n < length (reclaimed_frames a)" using wf False by (simp add: wf_allocator_def)
    from de nz n mem all_frames_frame(3) [OF wf mem(1)] have r: "ok" "a' = ?a"
      by (auto simp: deallocate_frame_def reclaimed_def)
    have rec: "reclaimed ?a = reclaimed a @ [f]" using n by (simp add: reclaimed_def take_Suc_conv_app_nth)
    have same: "granted ?a = granted a" "all_frames ?a = all_frames a" by (simp_all add: granted_def all_frames_def)
    have held': "held ?a = held a - {f}" using rec same by (auto simp: held_def)
    have "unat (allocated_frames a - 1) = card (held a) - 1"
      using wf nz by (simp add: wf_allocator_def unat_minus_one)
    then have "wf_allocator ?a"
      using wf n rec same held' mem f False by (auto simp: wf_allocator_def ranges_disjoint_def)
    with r held' same(2) False wf show ?thesis by (auto simp: wf_allocator_def)
  qed
qed

section \<open>Initialisation\<close>

text \<open>Usable regions do not overlap and lie below the physical address limit.\<close>

definition regions_ok :: "MemoryRegion list \<Rightarrow> bool" where
  "regions_ok rs \<longleftrightarrow>
     (\<forall>r\<in>set rs. region_usable r \<longrightarrow> unat (region_end r) \<le> 2 ^ 52) \<and>
     sorted_wrt (\<lambda>r s. region_usable r \<longrightarrow> region_usable s \<longrightarrow>
       region_end r \<le> region_start s \<or> region_end s \<le> region_start r) rs"

text \<open>The whole frames of a region above the first megabyte.\<close>

definition region_frames :: "MemoryRegion \<Rightarrow> u64 set" where
  "region_frames r = {x. region_usable r \<and> frame_aligned x \<and> 0x100000 \<le> x \<and> region_start r \<le> x \<and>
     unat x + 4096 \<le> unat (region_end r)}"

lemma mem_align_down_frame:
  shows "frame_aligned (mem_align_down x FRAME_SIZE)" "mem_align_down x FRAME_SIZE \<le> x"
    "unat x < unat (mem_align_down x FRAME_SIZE) + 4096"
  using unat_align_down_bounds [of 12 x]
  by (simp_all add: mem_align_down_def FRAME_SIZE_def frame_aligned_def word_le_nat_alt)

lemma mem_align_up_frame:
  assumes "mem_align_up x FRAME_SIZE = Some s"
  shows "frame_aligned s" "x \<le> s" "unat s < unat x + 4096"
proof -
  from assms obtain v where v: "checked_add x (FRAME_SIZE - 1) = Some v" "s = mem_align_down v FRAME_SIZE"
    by (auto simp: mem_align_up_def)
  from checked_add_Some [OF v(1)] have "unat v = unat x + 4095" by (simp add: FRAME_SIZE_def)
  with mem_align_down_frame [of v] v(2) show "frame_aligned s" "x \<le> s" "unat s < unat x + 4096"
    by (simp_all add: word_le_nat_alt)
qed

text \<open>Rounding a region inwards keeps exactly its whole frames.\<close>

lemma region_frames_in:
  assumes "region_usable r" "mem_align_up (max (region_start r) 0x100000) FRAME_SIZE = Some s"
  shows "region_frames r = frames_in s (mem_align_down (region_end r) FRAME_SIZE)"
proof (rule set_eqI)
  fix x
  let ?e = "mem_align_down (region_end r) FRAME_SIZE" and ?m = "max (region_start r) 0x100000"
  note s = mem_align_up_frame [OF assms(2)] and e = mem_align_down_frame [of "region_end r"]
  show "x \<in> region_frames r \<longleftrightarrow> x \<in> frames_in s ?e"
  proof (cases "frame_aligned x")
    case True
    have "s \<le> x \<longleftrightarrow> ?m \<le> x"
    proof
      show "s \<le> x \<Longrightarrow> ?m \<le> x" using s(2) by (rule order_trans)
      assume "?m \<le> x"
      show "s \<le> x"
      proof (rule ccontr)
        assume "\<not> s \<le> x"
        with aligned_gap [of "unat x" "unat s"] True s(1) have "unat x + 4096 \<le> unat s"
          by (simp add: frame_aligned_def word_le_nat_alt)
        with s(3) \<open>?m \<le> x\<close> show False by (simp add: word_le_nat_alt)
      qed
    qed
    moreover have "x < ?e \<longleftrightarrow> unat x + 4096 \<le> unat (region_end r)"
    proof
      assume "x < ?e"
      with aligned_gap [of "unat x" "unat ?e"] True e(1,2) show "unat x + 4096 \<le> unat (region_end r)"
        by (simp add: frame_aligned_def word_le_nat_alt word_less_nat_alt)
    next
      assume "unat x + 4096 \<le> unat (region_end r)"
      with e(3) show "x < ?e" by (simp add: word_less_nat_alt)
    qed
    moreover have "?m \<le> x \<longleftrightarrow> region_start r \<le> x \<and> 0x100000 \<le> x" by simp
    ultimately show ?thesis using True assms(1) by (auto simp: region_frames_def frames_in_def)
  qed (simp add: region_frames_def frames_in_def)
qed

lemma card_frames_in:
  assumes "frame_aligned s" "frame_aligned e"
  shows "card (frames_in s e) = (unat e - unat s) div 4096"
proof -
  obtain p q where p: "unat s = 4096 * p" and q: "unat e = 4096 * q"
    using assms by (auto simp: frame_aligned_def elim!: dvdE)
  have "unat ` frames_in s e = (\<lambda>k. 4096 * k) ` {p..<q}"
  proof (rule set_eqI, rule iffI)
    fix n assume "n \<in> unat ` frames_in s e"
    then show "n \<in> (\<lambda>k. 4096 * k) ` {p..<q}"
      using p q by (auto simp: frames_in_def frame_aligned_def word_le_nat_alt word_less_nat_alt elim!: dvdE)
  next
    fix n assume "n \<in> (\<lambda>k. 4096 * k) ` {p..<q}"
    then obtain k where k: "n = 4096 * k" "p \<le> k" "k < q" by auto
    let ?x = "word_of_nat n :: u64"
    have "n < unat e" using k q by simp
    then have "n < 2 ^ 64" using unsigned_less [of e, where 'a = nat] by simp
    then have u: "unat ?x = n" by (simp add: unat_of_nat)
    with k p q have "?x \<in> frames_in s e"
      by (simp add: frames_in_def frame_aligned_def word_le_nat_alt word_less_nat_alt)
    with u show "n \<in> unat ` frames_in s e" by (metis image_eqI)
  qed
  moreover have "card (unat ` frames_in s e) = card (frames_in s e)"
    by (rule card_image) (simp add: inj_on_def word_unat_eq_iff)
  moreover have "card ((\<lambda>k. 4096 * k) ` {p..<q}) = q - p" by (subst card_image) (simp_all add: inj_on_def)
  moreover have "(unat e - unat s) div 4096 = q - p" unfolding p q by (simp add: diff_mult_distrib2 [symmetric])
  ultimately show ?thesis by simp
qed

text \<open>An allocator that has granted nothing yet, with its frame count right.\<close>

definition fresh_allocator :: "PhysicalFrameAllocator \<Rightarrow> bool" where
  "fresh_allocator a \<longleftrightarrow> wf_allocator a \<and> current_range a = 0 \<and> reclaimed_count a = 0 \<and>
     (\<forall>i<range_count a. fr_next (ranges a ! i) = fr_start (ranges a ! i)) \<and>
     unat (total_frames a) = card (all_frames a)"

definition apart :: "u64 \<Rightarrow> u64 \<Rightarrow> u64 \<Rightarrow> u64 \<Rightarrow> bool" where
  "apart s e s' e' \<longleftrightarrow> e \<le> s' \<or> e' \<le> s"

lemma apart_frames: "apart s e s' e' \<Longrightarrow> frames_in s e \<inter> frames_in s' e' = {}"
  by (auto simp: apart_def frames_in_def)

lemma fresh_granted: "fresh_allocator a \<Longrightarrow> granted a = {} \<and> held a = {} \<and> allocated_frames a = 0"
proof -
  assume f: "fresh_allocator a"
  then have "granted a = {}" by (auto simp: fresh_allocator_def granted_def frames_in_def)
  moreover from this have "held a = {}" by (simp add: held_def)
  ultimately show ?thesis using f by (auto simp: fresh_allocator_def wf_allocator_def unat_eq_0)
qed

lemma add_range:
  assumes f: "fresh_allocator a" and room: "range_count a < MAX_USABLE_REGIONS"
    and al: "frame_aligned s" "frame_aligned e" and se: "s < e" "unat e \<le> 2 ^ 52"
    and ap: "\<forall>i<range_count a. apart (fr_start (ranges a ! i)) (fr_end (ranges a ! i)) s e"
    and tot: "checked_add (total_frames a) ((e - s) div FRAME_SIZE) = Some t"
  defines "a' \<equiv> a\<lparr>total_frames := t,
      ranges := (ranges a)[range_count a := \<lparr>fr_start = s, fr_next = s, fr_end = e\<rparr>],
      range_count := range_count a + 1\<rparr>"
  shows "fresh_allocator a'" and "all_frames a' = all_frames a \<union> frames_in s e"
proof -
  let ?n = "range_count a" and ?r = "\<lparr>fr_start = s, fr_next = s, fr_end = e\<rparr>"
  have wf: "wf_allocator a" using f by (simp add: fresh_allocator_def)
  have len: "?n < length (ranges a)" using wf room by (simp add: wf_allocator_def)
  have nth: "ranges a' ! i = (if i = ?n then ?r else ranges a ! i)" for i
    using len by (simp add: a'_def)
  have cnt: "range_count a' = Suc ?n" by (simp add: a'_def)
  have all: "{..<range_count a'} = insert ?n {..<?n}" by (auto simp: cnt)
  have "(\<Union>i<?n. frames_in (fr_start (ranges a' ! i)) (fr_end (ranges a' ! i))) = all_frames a"
    unfolding all_frames_def by (rule SUP_cong) (simp_all add: nth)
  then show af: "all_frames a' = all_frames a \<union> frames_in s e"
    unfolding all_frames_def [of a'] all by (auto simp: nth)
  have "all_frames a \<inter> frames_in s e = {}"
    using ap apart_frames unfolding all_frames_def by blast
  moreover have "unat ((e - s) div FRAME_SIZE) = card (frames_in s e)"
    unfolding card_frames_in [OF al] using se(1) by (simp add: unat_div FRAME_SIZE_def unat_sub)
  ultimately have "unat t = card (all_frames a')"
    using checked_add_Some [OF tot] f af by (simp add: fresh_allocator_def card_Un_disjoint)
  moreover have "range_ok ?r" using al se by (simp add: range_ok_def)
  then have oks: "\<forall>i<range_count a'. range_ok (ranges a' ! i)"
    using wf by (auto simp: nth wf_allocator_def cnt less_Suc_eq)
  moreover have dis: "ranges_disjoint a'"
    using wf ap by (auto simp: ranges_disjoint_def wf_allocator_def nth cnt less_Suc_eq apart_def)
  moreover have nx: "\<forall>i<range_count a'. fr_next (ranges a' ! i) = fr_start (ranges a' ! i)"
    using f by (auto simp: nth fresh_allocator_def cnt less_Suc_eq)
  moreover have "granted a' = {}" using nx by (auto simp: granted_def frames_in_def)
  ultimately show "fresh_allocator a'"
    using f fresh_granted [OF f] room
    by (simp add: fresh_allocator_def wf_allocator_def reclaimed_def held_def a'_def)
qed

lemma initialize_loop_ok:
  assumes "fresh_allocator a" "regions_ok rs"
    "\<forall>i<range_count a. \<forall>r\<in>set rs. region_usable r \<longrightarrow>
       apart (fr_start (ranges a ! i)) (fr_end (ranges a ! i)) (region_start r) (region_end r)"
    "initialize_loop rs a = (Inr u, a')"
  shows "fresh_allocator a' \<and> all_frames a' = all_frames a \<union> (\<Union>r\<in>set rs. region_frames r)"
  using assms
proof (induction rs arbitrary: a)
  case Nil
  then show ?case by simp
next
  case (Cons r rs)
  have rok: "regions_ok rs" using Cons.prems(2) by (simp add: regions_ok_def)
  show ?case
  proof (cases "region_usable r")
    case False
    with Cons.IH [OF Cons.prems(1) rok] Cons.prems(3,4) show ?thesis by (simp add: region_frames_def)
  next
    case us: True
    let ?e = "mem_align_down (region_end r) FRAME_SIZE"
    obtain s where s: "mem_align_up (max (region_start r) 0x100000) FRAME_SIZE = Some s"
      using Cons.prems(4) us by (auto split: option.splits)
    note fr = region_frames_in [OF us s]
    show ?thesis
    proof (cases "?e \<le> s")
      case True
      then have "region_frames r = {}" unfolding fr by (auto simp: frames_in_def)
      with True Cons.IH [OF Cons.prems(1) rok] Cons.prems(3,4) us s show ?thesis by (simp add: Let_def)
    next
      case False
      let ?a = "\<lambda>t. a\<lparr>total_frames := t, ranges := (ranges a)[range_count a := \<lparr>fr_start = s, fr_next = s, fr_end = ?e\<rparr>],
          range_count := range_count a + 1\<rparr>"
      obtain t where t: "checked_add (total_frames a) ((?e - s) div FRAME_SIZE) = Some t"
        and room: "range_count a \<noteq> length (ranges a)" and run: "initialize_loop rs (?a t) = (Inr u, a')"
        using Cons.prems(4) us s False by (auto simp: Let_def split: option.splits if_splits)
      have len: "length (ranges a) = MAX_USABLE_REGIONS" "range_count a \<le> MAX_USABLE_REGIONS"
        using Cons.prems(1) by (simp_all add: fresh_allocator_def wf_allocator_def)
      have inside: "region_start r \<le> s" "?e \<le> region_end r" "unat (region_end r) \<le> 2 ^ 52"
        using mem_align_up_frame(2) [OF s] mem_align_down_frame(2) Cons.prems(2) us by (auto simp: regions_ok_def)
      have narrow: "apart x y s ?e" if "apart x y (region_start r) (region_end r)" for x y
        using that inside(1,2) by (auto simp: apart_def intro: order_trans)
      have ap: "\<forall>i<range_count a. apart (fr_start (ranges a ! i)) (fr_end (ranges a ! i)) s ?e"
        using Cons.prems(3) us narrow by auto
      have "unat ?e \<le> 2 ^ 52" using inside(2,3) by (simp add: word_le_nat_alt)
      note add = add_range [OF Cons.prems(1) _ mem_align_up_frame(1) [OF s] mem_align_down_frame(1) _ this ap t]
      have new: "apart s ?e (region_start r') (region_end r')" if "r' \<in> set rs" "region_usable r'" for r'
        using Cons.prems(2) us that inside(1,2) by (auto simp: regions_ok_def apart_def intro: order_trans)
      have "\<forall>i<range_count (?a t). \<forall>r\<in>set rs. region_usable r \<longrightarrow>
          apart (fr_start (ranges (?a t) ! i)) (fr_end (ranges (?a t) ! i)) (region_start r) (region_end r)"
        using Cons.prems(3) new len room by (auto simp: less_Suc_eq nth_list_update)
      with Cons.IH [OF _ rok _ run] add room len False fr show ?thesis by auto
    qed
  qed
qed

lemma fresh_empty: "fresh_allocator allocator_empty" "all_frames allocator_empty = {}"
  by (simp_all add: fresh_allocator_def wf_allocator_def allocator_empty_def all_frames_def
      ranges_disjoint_def reclaimed_def held_def granted_def)

lemma initialize_ok:
  assumes "regions_ok rs" "initialize allocator_empty rs = (Inr u, a)"
  shows "wf_allocator a \<and> initialized a \<and> held a = {} \<and> all_frames a = (\<Union>r\<in>set rs. region_frames r) \<and>
    unat (total_frames a) = card (all_frames a)"
proof -
  obtain u' a0 where lp: "initialize_loop rs allocator_empty = (Inr u', a0)" and a: "a = a0\<lparr>initialized := True\<rparr>"
    using assms(2) by (auto simp: initialize_def allocator_empty_def split: prod.splits sum.splits if_splits)
  from initialize_loop_ok [OF fresh_empty(1) assms(1) _ lp]
  have f: "fresh_allocator a0" "all_frames a0 = (\<Union>r\<in>set rs. region_frames r)"
    by (simp_all add: fresh_empty(2)) (simp_all add: allocator_empty_def)
  have same: "all_frames a = all_frames a0" "held a = held a0" "granted a = granted a0" "reclaimed a = reclaimed a0"
    by (simp_all add: a all_frames_def held_def granted_def reclaimed_def)
  have "wf_allocator a" using f(1) same by (simp add: fresh_allocator_def wf_allocator_def ranges_disjoint_def a)
  with f same fresh_granted [OF f(1)] show ?thesis by (simp add: fresh_allocator_def a)
qed

text \<open>
  C11: Boot-time initialisation. When the bootloader's usable regions do not overlap and
  \<open>initialize\<close> succeeds, the allocator manages exactly the whole 4 KiB frames of the usable
  regions above the first megabyte, none of them is held, and its frame count is their number.
\<close>

theorem memory_init_exact:
  assumes "regions_ok rs" "initialize allocator_empty rs = (Inr (), a)"
  shows "all_frames a = (\<Union>r\<in>set rs. region_frames r) \<and> held a = {} \<and>
    unat (total_frames a) = card (\<Union>r\<in>set rs. region_frames r) \<and> free_frames a = all_frames a"
  using initialize_ok [OF assms] by (simp add: free_frames_def)

definition test_regions :: "MemoryRegion list" where
  "test_regions =
     [\<lparr>region_start = 0, region_end = 0x9f000, region_usable = True\<rparr>,
      \<lparr>region_start = 0x100800, region_end = 0x104800, region_usable = True\<rparr>,
      \<lparr>region_start = 0x104800, region_end = 0x200000, region_usable = False\<rparr>]"

lemma test_regions_ok: "regions_ok test_regions"
  by (simp add: regions_ok_def test_regions_def)

lemma test_regions_init: "fst (initialize allocator_empty test_regions) = Inr ()"
  by code_simp

text \<open>Instance: a map with a low region, an unaligned region and a reserved one.\<close>

theorem memory_init_exact_witness:
  "let a = snd (initialize allocator_empty test_regions)
   in fst (initialize allocator_empty test_regions) = Inr () \<and> total_frames a = 3 \<and>
      card (\<Union>r\<in>set test_regions. region_frames r) = 3"
proof -
  let ?i = "initialize allocator_empty test_regions"
  have i: "?i = (Inr (), snd ?i)" using test_regions_init by (metis prod.collapse)
  have "total_frames (snd ?i) = 3" by code_simp
  with memory_init_exact [OF test_regions_ok i] i test_regions_init show ?thesis by (simp add: Let_def)
qed

section \<open>Ownership\<close>

text \<open>
  The histories of the allocator: after boot, any sequence of requests and of releases of
  frames by their owners. The second component is the set of frames that have owners; a
  refused release leaves the frame with its owner.
\<close>

inductive frame_history ::
  "(u64 \<Rightarrow> u64 option) \<Rightarrow> MemoryRegion list \<Rightarrow> PhysicalFrameAllocator \<Rightarrow> u64 set \<Rightarrow> bool"
  for pf rs where
  boot: "initialize allocator_empty rs = (Inr (), a) \<Longrightarrow> frame_history pf rs a {}"
| grant: "frame_history pf rs a owned \<Longrightarrow> allocate_frame pf a = (Some f, a') \<Longrightarrow>
    frame_history pf rs a' (insert f owned)"
| deny: "frame_history pf rs a owned \<Longrightarrow> allocate_frame pf a = (None, a') \<Longrightarrow> frame_history pf rs a' owned"
| release: "frame_history pf rs a owned \<Longrightarrow> f \<in> owned \<Longrightarrow> deallocate_frame a f = (True, a') \<Longrightarrow>
    frame_history pf rs a' (owned - {f})"
| refuse: "frame_history pf rs a owned \<Longrightarrow> f \<in> owned \<Longrightarrow> deallocate_frame a f = (False, a') \<Longrightarrow>
    frame_history pf rs a' owned"

lemma frame_history_inv:
  assumes pf: "phys_frame_ok pf" and rs: "regions_ok rs" and "frame_history pf rs a owned"
  shows "wf_allocator a \<and> initialized a \<and> owned = held a \<and> all_frames a = (\<Union>r\<in>set rs. region_frames r) \<and>
    unat (total_frames a) = card (all_frames a)"
  using assms(3)
proof induction
  case (boot a)
  with initialize_ok [OF rs] show ?case by simp
next
  case (grant a owned f a')
  with allocate_frame_ok [OF pf _ _ grant(2)] grant.IH show ?case by (auto simp: grant_ok_def)
next
  case (deny a owned a')
  with allocate_frame_ok [OF pf _ _ deny(2)] deny.IH show ?case by (auto simp: grant_ok_def)
next
  case (release a owned f a')
  then have "total_frames a' = total_frames a" by (auto simp: deallocate_frame_def split: if_splits)
  with deallocate_frame_ok [OF _ _ release(3)] release.IH release(2) show ?case by auto
next
  case (refuse a owned f a')
  then have "total_frames a' = total_frames a" by (auto simp: deallocate_frame_def split: if_splits)
  with deallocate_frame_ok [OF _ _ refuse(3)] refuse.IH refuse(2) show ?case by auto
qed

text \<open>
  C5: Exclusive ownership of physical frames. In every history in which owners release only
  frames they own, a granted frame has no owner and is a whole frame of a usable region above
  the first megabyte; a request is denied only when every such frame has an owner; and the
  statistics report as remaining exactly the number of frames without an owner.
\<close>

theorem frame_ownership_exclusive:
  assumes pf: "phys_frame_ok pf" and rs: "regions_ok rs" and hist: "frame_history pf rs a owned"
  shows "(\<forall>f a'. allocate_frame pf a = (Some f, a') \<longrightarrow> f \<notin> owned \<and> f \<in> (\<Union>r\<in>set rs. region_frames r)) \<and>
    (\<forall>a'. allocate_frame pf a = (None, a') \<longrightarrow> owned = (\<Union>r\<in>set rs. region_frames r)) \<and>
    unat (remaining_frames (mem_stats a)) = card ((\<Union>r\<in>set rs. region_frames r) - owned)"
proof -
  note inv = frame_history_inv [OF assms]
  then have wf: "wf_allocator a" and init: "initialized a" and own: "owned = held a"
    and all: "all_frames a = (\<Union>r\<in>set rs. region_frames r)" by auto
  have sub: "held a \<subseteq> all_frames a" using granted_subset [OF wf] by (auto simp: held_def)
  have "unat (remaining_frames (mem_stats a)) = card (all_frames a) - card (held a)"
    using inv by (simp add: mem_stats_def unat_saturating_sub wf_allocator_def)
  also have "\<dots> = card (all_frames a - held a)" by (simp add: card_Diff_subset sub)
  finally have "unat (remaining_frames (mem_stats a)) = card (all_frames a - held a)" .
  moreover have "f \<notin> owned \<and> f \<in> all_frames a" if "allocate_frame pf a = (Some f, a')" for f a'
    using allocate_frame_ok [OF pf wf init that] own by (simp add: grant_ok_def free_frames_def)
  moreover have "owned = all_frames a" if "allocate_frame pf a = (None, a')" for a'
    using allocate_frame_ok [OF pf wf init that] own sub by (auto simp: grant_ok_def free_frames_def)
  ultimately show ?thesis using own all by simp
qed

text \<open>Instance: after one grant from the map above.\<close>

theorem frame_ownership_exclusive_witness:
  "let a = snd (allocate_frame Some (snd (initialize allocator_empty test_regions)))
   in frame_history Some test_regions a {0x101000} \<and>
      (\<forall>f a'. allocate_frame Some a = (Some f, a') \<longrightarrow> f \<notin> {0x101000})"
proof -
  let ?i = "initialize allocator_empty test_regions"
  let ?g = "allocate_frame Some (snd ?i)"
  have i: "?i = (Inr (), snd ?i)" using test_regions_init by (metis prod.collapse)
  have "fst ?g = Some 0x101000" by code_simp
  then have g: "?g = (Some 0x101000, snd ?g)" by (metis prod.collapse)
  have h: "frame_history Some test_regions (snd ?g) {0x101000}"
    using frame_history.grant [OF frame_history.boot [OF i] g] by simp
  have "phys_frame_ok Some" by (simp add: phys_frame_ok_def)
  from frame_ownership_exclusive [OF this test_regions_ok h] h show ?thesis by (simp add: Let_def)
qed

text \<open>
  C12: The boot-time self test of the frame allocator passes whenever at least three frames are
  free, and leaves three more frames held.
\<close>

theorem memory_self_test_passes:
  assumes pf: "phys_frame_ok pf" and wf: "wf_allocator a" and init: "initialized a"
    and three: "3 \<le> card (free_frames a)"
  shows "\<exists>a' F. memory_self_test pf a = (True, a') \<and> card F = 3 \<and> F \<subseteq> free_frames a \<and> held a' = held a \<union> F"
proof -
  have step: "\<exists>f a'. allocate_frame pf x = (Some f, a') \<and> f \<in> free_frames x \<and> held a' = insert f (held x) \<and>
      free_frames a' = free_frames x - {f} \<and> wf_allocator a' \<and> initialized a' \<and> all_frames a' = all_frames x"
    if x: "wf_allocator x" "initialized x" "free_frames x \<noteq> {}" for x
  proof -
    obtain r x' where al: "allocate_frame pf x = (r, x')" by force
    from allocate_frame_ok [OF pf x(1,2) al] x show ?thesis
      by (cases r) (auto simp: grant_ok_def free_frames_def al)
  qed
  have fin: "finite (free_frames a)" by (simp add: free_frames_def)
  have ne: "free_frames a \<noteq> {}" using three by auto
  obtain f a1 where 1: "allocate_frame pf a = (Some f, a1)" "f \<in> free_frames a" "held a1 = insert f (held a)"
    "free_frames a1 = free_frames a - {f}" "wf_allocator a1" "initialized a1" "all_frames a1 = all_frames a"
    using step [OF wf init ne] by blast
  have c1: "2 \<le> card (free_frames a1)" using 1(2,4) three fin by simp
  then have ne1: "free_frames a1 \<noteq> {}" by auto
  obtain s a2 where 2: "allocate_frame pf a1 = (Some s, a2)" "s \<in> free_frames a1" "held a2 = insert s (held a1)"
    "free_frames a2 = free_frames a1 - {s}" "wf_allocator a2" "initialized a2" "all_frames a2 = all_frames a1"
    using step [OF 1(5,6) ne1] by blast
  have "1 \<le> card (free_frames a2)" using 1(4) 2(2,4) c1 fin by simp
  then have ne2: "free_frames a2 \<noteq> {}" by auto
  obtain t a3 where 3: "allocate_frame pf a2 = (Some t, a3)" "t \<in> free_frames a2" "held a3 = insert t (held a2)"
    "wf_allocator a3" "all_frames a3 = all_frames a2"
    using step [OF 2(5,6) ne2] by blast
  have in3: "f \<in> all_frames a3" "s \<in> all_frames a3" "t \<in> all_frames a3"
    using 1(2,7) 2(2,7) 3(2,5) by (simp_all add: free_frames_def)
  have neq: "f \<noteq> s" "s \<noteq> t" "f \<noteq> t" using 1(4) 2(2,4) 3(2) by auto
  have "memory_self_test pf a = (True, a3)"
    using 1(1) 2(1) 3(1) neq in3 all_frames_frame(3) [OF 3(4)] by (simp add: memory_self_test_def)
  moreover have "held a3 = held a \<union> {f, s, t}" using 1(3) 2(3) 3(3) by auto
  moreover have "{f, s, t} \<subseteq> free_frames a" "card {f, s, t} = 3" using 1(2,4) 2(2,4) 3(2) neq by auto
  ultimately show ?thesis by blast
qed

text \<open>Instance: the map above has exactly three frames.\<close>

theorem memory_self_test_passes_witness:
  "fst (memory_self_test Some (snd (initialize allocator_empty test_regions)))"
proof -
  let ?i = "initialize allocator_empty test_regions"
  have i: "?i = (Inr (), snd ?i)" using test_regions_init by (metis prod.collapse)
  have "total_frames (snd ?i) = 3" by code_simp
  moreover have "unat (total_frames (snd ?i)) = card (all_frames (snd ?i))" "held (snd ?i) = {}"
    using initialize_ok [OF test_regions_ok i] by auto
  ultimately have "card (all_frames (snd ?i)) = 3" "held (snd ?i) = {}" by simp_all
  then have "3 \<le> card (free_frames (snd ?i))" unfolding free_frames_def by simp
  moreover have "phys_frame_ok Some" by (simp add: phys_frame_ok_def)
  moreover have "wf_allocator (snd ?i)" "initialized (snd ?i)" using initialize_ok [OF test_regions_ok i] by auto
  ultimately show ?thesis using memory_self_test_passes [of Some "snd ?i"] by auto
qed

end
