(* ===== verification/File_Frames.thy ===== *)
theory File_Frames
  imports Frame_Memory
begin

text \<open>
  Shared physical frames: the reference counts of copy-on-write frames (\<open>CowTable\<close> of
  \<open>kernel/src/paging.rs\<close>) and the cache of file pages that mappings share
  (\<open>kernel/src/file_frames.rs\<close>), with the operations by which the file system keeps the cached
  pages and the files the same. \<open>frame_bytes\<close> is the physical memory, seen as the contents of
  each frame. \<open>pf\<close> is \<open>PhysFrame::from_start_address\<close>, as in the frame allocator.
\<close>

section \<open>Reference counts of shared frames\<close>

definition MAX_COW_FRAMES :: nat where
  "MAX_COW_FRAMES = 1024"

record CowEntry =
  cow_frame :: u64
  cow_refcount :: u32
  cow_occupied :: bool

definition cow_entry_empty :: CowEntry where
  "cow_entry_empty = \<lparr>cow_frame = 0, cow_refcount = 0, cow_occupied = False\<rparr>"

type_synonym CowTable = "CowEntry list"

definition cow_table_empty :: CowTable where
  "cow_table_empty = replicate MAX_COW_FRAMES cow_entry_empty"

datatype MapRangeError = NotInitialized | InvalidRange | AlreadyMapped | OutOfFrames | MappingFailed | NotMapped

definition cow_find_slot :: "u64 \<Rightarrow> CowTable \<Rightarrow> nat option" where
  "cow_find_slot frame t = position (\<lambda>e. cow_occupied e \<and> cow_frame e = frame) t"

definition cow_share :: "u64 \<Rightarrow> CowTable \<Rightarrow> (MapRangeError + unit) \<times> CowTable" where
  "cow_share frame t =
     (case cow_find_slot frame t of
        Some slot \<Rightarrow>
          (case checked_add (cow_refcount (t ! slot)) 1 of
             None \<Rightarrow> (Inl OutOfFrames, t)
           | Some n \<Rightarrow> (Inr (), t[slot := (t ! slot)\<lparr>cow_refcount := n\<rparr>]))
      | None \<Rightarrow>
          (case position (\<lambda>e. \<not> cow_occupied e) t of
             None \<Rightarrow> (Inl OutOfFrames, t)
           | Some slot \<Rightarrow> (Inr (), t[slot := \<lparr>cow_frame = frame, cow_refcount = 2, cow_occupied = True\<rparr>])))"

definition cow_release :: "u64 \<Rightarrow> CowTable \<Rightarrow> bool \<times> CowTable" where
  "cow_release frame t =
     (case cow_find_slot frame t of
        None \<Rightarrow> (True, t)
      | Some slot \<Rightarrow>
          (let n = saturating_sub (cow_refcount (t ! slot)) 1
           in if n = 0 then (True, t[slot := cow_entry_empty])
              else (False, t[slot := (t ! slot)\<lparr>cow_refcount := n\<rparr>])))"

definition cow_refs :: "u64 \<Rightarrow> CowTable \<Rightarrow> u32" where
  "cow_refs frame t = (case cow_find_slot frame t of None \<Rightarrow> 1 | Some slot \<Rightarrow> cow_refcount (t ! slot))"

section \<open>The frame cache\<close>

definition FRAME_CACHE_CAPACITY :: nat where
  "FRAME_CACHE_CAPACITY = 64"

record FrameKey =
  k_node :: nat
  k_generation :: u64
  k_version :: u64
  k_offset :: nat
  k_count :: nat
  k_shared :: bool
  k_snapshot :: u64

record Entry =
  fe_key :: FrameKey
  fe_frame :: u64
  fe_age :: u64

text \<open>The cache with what it works on: the reference counts, the allocator and the memory.\<close>

record FrameState =
  ff_cache :: "Entry option list"
  ff_snapshots :: u64
  ff_cow :: CowTable
  ff_allocator :: PhysicalFrameAllocator
  frame_bytes :: "u64 \<Rightarrow> bytes"

definition same_page :: "FrameKey \<Rightarrow> FrameKey \<Rightarrow> bool" where
  "same_page a b \<longleftrightarrow> k_node a = k_node b \<and> k_generation a = k_generation b \<and> k_version a = k_version b \<and>
     k_offset a = k_offset b \<and> k_shared a = k_shared b \<and> k_snapshot a = k_snapshot b \<and>
     (k_shared a \<or> k_count a = k_count b)"

definition release_frame :: "u64 \<Rightarrow> FrameState \<Rightarrow> bool \<times> FrameState" where
  "release_frame phys s =
     (let (should_free, t) = cow_release phys (ff_cow s); s = s\<lparr>ff_cow := t\<rparr>
      in if should_free
         then let (ok, a) = deallocate_frame (ff_allocator s) phys in (ok, s\<lparr>ff_allocator := a\<rparr>)
         else (True, s))"

definition release_file_frame :: "(u64 \<Rightarrow> u64 option) \<Rightarrow> u64 \<Rightarrow> FrameState \<Rightarrow> bool \<times> FrameState" where
  "release_file_frame pf frame s =
     (case pf frame of None \<Rightarrow> (False, s) | Some f \<Rightarrow> release_frame f s)"

definition file_frame_references :: "u64 \<Rightarrow> FrameState \<Rightarrow> u32" where
  "file_frame_references frame s = cow_refs frame (ff_cow s)"

text \<open>Both assert that the range lies in the page.\<close>

definition read_file_frame :: "u64 \<Rightarrow> nat \<Rightarrow> nat \<Rightarrow> (u64 \<Rightarrow> bytes) \<Rightarrow> bytes" where
  "read_file_frame frame off n mem = slice (mem frame) off n"

definition write_file_frame :: "u64 \<Rightarrow> nat \<Rightarrow> bytes \<Rightarrow> (u64 \<Rightarrow> bytes) \<Rightarrow> (u64 \<Rightarrow> bytes)" where
  "write_file_frame frame off data mem = mem(frame := copy_at (mem frame) off data)"

fun reclaim_loop :: "(u64 \<Rightarrow> u64 option) \<Rightarrow> nat \<Rightarrow> nat \<Rightarrow> FrameState \<Rightarrow> nat \<times> FrameState" where
  "reclaim_loop pf i 0 s = (0, s)"
| "reclaim_loop pf i (Suc n) s =
     (case ff_cache s ! i of
        None \<Rightarrow> reclaim_loop pf (Suc i) n s
      | Some entry \<Rightarrow>
          if file_frame_references (fe_frame entry) s = 1
          then let (ok, s) = release_file_frame pf (fe_frame entry) s in
            if ok
            then let (released, s) = reclaim_loop pf (Suc i) n (s\<lparr>ff_cache := (ff_cache s)[i := None]\<rparr>)
                 in (Suc released, s)
            else reclaim_loop pf (Suc i) n s
          else reclaim_loop pf (Suc i) n s)"

definition reclaim_unused :: "(u64 \<Rightarrow> u64 option) \<Rightarrow> FrameState \<Rightarrow> nat \<times> FrameState" where
  "reclaim_unused pf s = reclaim_loop pf 0 (length (ff_cache s)) s"

definition shows_file :: "nat \<Rightarrow> u64 \<Rightarrow> Entry \<Rightarrow> bool" where
  "shows_file node generation e \<longleftrightarrow>
     k_shared (fe_key e) \<and> k_node (fe_key e) = node \<and> k_generation (fe_key e) = generation"

text \<open>\<open>iter().flatten()\<close>.\<close>

definition flatten :: "'a option list \<Rightarrow> 'a list" where
  "flatten xs = map the (filter (\<lambda>x. x \<noteq> None) xs)"

definition overlay_entry :: "(u64 \<Rightarrow> bytes) \<Rightarrow> nat \<Rightarrow> bytes \<Rightarrow> Entry \<Rightarrow> bytes" where
  "overlay_entry mem off data e =
     (let k = fe_key e;
          start = max off (k_offset k);
          fin = min (off + length data) (k_offset k + k_count k)
      in if start < fin
         then copy_at data (start - off) (read_file_frame (fe_frame e) (start - k_offset k) (fin - start) mem)
         else data)"

definition overlay :: "nat \<Rightarrow> u64 \<Rightarrow> nat \<Rightarrow> bytes \<Rightarrow> FrameState \<Rightarrow> bytes" where
  "overlay node generation off data s =
     foldl (overlay_entry (frame_bytes s) off) data (filter (shows_file node generation) (flatten (ff_cache s)))"

definition update_entry :: "nat \<Rightarrow> bytes \<Rightarrow> Entry \<Rightarrow> (u64 \<Rightarrow> bytes) \<Rightarrow> Entry \<times> (u64 \<Rightarrow> bytes)" where
  "update_entry off data e mem =
     (let k = fe_key e;
          k = (if off < k_offset k + 4096 \<and> off + length data > k_offset k
               then k\<lparr>k_count := max (k_count k) (min (off + length data - k_offset k) 4096)\<rparr> else k);
          start = max off (k_offset k);
          fin = min (off + length data) (k_offset k + k_count k)
      in (e\<lparr>fe_key := k\<rparr>,
          if start < fin
          then write_file_frame (fe_frame e) (start - k_offset k) (slice data (start - off) (fin - start)) mem
          else mem))"

text \<open>A loop over the shared entries of a file, with what it does to the entry and the memory.\<close>

fun for_shared ::
  "nat \<Rightarrow> u64 \<Rightarrow> (Entry \<Rightarrow> (u64 \<Rightarrow> bytes) \<Rightarrow> Entry \<times> (u64 \<Rightarrow> bytes)) \<Rightarrow> Entry option list \<Rightarrow> (u64 \<Rightarrow> bytes) \<Rightarrow>
     Entry option list \<times> (u64 \<Rightarrow> bytes)" where
  "for_shared node generation f [] mem = ([], mem)"
| "for_shared node generation f (slot # rest) mem =
     (let (slot', mem) =
        (case slot of
           None \<Rightarrow> (None, mem)
         | Some e \<Rightarrow>
             if shows_file node generation e then (let (e', mem) = f e mem in (Some e', mem)) else (Some e, mem));
        (rest', mem) = for_shared node generation f rest mem
      in (slot' # rest', mem))"

definition frames_update :: "nat \<Rightarrow> u64 \<Rightarrow> nat \<Rightarrow> bytes \<Rightarrow> FrameState \<Rightarrow> FrameState" where
  "frames_update node generation off data s =
     (let (cache, mem) = for_shared node generation (update_entry off data) (ff_cache s) (frame_bytes s)
      in s\<lparr>ff_cache := cache, frame_bytes := mem\<rparr>)"

definition replace_entry :: "bytes \<Rightarrow> Entry \<Rightarrow> (u64 \<Rightarrow> bytes) \<Rightarrow> Entry \<times> (u64 \<Rightarrow> bytes)" where
  "replace_entry data e mem =
     (let off = k_offset (fe_key e);
          count = min (length data - off) 4096;
          page = (if count > 0 then copy_at (replicate 4096 0) 0 (slice data off count) else replicate 4096 0)
      in (e\<lparr>fe_key := (fe_key e)\<lparr>k_count := count\<rparr>\<rparr>, write_file_frame (fe_frame e) 0 page mem))"

definition frames_replace :: "nat \<Rightarrow> u64 \<Rightarrow> bytes \<Rightarrow> FrameState \<Rightarrow> FrameState" where
  "frames_replace node generation data s =
     (let (cache, mem) = for_shared node generation (replace_entry data) (ff_cache s) (frame_bytes s)
      in s\<lparr>ff_cache := cache, frame_bytes := mem\<rparr>)"

section \<open>Bounds of file mappings\<close>

definition MAX_MAPPING_SIZE :: nat where
  "MAX_MAPPING_SIZE = 64 * 1024"

definition mapped_size :: "nat \<Rightarrow> nat \<Rightarrow> nat \<Rightarrow> nat option" where
  "mapped_size file_size off len =
     (if len = 0 \<or> len > MAX_MAPPING_SIZE \<or> off mod 4096 \<noteq> 0 then None
      else case checked_add_usize off len of
        None \<Rightarrow> None
      | Some fin \<Rightarrow> if fin > file_size then None
          else map_option (\<lambda>n. n - n mod 4096) (checked_add_usize len 4095))"

section \<open>The counts are exact\<close>

text \<open>
  Histories of the counts under the owners of frames: \<open>refs\<close> is the number of references to each
  frame, 0 for a frame nobody holds. A frame gets its first owner from the allocator, sharing
  adds one, and only an owner releases.
\<close>

inductive cow_history :: "CowTable \<Rightarrow> (u64 \<Rightarrow> nat) \<Rightarrow> bool" where
  boot: "cow_history cow_table_empty (\<lambda>f. 0)"
| grant: "cow_history t refs \<Longrightarrow> refs f = 0 \<Longrightarrow> cow_history t (refs(f := 1))"
| share: "cow_history t refs \<Longrightarrow> refs f \<noteq> 0 \<Longrightarrow> cow_share f t = (Inr (), t') \<Longrightarrow> cow_history t' (refs(f := refs f + 1))"
| release: "cow_history t refs \<Longrightarrow> refs f \<noteq> 0 \<Longrightarrow> cow_release f t = (freed, t') \<Longrightarrow> cow_history t' (refs(f := refs f - 1))"

definition cow_unique :: "CowTable \<Rightarrow> bool" where
  "cow_unique t \<longleftrightarrow> (\<forall>i j. i < length t \<longrightarrow> j < length t \<longrightarrow> cow_occupied (t ! i) \<longrightarrow> cow_occupied (t ! j) \<longrightarrow>
     cow_frame (t ! i) = cow_frame (t ! j) \<longrightarrow> i = j)"

definition cow_inv :: "CowTable \<Rightarrow> (u64 \<Rightarrow> nat) \<Rightarrow> bool" where
  "cow_inv t refs \<longleftrightarrow> cow_unique t \<and>
     (\<forall>i<length t. cow_occupied (t ! i) \<longrightarrow> refs (cow_frame (t ! i)) \<noteq> 0 \<and> unat (cow_refcount (t ! i)) = refs (cow_frame (t ! i))) \<and>
     (\<forall>f. refs f > 1 \<longrightarrow> cow_find_slot f t \<noteq> None)"

lemma cow_find_Some:
  "cow_find_slot f t = Some i \<Longrightarrow> i < length t \<and> cow_occupied (t ! i) \<and> cow_frame (t ! i) = f"
  by (auto simp: cow_find_slot_def dest: position_SomeD)

lemma cow_find_None: "cow_find_slot f t = None \<longleftrightarrow> (\<forall>i<length t. cow_occupied (t ! i) \<longrightarrow> cow_frame (t ! i) \<noteq> f)"
  by (auto simp: cow_find_slot_def all_set_conv_all_nth)

lemma cow_find_at:
  "cow_unique t \<Longrightarrow> i < length t \<Longrightarrow> cow_occupied (t ! i) \<Longrightarrow> cow_frame (t ! i) = f \<Longrightarrow> cow_find_slot f t = Some i"
  unfolding cow_find_slot_def by (rule position_unique) (auto simp: cow_unique_def)

lemma cow_unique_update:
  assumes "cow_unique t" "i < length t"
    "cow_occupied e \<Longrightarrow> cow_occupied (t ! i) \<and> cow_frame e = cow_frame (t ! i) \<or> cow_find_slot (cow_frame e) t = None"
  shows "cow_unique (t[i := e])"
  unfolding cow_unique_def
proof (intro allI impI)
  fix a b
  assume ab: "a < length (t[i := e])" "b < length (t[i := e])" "cow_occupied (t[i := e] ! a)" "cow_occupied (t[i := e] ! b)"
    "cow_frame (t[i := e] ! a) = cow_frame (t[i := e] ! b)"
  have other: "c = i" if "c < length t" "cow_occupied (t ! c)" "cow_occupied e" "cow_frame (t ! c) = cow_frame e" for c
    using assms that unfolding cow_find_None cow_unique_def by metis
  show "a = b"
  proof (cases "a = i"; cases "b = i")
    assume "a \<noteq> i" "b \<noteq> i"
    with ab assms(1) show "a = b" by (simp add: cow_unique_def)
  next
    assume "a = i" "b \<noteq> i"
    with ab assms(2) other [of b] show "a = b" by simp
  next
    assume "a \<noteq> i" "b = i"
    with ab assms(2) other [of a] show "a = b" by simp
  qed simp
qed

lemma cow_inv_update:
  assumes inv: "cow_inv t refs" and i: "i < length t" and f: "cow_occupied e \<Longrightarrow> cow_frame e = f"
    and slot: "cow_occupied (t ! i) \<Longrightarrow> cow_frame (t ! i) = f" "cow_find_slot f t = None \<or> cow_find_slot f t = Some i"
    and n: "cow_occupied e \<Longrightarrow> n \<noteq> 0 \<and> unat (cow_refcount e) = n" "n > 1 \<Longrightarrow> cow_occupied e"
  shows "cow_inv (t[i := e]) (refs(f := n))"
  unfolding cow_inv_def
proof (intro conjI allI impI)
  have u: "cow_unique t" using inv by (simp add: cow_inv_def)
  have else_f: "cow_frame (t ! j) \<noteq> f" if "j < length t" "j \<noteq> i" "cow_occupied (t ! j)" for j
    using cow_find_at [OF u that(1,3) refl] slot(2) that(2) by auto
  show "cow_unique (t[i := e])"
    by (rule cow_unique_update [OF u i]) (use f slot in \<open>auto dest: cow_find_Some\<close>)
  show "(refs(f := n)) (cow_frame (t[i := e] ! j)) \<noteq> 0" "unat (cow_refcount (t[i := e] ! j)) = (refs(f := n)) (cow_frame (t[i := e] ! j))"
    if "j < length (t[i := e])" "cow_occupied (t[i := e] ! j)" for j
    using that i f n(1) else_f [of j] inv by (cases "j = i"; simp add: cow_inv_def)+
  show "cow_find_slot g (t[i := e]) \<noteq> None" if g: "(refs(f := n)) g > 1" for g
  proof (cases "g = f")
    case True
    with g n(2) f i show ?thesis by (auto simp: cow_find_None)
  next
    case False
    with g inv obtain j where j: "cow_find_slot g t = Some j" by (auto simp: cow_inv_def)
    with cow_find_Some [OF j] False slot(1) have "j \<noteq> i" by auto
    with cow_find_Some [OF j] show ?thesis by (auto simp: cow_find_None)
  qed
qed

lemma cow_refs_exact: "cow_inv t refs \<Longrightarrow> refs f \<noteq> 0 \<Longrightarrow> unat (cow_refs f t) = refs f"
proof (cases "cow_find_slot f t")
  case None
  moreover assume "cow_inv t refs" "refs f \<noteq> 0"
  ultimately have "refs f = 1" unfolding cow_inv_def by (metis One_nat_def Suc_lessI neq0_conv)
  with None show ?thesis by (simp add: cow_refs_def)
next
  case (Some i)
  moreover assume "cow_inv t refs"
  ultimately show ?thesis using cow_find_Some [OF Some] by (auto simp: cow_refs_def cow_inv_def)
qed

lemma cow_inv_share:
  assumes inv: "cow_inv t refs" and r: "refs f \<noteq> 0" and share: "cow_share f t = (Inr (), t')"
  shows "cow_inv t' (refs(f := refs f + 1))"
proof (cases "cow_find_slot f t")
  case None
  with inv r have one: "refs f = 1" unfolding cow_inv_def by (metis One_nat_def Suc_lessI neq0_conv)
  from share None obtain i where i: "position (\<lambda>e. \<not> cow_occupied e) t = Some i"
    "t' = t[i := \<lparr>cow_frame = f, cow_refcount = 2, cow_occupied = True\<rparr>]"
    by (auto simp: cow_share_def split: option.splits)
  with position_SomeD [OF i(1)] None one show ?thesis
    unfolding i(2) by (intro cow_inv_update [OF inv]) simp_all
next
  case (Some i)
  with share obtain n where n: "checked_add (cow_refcount (t ! i)) 1 = Some n" "t' = t[i := (t ! i)\<lparr>cow_refcount := n\<rparr>]"
    by (auto simp: cow_share_def split: option.splits)
  have i: "i < length t" "cow_occupied (t ! i)" "cow_frame (t ! i) = f" using cow_find_Some [OF Some] by simp_all
  then have "unat n = refs f + 1" using checked_add_Some [OF n(1)] inv by (simp add: cow_inv_def)
  then show ?thesis unfolding n(2) using i Some by (intro cow_inv_update [OF inv]) simp_all
qed

lemma cow_release_effect:
  assumes inv: "cow_inv t refs" and r: "refs f \<noteq> 0" and rel: "cow_release f t = (freed, t')"
  shows "cow_inv t' (refs(f := refs f - 1))" "freed \<longleftrightarrow> refs f = 1"
proof -
  have "cow_inv t' (refs(f := refs f - 1)) \<and> (freed \<longleftrightarrow> refs f = 1)"
  proof (cases "cow_find_slot f t")
    case None
    with inv r have one: "refs f = 1" unfolding cow_inv_def by (metis One_nat_def Suc_lessI neq0_conv)
    from rel None have t: "t' = t" "freed" by (simp_all add: cow_release_def)
    have "cow_frame (t ! i) \<noteq> f" if "i < length t" "cow_occupied (t ! i)" for i using None that by (simp add: cow_find_None)
    with inv one t show ?thesis by (auto simp: cow_inv_def)
  next
    case (Some i)
    have i: "i < length t" "cow_occupied (t ! i)" "cow_frame (t ! i) = f" using cow_find_Some [OF Some] by simp_all
    then have n: "unat (saturating_sub (cow_refcount (t ! i)) 1) = refs f - 1"
      using inv by (simp add: unat_saturating_sub cow_inv_def)
    then have zero: "saturating_sub (cow_refcount (t ! i)) 1 = 0 \<longleftrightarrow> refs f = 1" using r unfolding unat_eq_zero [symmetric] by linarith
    show ?thesis
    proof (cases "refs f = 1")
      case True
      with rel Some zero have "t' = t[i := cow_entry_empty]" "freed" by (simp_all add: cow_release_def)
      moreover have "cow_inv (t[i := cow_entry_empty]) (refs(f := 0))"
        using i Some by (intro cow_inv_update [OF inv]) (simp_all add: cow_entry_empty_def)
      ultimately show ?thesis using True by simp
    next
      case False
      with rel Some zero have "t' = t[i := (t ! i)\<lparr>cow_refcount := saturating_sub (cow_refcount (t ! i)) 1\<rparr>]" "\<not> freed"
        by (simp_all add: cow_release_def)
      moreover have "cow_inv (t[i := (t ! i)\<lparr>cow_refcount := saturating_sub (cow_refcount (t ! i)) 1\<rparr>]) (refs(f := refs f - 1))"
        using i Some n r False by (intro cow_inv_update [OF inv]) simp_all
      ultimately show ?thesis using False by simp
    qed
  qed
  then show "cow_inv t' (refs(f := refs f - 1))" "freed \<longleftrightarrow> refs f = 1" by blast+
qed

lemma cow_history_inv: "cow_history t refs \<Longrightarrow> cow_inv t refs"
proof (induction rule: cow_history.induct)
  case boot
  show ?case by (simp add: cow_inv_def cow_unique_def cow_table_empty_def cow_entry_empty_def)
next
  case (grant t refs f)
  then have "cow_frame (t ! i) \<noteq> f" if "i < length t" "cow_occupied (t ! i)" for i using that by (auto simp: cow_inv_def)
  with grant.IH show ?case by (auto simp: cow_inv_def)
next
  case share
  then show ?case by (blast intro: cow_inv_share)
next
  case release
  then show ?case by (blast intro: cow_release_effect)
qed

lemma cow_history_length: "cow_history t refs \<Longrightarrow> length t = MAX_COW_FRAMES"
  by (induction rule: cow_history.induct)
    (auto simp: cow_table_empty_def cow_share_def cow_release_def Let_def split: option.splits if_splits)

text \<open>
  C34: Shared frames are counted exactly. In every history of grants, shares and releases by
  owners, the table reports the number of references of every held frame, a release says that
  the frame is to be freed exactly when it gives up the last reference, and sharing fails only
  when the count is at its maximum or every entry of the table is in use.
\<close>

theorem cow_counts_exact:
  assumes "cow_history t refs" and "refs f \<noteq> 0"
  shows "unat (cow_refs f t) = refs f \<and> (fst (cow_release f t) \<longleftrightarrow> refs f = 1) \<and>
    (case cow_share f t of
       (Inr u, t') \<Rightarrow> unat (cow_refs f t') = refs f + 1
     | (Inl e, t') \<Rightarrow> t' = t \<and> e = OutOfFrames \<and> (refs f = 2 ^ 32 - 1 \<or> list_all cow_occupied t))"
proof -
  note inv = cow_history_inv [OF assms(1)]
  obtain freed t1 where rel: "cow_release f t = (freed, t1)" by force
  obtain r t' where share: "cow_share f t = (r, t')" by force
  have "case cow_share f t of (Inr u, t') \<Rightarrow> unat (cow_refs f t') = refs f + 1
     | (Inl e, t') \<Rightarrow> t' = t \<and> e = OutOfFrames \<and> (refs f = 2 ^ 32 - 1 \<or> list_all cow_occupied t)"
  proof (cases r)
    case (Inr u)
    with cow_refs_exact [OF cow_inv_share [OF inv assms(2)], of t' f] share show ?thesis by simp
  next
    case (Inl e)
    have "refs f = 2 ^ 32 - 1" if i: "cow_find_slot f t = Some i" "checked_add (cow_refcount (t ! i)) 1 = None" for i
    proof -
      have "2 ^ 32 \<le> refs f + 1" using i(2) cow_find_Some [OF i(1)] inv by (auto simp: checked_add_eq_None cow_inv_def)
      moreover have "refs f < 2 ^ 32"
        using unsigned_less [of "cow_refs f t", where 'a = nat] cow_refs_exact [OF inv assms(2)] by simp
      ultimately show ?thesis by simp
    qed
    with share Inl show ?thesis by (auto simp: cow_share_def list_all_iff split: option.splits)
  qed
  with rel cow_release_effect(2) [OF inv assms(2) rel] cow_refs_exact [OF inv assms(2)] show ?thesis by simp
qed

theorem cow_counts_exact_witness:
  "\<exists>t. cow_history t ((\<lambda>f. 0)(4096 := 2)) \<and> unat (cow_refs 4096 t) = 2 \<and> \<not> fst (cow_release 4096 t)"
proof -
  have g: "cow_history cow_table_empty ((\<lambda>f. 0)(4096 := 1))" by (rule cow_history.grant [OF cow_history.boot]) simp
  have "cow_find_slot 4096 cow_table_empty = None" by (simp add: cow_find_slot_def cow_table_empty_def cow_entry_empty_def)
  moreover have "position (\<lambda>e. \<not> cow_occupied e) cow_table_empty = Some 0"
    by (simp add: position_Some_iff cow_table_empty_def cow_entry_empty_def MAX_COW_FRAMES_def)
  ultimately have "cow_share 4096 cow_table_empty =
      (Inr (), cow_table_empty[0 := \<lparr>cow_frame = 4096, cow_refcount = 2, cow_occupied = True\<rparr>])"
    by (simp add: cow_share_def)
  from cow_history.share [OF g _ this]
  obtain t where t: "cow_history t ((\<lambda>f. 0)(4096 := 2))" by (auto simp: numeral_2_eq_2)
  from cow_counts_exact [OF t, of 4096] t show ?thesis by auto
qed

section \<open>Files and their cached pages\<close>

text \<open>Well-formed cache: whole pages, and no frame in two entries.\<close>

definition frames_wf :: "FrameState \<Rightarrow> bool" where
  [wf_simps]: "frames_wf s \<longleftrightarrow> distinct (map fe_frame (flatten (ff_cache s))) \<and>
     (\<forall>e\<in>set (flatten (ff_cache s)). k_count (fe_key e) \<le> 4096 \<and> length (frame_bytes s (fe_frame e)) = 4096)"

definition shared_entries :: "nat \<Rightarrow> u64 \<Rightarrow> FrameState \<Rightarrow> Entry list" where
  "shared_entries node generation s = filter (shows_file node generation) (flatten (ff_cache s))"

lemma flatten_simps [simp]: "flatten [] = []" "flatten (None # xs) = flatten xs" "flatten (Some e # xs) = e # flatten xs"
  by (simp_all add: flatten_def)

definition covers :: "Entry \<Rightarrow> nat \<Rightarrow> bool" where
  "covers e p \<longleftrightarrow> k_offset (fe_key e) \<le> p \<and> p < k_offset (fe_key e) + k_count (fe_key e)"

text \<open>The byte a reader sees at a position of the file, given the stored byte.\<close>

definition shown :: "(u64 \<Rightarrow> bytes) \<Rightarrow> Entry list \<Rightarrow> nat \<Rightarrow> u8 \<Rightarrow> u8" where
  "shown mem es p b = foldl (\<lambda>b e. if covers e p then mem (fe_frame e) ! (p - k_offset (fe_key e)) else b) b es"

lemma shown_Nil [simp]: "shown mem [] p b = b"
  by (simp add: shown_def)

lemma shown_snoc:
  "shown mem (es @ [e]) p b = (if covers e p then mem (fe_frame e) ! (p - k_offset (fe_key e)) else shown mem es p b)"
  by (simp add: shown_def)

lemma overlay_entry_nth:
  assumes "k_count (fe_key e) \<le> 4096" "length (mem (fe_frame e)) = 4096" "i < length data"
  shows "length (overlay_entry mem off data e) = length data"
    "overlay_entry mem off data e ! i = (if covers e (off + i) then mem (fe_frame e) ! (off + i - k_offset (fe_key e)) else data ! i)"
proof -
  let ?k = "fe_key e"
  let ?start = "max off (k_offset ?k)" and ?fin = "min (off + length data) (k_offset ?k + k_count ?k)"
  let ?part = "slice (mem (fe_frame e)) (?start - k_offset ?k) (?fin - ?start)"
  have goal: "length (overlay_entry mem off data e) = length data \<and>
    overlay_entry mem off data e ! i = (if covers e (off + i) then mem (fe_frame e) ! (off + i - k_offset ?k) else data ! i)"
  proof (cases "?start < ?fin")
    case True
    then have len: "length ?part = ?fin - ?start" using assms(1,2) by simp
    have fit: "?start - off + length ?part \<le> length data" using True len by linarith
    have eq: "overlay_entry mem off data e = copy_at data (?start - off) ?part"
      using True by (simp add: overlay_entry_def Let_def read_file_frame_def)
    have mid: "?part ! (i - (?start - off)) = mem (fe_frame e) ! (off + i - k_offset ?k)" if "covers e (off + i)"
    proof -
      have "i - (?start - off) < ?fin - ?start" "?start - k_offset ?k + (i - (?start - off)) = off + i - k_offset ?k"
        "off + i - k_offset ?k < 4096" using that assms(1,3) True unfolding covers_def by linarith+
      with nth_slice [of "i - (?start - off)" "?fin - ?start" "?start - k_offset ?k" "mem (fe_frame e)"] assms(2)
      show ?thesis by (simp only:)
    qed
    have "covers e (off + i) \<longleftrightarrow> ?start - off \<le> i \<and> i < ?start - off + length ?part"
      unfolding len covers_def using True assms(3) by linarith
    with mid show ?thesis unfolding eq nth_copy_at [OF fit assms(3)] length_copy_at [OF fit] by simp
  next
    case False
    then have "\<not> covers e (off + i)" unfolding covers_def using assms(3) by linarith
    moreover have "overlay_entry mem off data e = data" unfolding overlay_entry_def Let_def using False by (rule if_not_P)
    ultimately show ?thesis by simp
  qed
  then show "length (overlay_entry mem off data e) = length data"
    "overlay_entry mem off data e ! i = (if covers e (off + i) then mem (fe_frame e) ! (off + i - k_offset ?k) else data ! i)" by blast+
qed

lemma length_overlay_entry:
  assumes "k_count (fe_key e) \<le> 4096" "length (mem (fe_frame e)) = 4096"
  shows "length (overlay_entry mem off data e) = length data"
proof (cases "data = []")
  case True
  then show ?thesis by (simp add: overlay_entry_def Let_def)
next
  case False
  then show ?thesis using overlay_entry_nth(1) [where e = e and mem = mem and i = 0, OF assms] by simp
qed

lemma overlay_fold:
  assumes "\<forall>e\<in>set es. k_count (fe_key e) \<le> 4096 \<and> length (mem (fe_frame e)) = 4096"
  shows "length (foldl (overlay_entry mem off) data es) = length data \<and>
    (\<forall>i<length data. foldl (overlay_entry mem off) data es ! i = shown mem es (off + i) (data ! i))"
  using assms
proof (induction es rule: rev_induct)
  case (snoc e es)
  then have IH: "length (foldl (overlay_entry mem off) data es) = length data"
    "\<And>i. i < length data \<Longrightarrow> foldl (overlay_entry mem off) data es ! i = shown mem es (off + i) (data ! i)" by auto
  from snoc.prems have e: "k_count (fe_key e) \<le> 4096" "length (mem (fe_frame e)) = 4096" by auto
  show ?case using overlay_entry_nth [where e = e and mem = mem, OF e] length_overlay_entry [where e = e and mem = mem, OF e] IH by (simp add: shown_snoc)
qed simp

lemma shared_entries_wf:
  "frames_wf s \<Longrightarrow> e \<in> set (shared_entries node generation s) \<Longrightarrow>
    k_count (fe_key e) \<le> 4096 \<and> length (frame_bytes s (fe_frame e)) = 4096"
  by (simp add: frames_wf_def shared_entries_def)

lemma overlay_eq:
  assumes "frames_wf s"
  shows "overlay node generation off data s =
    map (\<lambda>i. shown (frame_bytes s) (shared_entries node generation s) (off + i) (data ! i)) [0..<length data]"
  using overlay_fold [of "shared_entries node generation s" "frame_bytes s" off data] shared_entries_wf [OF assms, of _ node generation]
  by (intro nth_equalityI) (simp_all add: overlay_def shared_entries_def)

lemma length_overlay [simp]: "frames_wf s \<Longrightarrow> length (overlay node generation off data s) = length data"
  by (simp add: overlay_eq)

text \<open>Reading a part of the file shows the part of what is shown of the whole.\<close>

lemma overlay_slice:
  assumes "frames_wf s"
  shows "overlay node generation off (slice data off n) s = slice (overlay node generation 0 data s) off n"
proof (rule nth_equalityI)
  show "length (overlay node generation off (slice data off n) s) = length (slice (overlay node generation 0 data s) off n)"
    using assms by simp
  fix i assume "i < length (overlay node generation off (slice data off n) s)"
  then have "i < n" "off + i < length data" "i < min n (length data - off)" using assms by auto
  then show "overlay node generation off (slice data off n) s ! i = slice (overlay node generation 0 data s) off n ! i"
    using assms by (simp add: overlay_eq nth_slice)
qed

text \<open>A loop over the shared entries acts on each frame once.\<close>

lemma for_shared_other:
  assumes f: "\<And>e mem. f e mem = (g e, mem(fe_frame e := h e (mem (fe_frame e))))"
  shows "x \<notin> fe_frame ` set (flatten cache) \<Longrightarrow> snd (for_shared node generation f cache mem) x = mem x"
proof (induction cache arbitrary: mem)
  case (Cons slot cache)
  show ?case
  proof (cases slot)
    case None
    with Cons show ?thesis by (simp add: Let_def split: prod.splits) (metis snd_conv)
  next
    case (Some e)
    with Cons.prems have x: "x \<noteq> fe_frame e" "x \<notin> fe_frame ` set (flatten cache)" by auto
    show ?thesis using Some Cons.IH [OF x(2)] x(1) by (simp add: f case_prod_beta Let_def)
  qed
qed simp

lemma for_shared_effect:
  assumes f: "\<And>e mem. f e mem = (g e, mem(fe_frame e := h e (mem (fe_frame e))))"
    and d: "distinct (map fe_frame (flatten cache))"
  shows "fst (for_shared node generation f cache mem) = map (map_option (\<lambda>e. if shows_file node generation e then g e else e)) cache"
    and "e \<in> set (flatten cache) \<Longrightarrow> snd (for_shared node generation f cache mem) (fe_frame e) =
      (if shows_file node generation e then h e (mem (fe_frame e)) else mem (fe_frame e))"
proof -
  show "fst (for_shared node generation f cache mem) = map (map_option (\<lambda>e. if shows_file node generation e then g e else e)) cache"
  proof (induction cache arbitrary: mem)
    case (Cons slot cache)
    then show ?case by (cases slot) (simp_all add: f case_prod_beta Let_def)
  qed simp
  show "e \<in> set (flatten cache) \<Longrightarrow> snd (for_shared node generation f cache mem) (fe_frame e) =
      (if shows_file node generation e then h e (mem (fe_frame e)) else mem (fe_frame e))"
    using d
  proof (induction cache arbitrary: mem)
    case (Cons slot cache)
    show ?case
    proof (cases slot)
      case None
      with Cons show ?thesis by (simp add: case_prod_beta Let_def)
    next
      case (Some x)
      from Some Cons.prems(2) have nx: "fe_frame x \<notin> fe_frame ` set (flatten cache)" "distinct (map fe_frame (flatten cache))" by auto
      show ?thesis
      proof (cases "e \<in> set (flatten cache)")
        case True
        then have "fe_frame e \<noteq> fe_frame x" using nx(1) by (metis imageI)
        then show ?thesis using Some Cons.IH [OF True nx(2)] by (simp add: f case_prod_beta Let_def)
      next
        case False
        then have "e = x" using Cons.prems(1) Some by simp
        then show ?thesis using Some for_shared_other [OF f nx(1)] by (simp add: f case_prod_beta Let_def)
      qed
    qed
  qed simp
qed

lemma shared_loop_effect:
  assumes f: "\<And>e mem. f e mem = (g e, mem(fe_frame e := h e (mem (fe_frame e))))"
    and g: "\<And>e. fe_frame (g e) = fe_frame e" "\<And>e. shows_file node generation (g e) = shows_file node generation e"
      "\<And>e. k_count (fe_key e) \<le> 4096 \<Longrightarrow> k_count (fe_key (g e)) \<le> 4096"
    and h: "\<And>e page. k_count (fe_key e) \<le> 4096 \<Longrightarrow> length page = 4096 \<Longrightarrow> length (h e page) = 4096"
    and wf: "frames_wf s"
  defines "s' \<equiv> (let (cache, mem) = for_shared node generation f (ff_cache s) (frame_bytes s) in s\<lparr>ff_cache := cache, frame_bytes := mem\<rparr>)"
  shows "shared_entries node generation s' = map g (shared_entries node generation s)" "frames_wf s'"
    "e \<in> set (shared_entries node generation s) \<Longrightarrow> frame_bytes s' (fe_frame e) = h e (frame_bytes s (fe_frame e))"
proof -
  have d: "distinct (map fe_frame (flatten (ff_cache s)))" using wf by (simp add: frames_wf_def)
  note eff = for_shared_effect [where f = f and g = g and h = h and node = node and generation = generation and mem = "frame_bytes s", OF f d]
  let ?g = "\<lambda>e. if shows_file node generation e then g e else e"
  have cache: "ff_cache s' = map (map_option ?g) (ff_cache s)"
    and mem: "frame_bytes s' = snd (for_shared node generation f (ff_cache s) (frame_bytes s))"
    using eff(1) by (simp_all add: s'_def case_prod_beta)
  have flat: "flatten (map (map_option ?g) xs) = map ?g (flatten xs)" for xs
  proof (induction xs)
    case (Cons x xs)
    then show ?case by (cases x) simp_all
  qed simp
  have filt: "filter (shows_file node generation) (map ?g es) = map g (filter (shows_file node generation) es)" for es
    by (induction es) (simp_all add: g)
  show "shared_entries node generation s' = map g (shared_entries node generation s)"
    by (simp add: shared_entries_def cache flat filt)
  show "frame_bytes s' (fe_frame e) = h e (frame_bytes s (fe_frame e))" if "e \<in> set (shared_entries node generation s)" for e
    using that eff(2) [of e] by (simp add: mem shared_entries_def)
  have frames: "map fe_frame (map ?g es) = map fe_frame es" for es by (induction es) (simp_all add: g)
  have ok: "k_count (fe_key (?g e)) \<le> 4096 \<and> length (frame_bytes s' (fe_frame (?g e))) = 4096" if e: "e \<in> set (flatten (ff_cache s))" for e
  proof -
    have w: "k_count (fe_key e) \<le> 4096" "length (frame_bytes s (fe_frame e)) = 4096" using wf e by (simp_all add: frames_wf_def)
    show ?thesis using eff(2) [OF e] w g(1,3) h [OF w] by (simp add: mem)
  qed
  show "frames_wf s'" unfolding frames_wf_def cache flat frames set_map ball_simps using d ok by blast
qed

section \<open>Writes keep files and cached pages the same\<close>

definition grown :: "nat \<Rightarrow> nat \<Rightarrow> Entry \<Rightarrow> Entry" where
  "grown off n e =
     (let k = fe_key e
      in e\<lparr>fe_key := if off < k_offset k + 4096 \<and> off + n > k_offset k
           then k\<lparr>k_count := max (k_count k) (min (off + n - k_offset k) 4096)\<rparr> else k\<rparr>)"

definition written :: "nat \<Rightarrow> bytes \<Rightarrow> Entry \<Rightarrow> bytes \<Rightarrow> bytes" where
  "written off data e page =
     (let k = fe_key (grown off (length data) e);
          start = max off (k_offset k);
          fin = min (off + length data) (k_offset k + k_count k)
      in if start < fin then copy_at page (start - k_offset k) (slice data (start - off) (fin - start)) else page)"

lemma grown_simps [simp]:
  "fe_frame (grown off n e) = fe_frame e" "k_offset (fe_key (grown off n e)) = k_offset (fe_key e)"
  "shows_file node generation (grown off n e) = shows_file node generation e"
  by (simp_all add: grown_def Let_def shows_file_def)

lemma update_entry_eq:
  "update_entry off data e mem = (grown off (length data) e, mem(fe_frame e := written off data e (mem (fe_frame e))))"
  by (simp add: update_entry_def grown_def written_def Let_def write_file_frame_def)

lemma grown_count: "k_count (fe_key e) \<le> 4096 \<Longrightarrow> k_count (fe_key (grown off n e)) \<le> 4096"
  by (simp add: grown_def Let_def)

lemma covers_grown:
  "covers (grown off n e) p \<longleftrightarrow> covers e p \<or>
     (off < k_offset (fe_key e) + 4096 \<and> off + n > k_offset (fe_key e) \<and>
      k_offset (fe_key e) \<le> p \<and> p < k_offset (fe_key e) + 4096 \<and> p < off + n)"
  unfolding covers_def grown_def Let_def by auto

lemma written_nth:
  assumes "k_count (fe_key e) \<le> 4096" "length page = 4096"
  shows "length (written off data e page) = 4096"
    "j < 4096 \<Longrightarrow> written off data e page ! j =
      (let p = k_offset (fe_key e) + j
       in if covers (grown off (length data) e) p \<and> off \<le> p \<and> p < off + length data then data ! (p - off) else page ! j)"
proof -
  let ?k = "fe_key (grown off (length data) e)"
  let ?o = "k_offset (fe_key e)"
  let ?start = "max off ?o" and ?fin = "min (off + length data) (?o + k_count ?k)"
  let ?part = "slice data (?start - off) (?fin - ?start)"
  have count: "k_count ?k \<le> 4096" by (rule grown_count [OF assms(1)])
  have "length (written off data e page) = 4096 \<and> (\<forall>j<4096. written off data e page ! j =
      (let p = ?o + j in if covers (grown off (length data) e) p \<and> off \<le> p \<and> p < off + length data then data ! (p - off) else page ! j))"
  proof (cases "?start < ?fin")
    case True
    then have len: "length ?part = ?fin - ?start" by simp
    have fit: "?start - ?o + length ?part \<le> length page" using True count assms(2) len by linarith
    have eq: "written off data e page = copy_at page (?start - ?o) ?part" using True by (simp add: written_def Let_def)
    have at: "copy_at page (?start - ?o) ?part ! j =
      (if covers (grown off (length data) e) (?o + j) \<and> off \<le> ?o + j \<and> ?o + j < off + length data then data ! (?o + j - off) else page ! j)"
      if j: "j < 4096" for j
    proof -
      have iff: "?start - ?o \<le> j \<and> j < ?start - ?o + length ?part \<longleftrightarrow>
        covers (grown off (length data) e) (?o + j) \<and> off \<le> ?o + j \<and> ?o + j < off + length data"
        unfolding len covers_def grown_simps using True by linarith
      have "?part ! (j - (?start - ?o)) = data ! (?o + j - off)" if "?start - ?o \<le> j \<and> j < ?start - ?o + length ?part"
      proof -
        have "j - (?start - ?o) < ?fin - ?start" "?start - off + (j - (?start - ?o)) = ?o + j - off" "?o + j - off < length data"
          using that True unfolding len by linarith+
        with nth_slice [of "j - (?start - ?o)" "?fin - ?start" "?start - off" data] show ?thesis by (simp only:)
      qed
      with nth_copy_at [OF fit, of j] j assms(2) iff show ?thesis by simp
    qed
    show ?thesis unfolding eq Let_def length_copy_at [OF fit] using at assms(2) by simp
  next
    case False
    then have "\<not> (covers (grown off (length data) e) (?o + j) \<and> off \<le> ?o + j \<and> ?o + j < off + length data)" for j
      unfolding covers_def grown_simps by linarith
    moreover have "written off data e page = page" unfolding written_def Let_def grown_simps using False by (rule if_not_P)
    ultimately show ?thesis using assms(2) by (auto simp: Let_def)
  qed
  then show "length (written off data e page) = 4096"
    "j < 4096 \<Longrightarrow> written off data e page ! j =
      (let p = ?o + j in if covers (grown off (length data) e) p \<and> off \<le> p \<and> p < off + length data then data ! (p - off) else page ! j)"
    by blast+
qed

text \<open>The effect of an update on the cache.\<close>

lemma frames_update_effect:
  assumes wf: "frames_wf s"
  shows "shared_entries node generation (frames_update node generation off data s) =
      map (grown off (length data)) (shared_entries node generation s)"
    "frames_wf (frames_update node generation off data s)"
    "e \<in> set (shared_entries node generation s) \<Longrightarrow>
      frame_bytes (frames_update node generation off data s) (fe_frame e) = written off data e (frame_bytes s (fe_frame e))"
  using shared_loop_effect [where f = "update_entry off data" and g = "grown off (length data)" and h = "written off data" and
      node = node and generation = generation, OF update_entry_eq _ _ grown_count written_nth(1) wf]
  unfolding frames_update_def by simp_all

text \<open>
  The cached part of a page reaches the end of the page or of the file. It is what a write needs
  to extend the cached part without showing bytes of the frame that were never loaded.
\<close>

definition complete :: "nat \<Rightarrow> Entry \<Rightarrow> bool" where
  "complete len e \<longleftrightarrow> min 4096 (len - k_offset (fe_key e)) \<le> k_count (fe_key e)"

lemma complete_grown:
  "complete len e \<Longrightarrow> off \<le> len \<Longrightarrow> complete (max len (off + n)) (grown off n e)"
  unfolding complete_def grown_def Let_def by auto

lemma shown_update:
  assumes "\<forall>e\<in>set es. k_count (fe_key e) \<le> 4096 \<and> length (mem (fe_frame e)) = 4096 \<and> complete len e \<and>
      mem' (fe_frame e) = written off data e (mem (fe_frame e))"
    and "off \<le> len"
  shows "shown mem' (map (grown off (length data)) es) p (if off \<le> p \<and> p < off + length data then data ! (p - off) else b) =
    (if off \<le> p \<and> p < off + length data then data ! (p - off) else shown mem es p b)"
  using assms(1)
proof (induction es rule: rev_induct)
  case (snoc e es)
  let ?in = "off \<le> p \<and> p < off + length data"
  let ?o = "k_offset (fe_key e)"
  from snoc.prems have e: "k_count (fe_key e) \<le> 4096" "length (mem (fe_frame e)) = 4096" "complete len e"
    "mem' (fe_frame e) = written off data e (mem (fe_frame e))" by auto
  show ?case
  proof (cases "covers (grown off (length data) e) p")
    case True
    then have p: "?o \<le> p" "p - ?o < 4096" using grown_count [OF e(1), of off "length data"] unfolding covers_def grown_simps by linarith+
    then have at: "mem' (fe_frame e) ! (p - ?o) = (if ?in then data ! (p - off) else mem (fe_frame e) ! (p - ?o))"
      unfolding e(4) written_nth(2) [where e = e, OF e(1,2) p(2)] Let_def using True by simp
    have "covers e p" if "\<not> ?in"
      using True [unfolded covers_grown] that e(3) assms(2) unfolding complete_def covers_def by linarith
    with True at show ?thesis by (simp add: shown_snoc)
  next
    case False
    then have "\<not> covers e p" by (simp add: covers_grown)
    with False snoc show ?thesis by (simp add: shown_snoc)
  qed
qed simp

text \<open>
  A write that is made both in the file and in its cached pages is what readers of the file see.
\<close>

lemma overlay_update:
  assumes wf: "frames_wf s" and c: "\<forall>e\<in>set (shared_entries node generation s). complete (length stored) e"
    and off: "off \<le> length stored"
  shows "overlay node generation 0 (copy_at stored off data) (frames_update node generation off data s) =
    copy_at (overlay node generation 0 stored s) off data"
proof (rule nth_equalityI)
  let ?s = "frames_update node generation off data s"
  have wf': "frames_wf ?s" by (rule frames_update_effect(2) [OF wf])
  have len: "length (copy_at stored off data) = max (length stored) (off + length data)" using off by (simp add: copy_at_def)
  show "length (overlay node generation 0 (copy_at stored off data) ?s) = length (copy_at (overlay node generation 0 stored s) off data)"
    using wf wf' off by (simp add: copy_at_def)
  fix i assume "i < length (overlay node generation 0 (copy_at stored off data) ?s)"
  then have i: "i < max (length stored) (off + length data)" using wf' len by simp
  have ext: "copy_at xs off data ! i = (if off \<le> i \<and> i < off + length data then data ! (i - off) else xs ! i)"
    if "length xs = length stored" for xs
    using i off that by (auto simp: copy_at_def nth_append)
  have "overlay node generation 0 (copy_at stored off data) ?s ! i =
    shown (frame_bytes ?s) (map (grown off (length data)) (shared_entries node generation s)) i (copy_at stored off data ! i)"
    using i len by (simp add: overlay_eq [OF wf'] frames_update_effect(1) [OF wf])
  also have "\<dots> = (if off \<le> i \<and> i < off + length data then data ! (i - off)
      else shown (frame_bytes s) (shared_entries node generation s) i (stored ! i))"
    unfolding ext [OF refl]
    by (rule shown_update [where len = "length stored"]) (use shared_entries_wf [OF wf] c frames_update_effect(3) [OF wf] off in auto)
  also have "\<dots> = copy_at (overlay node generation 0 stored s) off data ! i"
    using i off wf by (auto simp: ext overlay_eq)
  finally show "overlay node generation 0 (copy_at stored off data) ?s ! i = copy_at (overlay node generation 0 stored s) off data ! i" .
qed

text \<open>Replacing the contents of a file replaces what its cached pages show.\<close>

definition replaced :: "bytes \<Rightarrow> Entry \<Rightarrow> Entry" where
  "replaced data e = e\<lparr>fe_key := (fe_key e)\<lparr>k_count := min (length data - k_offset (fe_key e)) 4096\<rparr>\<rparr>"

definition replaced_page :: "bytes \<Rightarrow> Entry \<Rightarrow> bytes \<Rightarrow> bytes" where
  "replaced_page data e page =
     (let off = k_offset (fe_key e); count = min (length data - off) 4096
      in copy_at page 0 (if count > 0 then copy_at (replicate 4096 0) 0 (slice data off count) else replicate 4096 0))"

lemma replace_entry_eq: "replace_entry data e mem = (replaced data e, mem(fe_frame e := replaced_page data e (mem (fe_frame e))))"
  by (simp add: replace_entry_def replaced_def replaced_page_def write_file_frame_def Let_def)

lemma replaced_page_length: "length page = 4096 \<Longrightarrow> length (replaced_page data e page) = 4096"
  by (simp add: replaced_page_def Let_def copy_at_def)

lemma replaced_page_nth:
  assumes "length page = 4096" "covers (replaced data e) p"
  shows "replaced_page data e page ! (p - k_offset (fe_key e)) = data ! p"
proof -
  let ?o = "k_offset (fe_key e)"
  let ?n = "min (length data - ?o) 4096"
  have p: "?o \<le> p" "p - ?o < ?n" "p < length data" using assms(2) by (auto simp: covers_def replaced_def)
  have len: "length (slice data ?o ?n) = ?n" by simp
  have "replaced_page data e page = slice data ?o ?n @ drop ?n (replicate 4096 0)"
    using p(2) assms(1) len by (auto simp: replaced_page_def Let_def copy_at_def)
  then have "replaced_page data e page ! (p - ?o) = slice data ?o ?n ! (p - ?o)" using p(2) len by (simp add: nth_append)
  also have "\<dots> = data ! p" using p nth_slice [of "p - ?o" ?n ?o data] by simp
  finally show ?thesis .
qed

lemma frames_replace_effect:
  assumes wf: "frames_wf s"
  shows "shared_entries node generation (frames_replace node generation data s) = map (replaced data) (shared_entries node generation s)"
    "frames_wf (frames_replace node generation data s)"
    "e \<in> set (shared_entries node generation s) \<Longrightarrow>
      frame_bytes (frames_replace node generation data s) (fe_frame e) = replaced_page data e (frame_bytes s (fe_frame e))"
  using shared_loop_effect [where f = "replace_entry data" and g = "replaced data" and h = "replaced_page data" and
      node = node and generation = generation, OF replace_entry_eq _ _ _ replaced_page_length wf]
  unfolding frames_replace_def by (simp_all add: replaced_def shows_file_def)

lemma overlay_replace:
  assumes wf: "frames_wf s"
  shows "overlay node generation 0 data (frames_replace node generation data s) = data"
    "e \<in> set (shared_entries node generation (frames_replace node generation data s)) \<Longrightarrow> complete (length data) e"
proof -
  let ?s = "frames_replace node generation data s"
  have shown: "shown (frame_bytes ?s) (map (replaced data) es) p (data ! p) = data ! p" if "set es \<subseteq> set (shared_entries node generation s)" for es p
    using that
  proof (induction es rule: rev_induct)
    case (snoc e es)
    then have "e \<in> set (shared_entries node generation s)" by simp
    with shared_entries_wf [OF wf this] frames_replace_effect(3) [OF wf this] replaced_page_nth [of "frame_bytes s (fe_frame e)" data e p]
    have "frame_bytes ?s (fe_frame e) ! (p - k_offset (fe_key e)) = data ! p" if "covers (replaced data e) p" using that by simp
    moreover have "fe_frame (replaced data e) = fe_frame e" "k_offset (fe_key (replaced data e)) = k_offset (fe_key e)" by (simp_all add: replaced_def)
    ultimately show ?case using snoc by (simp add: shown_snoc)
  qed simp
  show "overlay node generation 0 data ?s = data"
    by (rule nth_equalityI)
      (simp_all add: overlay_eq [OF frames_replace_effect(2) [OF wf]] frames_replace_effect(1) [OF wf] shown)
  show "complete (length data) e" if "e \<in> set (shared_entries node generation ?s)"
    using that by (auto simp: frames_replace_effect(1) [OF wf] complete_def replaced_def)
qed

end
