(* ===== verification/Paths.thy ===== *)
theory Paths
  imports WH_Prelude
begin

text \<open>
  Path strings: the string operations of the standard library that the kernel uses on paths,
  the path functions of the virtual file system (\<open>kernel/src/vfs.rs\<close>) and the resolution of
  relative paths and dot components (\<open>kernel/src/task.rs\<close>).

  A \<open>&str\<close> is the list of its UTF-8 bytes. The lemmas relate path strings to lists of
  components: validation accepts exactly the strings of well-formed component lists, and the
  parent, child and prefix tests are the operations on those lists.
\<close>

section \<open>Strings\<close>

text \<open>\<open>core::str::from_utf8\<close> accepts well-formed sequences of one to four bytes.\<close>

definition utf8_cont :: "u8 \<Rightarrow> bool" where
  "utf8_cont b \<longleftrightarrow> 128 \<le> b \<and> b \<le> 191"

text \<open>The width of the character at the head of a string, 0 if there is none.\<close>

definition utf8_width :: "bytes \<Rightarrow> nat" where
  "utf8_width s =
     (case s of
        [] \<Rightarrow> 0
      | a # bs \<Rightarrow>
          if a < 128 then 1
          else if 194 \<le> a \<and> a \<le> 223 then (case bs of b # cs \<Rightarrow> if utf8_cont b then 2 else 0 | _ \<Rightarrow> 0)
          else if 224 \<le> a \<and> a \<le> 239
            then (case bs of b # c # ds \<Rightarrow>
                    if utf8_cont b \<and> (a = 224 \<longrightarrow> 160 \<le> b) \<and> (a = 237 \<longrightarrow> b \<le> 159) \<and> utf8_cont c then 3 else 0 | _ \<Rightarrow> 0)
          else if 240 \<le> a \<and> a \<le> 244
            then (case bs of b # c # d # es \<Rightarrow>
                    if utf8_cont b \<and> (a = 240 \<longrightarrow> 144 \<le> b) \<and> (a = 244 \<longrightarrow> b \<le> 143) \<and> utf8_cont c \<and> utf8_cont d
                    then 4 else 0
                  | _ \<Rightarrow> 0)
          else 0)"

function is_utf8 :: "bytes \<Rightarrow> bool" where
  "is_utf8 s = (if s = [] then True else if 0 < utf8_width s then is_utf8 (drop (utf8_width s) s) else False)"
  by pat_completeness auto
termination
  by (relation "measure length") auto

declare is_utf8.simps [simp del]

lemma is_utf8_Nil [simp]: "is_utf8 []"
  by (simp add: is_utf8.simps)

lemma utf8_width_append:
  "0 < utf8_width xs \<Longrightarrow> utf8_width (xs @ ys) = utf8_width xs \<and> utf8_width xs \<le> length xs"
  unfolding utf8_width_def
  by (cases xs; cases "tl xs"; cases "tl (tl xs)"; cases "tl (tl (tl xs))") (simp_all split: if_split_asm)

lemma is_utf8_append: "is_utf8 xs \<Longrightarrow> is_utf8 (xs @ ys) \<longleftrightarrow> is_utf8 ys"
proof (induction "length xs" arbitrary: xs rule: less_induct)
  case less
  show ?case
  proof (cases "xs = []")
    case False
    with less.prems have w: "0 < utf8_width xs" "is_utf8 (drop (utf8_width xs) xs)" by (simp_all add: is_utf8.simps [of xs] split: if_split_asm)
    with False have "is_utf8 (xs @ ys) \<longleftrightarrow> is_utf8 (drop (utf8_width xs) xs @ ys)"
      using utf8_width_append [OF w(1), of ys] by (simp add: is_utf8.simps [of "xs @ ys"])
    with less.hyps [OF _ w(2)] w(1) False show ?thesis by simp
  qed simp
qed

text \<open>\<open>from_utf8(..).unwrap_or("")\<close>.\<close>

definition str_of :: "bytes \<Rightarrow> bytes" where
  "str_of bs = (if is_utf8 bs then bs else [])"

definition SLASH :: u8 where
  "SLASH = 47"

definition root_path :: bytes where
  "root_path = [SLASH]"

definition starts_with :: "bytes \<Rightarrow> bytes \<Rightarrow> bool" where
  "starts_with p s \<longleftrightarrow> take (length p) s = p"

definition strip_prefix :: "bytes \<Rightarrow> bytes \<Rightarrow> bytes option" where
  "strip_prefix p s = (if starts_with p s then Some (drop (length p) s) else None)"

text \<open>\<open>split('/')\<close>: one part more than there are slashes.\<close>

fun split_slash :: "bytes \<Rightarrow> bytes list" where
  "split_slash [] = [[]]"
| "split_slash (b # bs) =
     (if b = SLASH then [] # split_slash bs
      else case split_slash bs of [] \<Rightarrow> [[b]] | p # ps \<Rightarrow> (b # p) # ps)"

definition rfind :: "u8 \<Rightarrow> bytes \<Rightarrow> nat option" where
  "rfind b s = map_option (\<lambda>i. length s - 1 - i) (position (\<lambda>x. x = b) (rev s))"

definition trim_end_matches :: "u8 \<Rightarrow> bytes \<Rightarrow> bytes" where
  "trim_end_matches b s = rev (dropWhile (\<lambda>x. x = b) (rev s))"

section \<open>Paths of the file system\<close>

definition MAX_PATH_SIZE :: nat where
  "MAX_PATH_SIZE = 128"

definition MAX_DIR_NAME :: nat where
  "MAX_DIR_NAME = 64"

datatype vfs_error =
  NotFound | InvalidDescriptor | InvalidPath | AlreadyExists | ReadOnly | Full | NotEmpty | Io

definition validate_absolute_path :: "bytes \<Rightarrow> vfs_error + unit" where
  "validate_absolute_path path =
     (if path = [] \<or> \<not> starts_with [SLASH] path \<or> length path > MAX_PATH_SIZE then Inl InvalidPath
      else if 0 \<in> set path then Inl InvalidPath
      else if path \<noteq> root_path \<and>
        list_ex (\<lambda>part. part = [] \<or> part = ascii ''.'' \<or> part = ascii ''..'' \<or> length part > MAX_DIR_NAME) (split_slash (drop 1 path))
      then Inl InvalidPath
      else Inr ())"

definition descendant_suffix :: "bytes \<Rightarrow> bytes \<Rightarrow> bytes option" where
  "descendant_suffix directory path =
     (case strip_prefix directory path of
        None \<Rightarrow> None
      | Some suffix \<Rightarrow> if starts_with [SLASH] suffix then Some suffix else None)"

definition parent_path :: "bytes \<Rightarrow> bytes option" where
  "parent_path path =
     (if path = root_path then None
      else let trimmed = trim_end_matches SLASH path in
        case rfind SLASH trimmed of
          None \<Rightarrow> None
        | Some 0 \<Rightarrow> Some root_path
        | Some pos \<Rightarrow> Some (take pos trimmed))"

definition immediate_child_name :: "bytes \<Rightarrow> bytes \<Rightarrow> bytes option" where
  "immediate_child_name dir child =
     (if child = dir then None
      else if dir = root_path
        then if \<not> starts_with [SLASH] child \<or> length child < 2 then None
             else let rest = drop 1 child in if SLASH \<in> set rest then None else Some rest
      else if \<not> starts_with dir child then None
      else let rest = drop (length dir) child in
        if \<not> starts_with [SLASH] rest then None
        else let name = drop 1 rest in if name = [] \<or> SLASH \<in> set name then None else Some name)"

section \<open>Resolving paths\<close>

datatype FileError =
  PermissionDenied | NoProcess | FileNotFound | TooManyFiles | BadDescriptor | FileAlreadyExists | FileNotEmpty

fun normalize_loop :: "bytes list \<Rightarrow> bytes list \<Rightarrow> FileError + bytes list" where
  "normalize_loop [] stack = Inr stack"
| "normalize_loop (component # rest) stack =
     (if component = [] \<or> component = ascii ''.'' then normalize_loop rest stack
      else if component = ascii ''..'' then normalize_loop rest (butlast stack)
      else if 0 \<in> set component then Inl FileNotFound
      else normalize_loop rest (stack @ [component]))"

text \<open>The string built from the stack: a slash, then the parts with slashes between them.\<close>

fun join_parts :: "bytes list \<Rightarrow> bytes" where
  "join_parts [] = []"
| "join_parts [p] = p"
| "join_parts (p # q # ps) = p @ [SLASH] @ join_parts (q # ps)"

definition normalize_absolute :: "bytes \<Rightarrow> FileError + bytes" where
  "normalize_absolute path =
     (if \<not> starts_with [SLASH] path then Inl FileNotFound
      else bindE (normalize_loop (split_slash path) [])
        (\<lambda>stack. if stack = [] then Inr root_path
                 else let out = SLASH # join_parts stack
                      in if length out > MAX_PATH_SIZE then Inl FileNotFound else Inr out))"

definition resolve_path_with_cwd :: "bytes \<Rightarrow> bytes \<times> nat \<Rightarrow> FileError + bytes" where
  "resolve_path_with_cwd path cwd =
     (if path = [] then Inl FileNotFound
      else if starts_with [SLASH] path then normalize_absolute path
      else let bytes = take (snd cwd) (fst cwd) in
        if \<not> is_utf8 bytes then Inl FileNotFound
        else if bytes = root_path then normalize_absolute ([SLASH] @ path)
        else normalize_absolute (bytes @ [SLASH] @ path))"

section \<open>Component lists\<close>

definition join :: "bytes list \<Rightarrow> bytes" where
  "join cs = concat (map (\<lambda>c. SLASH # c) cs)"

definition path_of :: "bytes list \<Rightarrow> bytes" where
  "path_of cs = (if cs = [] then root_path else join cs)"

definition good_name :: "bytes \<Rightarrow> bool" where
  "good_name c \<longleftrightarrow> c \<noteq> [] \<and> c \<noteq> ascii ''.'' \<and> c \<noteq> ascii ''..'' \<and> length c \<le> MAX_DIR_NAME \<and> SLASH \<notin> set c \<and> 0 \<notin> set c"

definition good_path :: "bytes list \<Rightarrow> bool" where
  "good_path cs \<longleftrightarrow> (\<forall>c\<in>set cs. good_name c) \<and> length (path_of cs) \<le> MAX_PATH_SIZE"

lemma join_simps [simp]: "join [] = []" "join (c # cs) = SLASH # c @ join cs" "join (as @ bs) = join as @ join bs"
  by (simp_all add: join_def)

lemma join_Nil_iff [simp]: "join cs = [] \<longleftrightarrow> cs = []" "[] = join cs \<longleftrightarrow> cs = []"
  by (cases cs; simp)+

text \<open>Where a name ends, a slash or the end of the string follows.\<close>

definition at_boundary :: "bytes \<Rightarrow> bool" where
  "at_boundary s \<longleftrightarrow> s = [] \<or> hd s = SLASH"

lemma at_boundary_join [simp]: "at_boundary (join cs)"
  by (cases cs) (simp_all add: at_boundary_def)

lemma name_cut:
  assumes "a @ x = b @ y" "SLASH \<notin> set a" "SLASH \<notin> set b" "at_boundary x" "at_boundary y"
  shows "a = b" "x = y"
proof -
  have cut: "takeWhile (\<lambda>c. c \<noteq> SLASH) (a @ x) = a" if "SLASH \<notin> set a" "at_boundary x" for a x
    using that by (induction a) (cases x, auto simp: at_boundary_def)
  from cut [OF assms(2,4)] cut [OF assms(3,5)] assms(1) show "a = b" by simp
  with assms(1) show "x = y" by simp
qed

text \<open>A string of components is a prefix at a boundary only of an extension of the list.\<close>

lemma join_prefix:
  assumes "join as @ x = join bs" "at_boundary x" "\<forall>c\<in>set as. SLASH \<notin> set c" "\<forall>c\<in>set bs. SLASH \<notin> set c"
  shows "\<exists>ds. bs = as @ ds \<and> x = join ds"
  using assms
proof (induction as arbitrary: bs)
  case (Cons a as)
  then obtain b bs' where bs: "bs = b # bs'" by (cases bs) auto
  have "at_boundary (join as @ x)" using Cons.prems(2) by (cases as) (simp_all add: at_boundary_def)
  with name_cut [of a "join as @ x" b "join bs'"] Cons.prems bs have "a = b" "join as @ x = join bs'" by simp_all
  with Cons.IH [of bs'] Cons.prems bs show ?case by simp
qed simp

lemma join_inj:
  "join as = join bs \<Longrightarrow> \<forall>c\<in>set as. SLASH \<notin> set c \<Longrightarrow> \<forall>c\<in>set bs. SLASH \<notin> set c \<Longrightarrow> as = bs"
  using join_prefix [of as "[]" bs] by (auto simp: at_boundary_def)

lemma good_names: "good_path cs \<Longrightarrow> c \<in> set cs \<Longrightarrow> c \<noteq> [] \<and> SLASH \<notin> set c"
  by (simp add: good_path_def good_name_def)

lemma join_not_root: "good_path cs \<Longrightarrow> join cs \<noteq> root_path"
  using good_names [of cs "hd cs"] by (cases cs) (auto simp: root_path_def)

lemma path_of_inj: "good_path as \<Longrightarrow> good_path bs \<Longrightarrow> path_of as = path_of bs \<longleftrightarrow> as = bs"
  using join_inj [of as bs] join_not_root [of as] join_not_root [of bs] good_names
  by (auto simp: path_of_def split: if_splits)

lemma path_of_not_Nil [simp]: "path_of cs \<noteq> []"
  by (simp add: path_of_def root_path_def)

lemma path_of_root: "good_path cs \<Longrightarrow> path_of cs = root_path \<longleftrightarrow> cs = []"
  using join_not_root [of cs] by (auto simp: path_of_def)

lemma good_path_Nil [simp]: "good_path []"
  by (simp add: good_path_def path_of_def root_path_def MAX_PATH_SIZE_def)

lemma length_path_of_butlast: "length (path_of cs) \<le> length (path_of (cs @ [c]))"
  by (simp add: path_of_def root_path_def)

lemma good_path_snoc: "good_path (cs @ [c]) \<Longrightarrow> good_path cs"
  using length_path_of_butlast [of cs c] by (auto simp: good_path_def)

section \<open>Splitting and joining\<close>

lemma split_slash_not_Nil [simp]: "split_slash s \<noteq> []"
  by (cases s) (auto split: list.splits)

lemma join_split: "join (split_slash s) = SLASH # s"
proof (induction s)
  case (Cons b s)
  then show ?case by (cases "split_slash s") auto
qed simp

lemma split_no_slash: "p \<in> set (split_slash s) \<Longrightarrow> SLASH \<notin> set p"
proof (induction s arbitrary: p)
  case (Cons b s)
  then show ?case by (cases "split_slash s") (auto split: if_splits)
qed simp

lemma split_bytes: "p \<in> set (split_slash s) \<Longrightarrow> set p \<subseteq> set s"
proof (induction s arbitrary: p)
  case (Cons b s)
  obtain q qs where q: "split_slash s = q # qs" using split_slash_not_Nil [of s] by (cases "split_slash s") auto
  have IH: "set r \<subseteq> set s" if "r \<in> set (q # qs)" for r using Cons.IH [of r] that q by simp
  from Cons.prems q consider "p = []" | "p \<in> set (q # qs)" | "p = b # q" by (auto split: if_split_asm)
  then show ?case using IH [of p] IH [of q] by cases auto
qed simp

lemma split_join:
  assumes "cs \<noteq> []" "\<forall>c\<in>set cs. SLASH \<notin> set c"
  shows "split_slash (drop 1 (join cs)) = cs"
proof (rule join_inj)
  obtain s where s: "join cs = SLASH # s" using assms(1) by (cases cs) auto
  then show "join (split_slash (drop 1 (join cs))) = join cs" by (simp add: join_split)
qed (use assms split_no_slash in auto)

lemma set_join: "set (join cs) = (if cs = [] then {} else insert SLASH (\<Union>(set ` set cs)))"
  by (induction cs) auto

lemma validate_path_of:
  assumes "good_path cs"
  shows "validate_absolute_path (path_of cs) = Inr ()"
proof (cases "cs = []")
  case True
  then show ?thesis
    by (simp add: validate_absolute_path_def path_of_def root_path_def starts_with_def MAX_PATH_SIZE_def SLASH_def)
next
  case False
  then have "starts_with [SLASH] (join cs)" by (cases cs) (simp_all add: starts_with_def)
  moreover have "0 \<notin> set (join cs)" using assms by (auto simp: set_join SLASH_def good_path_def good_name_def)
  moreover have "split_slash (drop 1 (join cs)) = cs" using split_join [OF False] good_names [OF assms] by blast
  ultimately show ?thesis using assms False
    by (auto simp: validate_absolute_path_def path_of_def good_path_def good_name_def list_ex_iff)
qed

lemma validate_good:
  assumes "validate_absolute_path p = Inr ()"
  obtains cs where "good_path cs" "p = path_of cs"
proof (cases "p = root_path")
  case True
  then show thesis using that [of "[]"] by (simp add: path_of_def)
next
  case False
  let ?cs = "split_slash (drop 1 p)"
  from assms False have p: "p \<noteq> []" "starts_with [SLASH] p" "length p \<le> MAX_PATH_SIZE" "0 \<notin> set p"
    "\<forall>c\<in>set ?cs. c \<noteq> [] \<and> c \<noteq> ascii ''.'' \<and> c \<noteq> ascii ''..'' \<and> length c \<le> MAX_DIR_NAME"
    by (auto simp: validate_absolute_path_def list_ex_iff not_less split: if_splits)
  have eq: "path_of ?cs = p" using p(1,2) by (cases p) (simp_all add: path_of_def join_split starts_with_def)
  have "0 \<notin> set c" "SLASH \<notin> set c" if "c \<in> set ?cs" for c
    using split_bytes [OF that] split_no_slash [OF that] p(4) by (auto dest: in_set_dropD)
  with p(5) have "\<forall>c\<in>set ?cs. good_name c" by (auto simp: good_name_def)
  with p(3) eq have "good_path ?cs" by (simp add: good_path_def)
  with eq that show thesis by metis
qed

section \<open>Prefixes, parents and children\<close>

lemma starts_with_iff: "starts_with p s \<longleftrightarrow> (\<exists>x. s = p @ x)"
  by (metis append_eq_conv_conj starts_with_def)

lemma strip_prefix_Some: "strip_prefix p s = Some x \<longleftrightarrow> s = p @ x"
  by (auto simp: strip_prefix_def starts_with_iff)

lemma starts_with_slash: "starts_with [SLASH] x \<longleftrightarrow> x \<noteq> [] \<and> hd x = SLASH"
  by (cases x) (auto simp: starts_with_def)

lemma descendant_suffix_Some: "descendant_suffix d p = Some x \<longleftrightarrow> p = d @ x \<and> x \<noteq> [] \<and> hd x = SLASH"
proof (cases "strip_prefix d p")
  case None
  then have "p \<noteq> d @ x" using strip_prefix_Some [of d p x] by simp
  with None show ?thesis by (simp add: descendant_suffix_def)
next
  case (Some y)
  then have "p = d @ y" using strip_prefix_Some by blast
  with Some show ?thesis by (auto simp: descendant_suffix_def starts_with_slash)
qed

lemma descendant_path:
  assumes "good_path as" "as \<noteq> []" "good_path bs"
  shows "descendant_suffix (path_of as) (path_of bs) = Some x \<longleftrightarrow> (\<exists>ds. ds \<noteq> [] \<and> bs = as @ ds \<and> x = join ds)"
proof
  assume "descendant_suffix (path_of as) (path_of bs) = Some x"
  then have x: "path_of bs = join as @ x" "x \<noteq> []" "hd x = SLASH" using assms(2) by (simp_all add: descendant_suffix_Some path_of_def)
  have "bs \<noteq> []" using x(1,2) assms(2) by (cases as) (auto simp: path_of_def root_path_def)
  with x have "join as @ x = join bs" by (simp add: path_of_def)
  from join_prefix [OF this] x(2,3) good_names [OF assms(1)] good_names [OF assms(3)]
  show "\<exists>ds. ds \<noteq> [] \<and> bs = as @ ds \<and> x = join ds" by (auto simp: at_boundary_def)
next
  assume "\<exists>ds. ds \<noteq> [] \<and> bs = as @ ds \<and> x = join ds"
  then obtain ds where ds: "ds \<noteq> []" "bs = as @ ds" "x = join ds" by blast
  then have "hd (join ds) = SLASH" by (cases ds) simp_all
  with ds assms(2) show "descendant_suffix (path_of as) (path_of bs) = Some x"
    by (simp add: descendant_suffix_Some path_of_def)
qed

lemma descendant_None:
  assumes "good_path as" "as \<noteq> []" "good_path bs"
  shows "descendant_suffix (path_of as) (path_of bs) = None \<longleftrightarrow> (\<forall>ds. ds \<noteq> [] \<longrightarrow> bs \<noteq> as @ ds)"
  using descendant_path [OF assms] by (cases "descendant_suffix (path_of as) (path_of bs)") auto

lemma rfind_snoc:
  assumes "SLASH \<notin> set c"
  shows "rfind SLASH (s @ SLASH # c) = Some (length s)"
proof -
  have "position (\<lambda>x. x = SLASH) (rev c @ SLASH # rev s) = Some (length c)"
    using assms by (induction c rule: rev_induct) auto
  then show ?thesis by (simp add: rfind_def)
qed

lemma parent_path_of:
  assumes "good_path (cs @ [c])"
  shows "parent_path (path_of (cs @ [c])) = Some (path_of cs)"
proof -
  have c: "c \<noteq> []" "SLASH \<notin> set c" using good_names [OF assms, of c] by auto
  then have "last c \<noteq> SLASH" by (metis last_in_set)
  then have "trim_end_matches SLASH (path_of (cs @ [c])) = path_of (cs @ [c])"
    using c(1) by (cases c rule: rev_cases) (simp_all add: trim_end_matches_def path_of_def)
  moreover have "path_of (cs @ [c]) = join cs @ SLASH # c" by (simp add: path_of_def)
  moreover have "path_of (cs @ [c]) \<noteq> root_path" using path_of_root [OF assms] by simp
  ultimately show ?thesis
    by (auto simp: parent_path_def Let_def rfind_snoc [OF c(2)] path_of_def split: nat.splits)
qed

lemma immediate_child_path:
  assumes "good_path as" "good_path bs"
  shows "immediate_child_name (path_of as) (path_of bs) = Some n \<longleftrightarrow> bs = as @ [n]"
proof
  assume child: "immediate_child_name (path_of as) (path_of bs) = Some n"
  then have ne: "path_of bs \<noteq> path_of as" by (auto simp: immediate_child_name_def)
  have n: "path_of bs = join as @ SLASH # n \<and> SLASH \<notin> set n"
  proof (cases "as = []")
    case True
    then have "starts_with [SLASH] (path_of bs)" "n = drop 1 (path_of bs)" "SLASH \<notin> set n"
      using child ne by (auto simp: immediate_child_name_def path_of_def Let_def split: if_splits)
    with True show ?thesis by (auto simp: starts_with_iff)
  next
    case False
    then show ?thesis using child ne path_of_root [OF assms(1)]
      by (auto simp: immediate_child_name_def starts_with_iff Let_def path_of_def [of as] split: if_splits)
  qed
  have bs: "bs \<noteq> []"
  proof
    assume "bs = []"
    with n have "join as = []" by (cases "join as") (auto simp: path_of_def root_path_def)
    with \<open>bs = []\<close> ne show False by simp
  qed
  then have "join (as @ [n]) = join bs" using n by (simp add: path_of_def)
  from join_inj [OF this] n good_names [OF assms(1)] good_names [OF assms(2)] show "bs = as @ [n]" by auto
next
  assume bs: "bs = as @ [n]"
  have n: "n \<noteq> []" "SLASH \<notin> set n" using good_names [OF assms(2), of n] bs by auto
  have "path_of bs \<noteq> path_of as" using path_of_inj [OF assms] bs by auto
  moreover have "path_of bs = join as @ SLASH # n" using bs by (simp add: path_of_def)
  ultimately show "immediate_child_name (path_of as) (path_of bs) = Some n"
    using n path_of_root [OF assms(1)] by (cases n) (auto simp: immediate_child_name_def starts_with_iff Let_def path_of_def root_path_def)
qed

lemma unnamed_path:
  "descendant_suffix d [] = None" "immediate_child_name (path_of cs) [] = None"
  by (auto simp: descendant_suffix_def strip_prefix_def starts_with_def immediate_child_name_def Let_def path_of_def split: option.splits)

section \<open>Resolution gives canonical paths\<close>

text \<open>What a resolved component is; its length is checked by the file system only.\<close>

definition plain_name :: "bytes \<Rightarrow> bool" where
  "plain_name c \<longleftrightarrow> c \<noteq> [] \<and> c \<noteq> ascii ''.'' \<and> c \<noteq> ascii ''..'' \<and> SLASH \<notin> set c \<and> 0 \<notin> set c"

lemma good_plain: "good_name c \<longleftrightarrow> plain_name c \<and> length c \<le> MAX_DIR_NAME"
  by (auto simp: good_name_def plain_name_def)

lemma join_parts_eq: "cs \<noteq> [] \<Longrightarrow> SLASH # join_parts cs = join cs"
  by (induction cs rule: join_parts.induct) auto

lemma normalize_loop_append:
  "normalize_loop (xs @ ys) st = bindE (normalize_loop xs st) (normalize_loop ys)"
  by (induction xs st rule: normalize_loop.induct) auto

lemma normalize_loop_plain: "\<forall>c\<in>set cs. plain_name c \<Longrightarrow> normalize_loop cs st = Inr (st @ cs)"
  by (induction cs arbitrary: st) (auto simp: plain_name_def)

lemma normalize_loop_result:
  "normalize_loop ps st = Inr cs \<Longrightarrow> \<forall>p\<in>set ps. SLASH \<notin> set p \<Longrightarrow> \<forall>c\<in>set st. plain_name c \<Longrightarrow> \<forall>c\<in>set cs. plain_name c"
proof (induction ps arbitrary: st)
  case (Cons p ps)
  consider (skip) "p = [] \<or> p = ascii ''.''" | (up) "p \<noteq> [] \<and> p \<noteq> ascii ''.''" "p = ascii ''..''"
    | (bad) "p \<noteq> [] \<and> p \<noteq> ascii ''.''" "p \<noteq> ascii ''..''" "0 \<in> set p" | (push) "p \<noteq> [] \<and> p \<noteq> ascii ''.''" "p \<noteq> ascii ''..''" "0 \<notin> set p"
    by blast
  then show ?case
  proof cases
    case skip
    then have "normalize_loop ps st = Inr cs" using Cons.prems(1) by simp
    from Cons.IH [OF this] Cons.prems show ?thesis by simp
  next
    case up
    then have "normalize_loop ps (butlast st) = Inr cs" using Cons.prems(1) by simp
    from Cons.IH [OF this] Cons.prems show ?thesis by (simp add: in_set_butlastD)
  next
    case bad
    then show ?thesis using Cons.prems(1) by simp
  next
    case push
    then have r: "normalize_loop ps (st @ [p]) = Inr cs" using Cons.prems(1) by simp
    have "plain_name p" using push Cons.prems(2) by (simp add: plain_name_def)
    with Cons.IH [OF r] Cons.prems show ?thesis by simp
  qed
qed simp

lemma split_append: "SLASH \<notin> set c \<Longrightarrow> split_slash (c @ SLASH # s) = c # split_slash s"
  by (induction c) auto

lemma split_of_join:
  assumes "\<forall>c\<in>set cs. SLASH \<notin> set c"
  shows "split_slash (join cs @ SLASH # s) = [] # cs @ split_slash s"
proof -
  have "join (split_slash (join cs @ SLASH # s)) = join ([] # cs @ split_slash s)" by (simp add: join_split)
  then show ?thesis by (rule join_inj) (use assms in \<open>auto dest: split_no_slash\<close>)
qed

lemma split_path_of:
  assumes "\<forall>c\<in>set cs. SLASH \<notin> set c"
  shows "split_slash (path_of cs) = [] # (if cs = [] then [[]] else cs)"
proof (cases "cs = []")
  case False
  have "join (split_slash (join cs)) = join ([] # cs)" by (simp add: join_split)
  then have "split_slash (join cs) = [] # cs" by (rule join_inj) (use assms in \<open>auto dest: split_no_slash\<close>)
  with False show ?thesis by (simp add: path_of_def)
qed (simp add: path_of_def root_path_def)

lemma starts_with_path_of [simp]: "starts_with [SLASH] (path_of cs)"
  by (cases cs) (simp_all add: path_of_def starts_with_def root_path_def)

lemma normalize_absolute_Inr:
  "normalize_absolute p = Inr q \<longleftrightarrow> starts_with [SLASH] p \<and>
     (\<exists>cs. normalize_loop (split_slash p) [] = Inr cs \<and> q = path_of cs \<and> length (path_of cs) \<le> MAX_PATH_SIZE)"
proof -
  have out: "(if cs = [] then Inr root_path
      else let out = SLASH # join_parts cs in if length out > MAX_PATH_SIZE then Inl FileNotFound else Inr out) =
      (if length (path_of cs) \<le> MAX_PATH_SIZE then Inr (path_of cs) else Inl FileNotFound)" for cs
    by (cases "cs = []") (simp_all add: join_parts_eq Let_def path_of_def root_path_def MAX_PATH_SIZE_def)
  show ?thesis unfolding normalize_absolute_def bindE_def out by (auto split: sum.splits)
qed

lemma normalize_path_of:
  assumes "\<forall>c\<in>set cs. plain_name c" "length (path_of cs) \<le> MAX_PATH_SIZE"
  shows "normalize_absolute (path_of cs) = Inr (path_of cs)"
proof -
  have "split_slash (path_of cs) = [] # (if cs = [] then [[]] else cs)"
    using split_path_of assms(1) by (auto simp: plain_name_def)
  then have "normalize_loop (split_slash (path_of cs)) [] = Inr cs"
    using normalize_loop_plain [OF assms(1), of "[]"] by simp
  with assms(2) show ?thesis by (simp add: normalize_absolute_Inr)
qed

text \<open>Resolution walks the components of the path from the root or the working directory.\<close>

lemma resolve_walk:
  assumes cwd: "good_path ws" "is_utf8 (path_of ws)" "take (snd cwd) (fst cwd) = path_of ws"
    and res: "resolve_path_with_cwd path cwd = Inr q"
  shows "\<exists>cs. normalize_loop (split_slash path) (if starts_with [SLASH] path then [] else ws) = Inr cs \<and> q = path_of cs \<and>
    length q \<le> MAX_PATH_SIZE"
proof (cases "starts_with [SLASH] path")
  case True
  with res show ?thesis by (auto simp: resolve_path_with_cwd_def normalize_absolute_Inr split: if_splits)
next
  case False
  have plain: "\<forall>c\<in>set ws. plain_name c" using cwd(1) by (simp add: good_path_def good_plain)
  then have noslash: "\<forall>c\<in>set ws. SLASH \<notin> set c" by (simp add: plain_name_def)
  have "normalize_absolute (join ws @ SLASH # path) = Inr q"
    using False res cwd path_of_root [OF cwd(1)]
    by (auto simp: resolve_path_with_cwd_def Let_def path_of_def split: if_splits)
  then obtain cs where cs: "normalize_loop (split_slash (join ws @ SLASH # path)) [] = Inr cs" "q = path_of cs" "length q \<le> MAX_PATH_SIZE"
    unfolding normalize_absolute_Inr by blast
  have "normalize_loop (split_slash (join ws @ SLASH # path)) [] = normalize_loop (split_slash path) ws"
    unfolding split_of_join [OF noslash] using normalize_loop_plain [OF plain, of "[]"] by (simp add: normalize_loop_append)
  with cs False show ?thesis by simp
qed



end
