(* ===== verification/Block.thy ===== *)
theory Block
  imports WH_Prelude
begin

text \<open>
  Block devices (\<open>kernel/src/block.rs\<close>): the trait \<open>BlockDevice\<close> as a record of its methods,
  its contract as the locale \<open>block_device\<close>, and the RAM disk, which interprets it.

  A method that takes \<open>&mut self\<close> returns its result together with the new device, also when
  it fails: what a device may change on an error is part of the contract. A read fills the
  caller's buffer, so it returns the buffer as well.
\<close>

section \<open>The trait\<close>

definition SECTOR_SIZE :: nat where
  "SECTOR_SIZE = 512"

datatype block_error = OutOfBounds | InvalidBuffer | ReadOnly | DeviceFault

record 'd BlockDevice =
  dev_sector_count :: "'d \<Rightarrow> u64"
  dev_is_read_only :: "'d \<Rightarrow> bool"
  dev_flush :: "'d \<Rightarrow> (block_error + unit) \<times> 'd"
  dev_read :: "'d \<Rightarrow> u64 \<Rightarrow> bytes \<Rightarrow> (block_error + unit) \<times> bytes \<times> 'd"
  dev_write :: "'d \<Rightarrow> u64 \<Rightarrow> bytes \<Rightarrow> (block_error + unit) \<times> 'd"

text \<open>The provided methods \<open>is_read_only\<close> and \<open>flush\<close> of the trait.\<close>

definition default_is_read_only :: "'d \<Rightarrow> bool" where
  "default_is_read_only d = False"

definition default_flush :: "'d \<Rightarrow> (block_error + unit) \<times> 'd" where
  "default_flush d = (Inr (), d)"

section \<open>The RAM disk\<close>

record RamDisk =
  sectors :: "bytes list"
  rd_read_only :: bool

definition ramdisk_new :: "nat \<Rightarrow> RamDisk" where
  "ramdisk_new n = \<lparr>sectors = replicate n (replicate SECTOR_SIZE 0), rd_read_only = False\<rparr>"

definition set_read_only :: "RamDisk \<Rightarrow> bool \<Rightarrow> RamDisk" where
  "set_read_only d ro = d\<lparr>rd_read_only := ro\<rparr>"

definition ramdisk_is_read_only :: "RamDisk \<Rightarrow> bool" where
  "ramdisk_is_read_only d = rd_read_only d"

definition ramdisk_sector_count :: "RamDisk \<Rightarrow> u64" where
  "ramdisk_sector_count d = word_of_nat (length (sectors d))"

definition ramdisk_read_sector ::
  "RamDisk \<Rightarrow> u64 \<Rightarrow> bytes \<Rightarrow> (block_error + unit) \<times> bytes \<times> RamDisk" where
  "ramdisk_read_sector d lba sector =
     (if length sector \<noteq> SECTOR_SIZE then (Inl InvalidBuffer, sector, d)
      else let index = unat lba in
        if index < length (sectors d) then (Inr (), sectors d ! index, d)
        else (Inl OutOfBounds, sector, d))"

definition ramdisk_write_sector ::
  "RamDisk \<Rightarrow> u64 \<Rightarrow> bytes \<Rightarrow> (block_error + unit) \<times> RamDisk" where
  "ramdisk_write_sector d lba sector =
     (if length sector \<noteq> SECTOR_SIZE then (Inl InvalidBuffer, d)
      else if rd_read_only d then (Inl ReadOnly, d)
      else let index = unat lba in
        if index < length (sectors d) then (Inr (), d\<lparr>sectors := (sectors d)[index := sector]\<rparr>)
        else (Inl OutOfBounds, d))"

definition ramdisk_ops :: "RamDisk BlockDevice" where
  "ramdisk_ops =
     \<lparr>dev_sector_count = ramdisk_sector_count, dev_is_read_only = ramdisk_is_read_only,
      dev_flush = default_flush, dev_read = ramdisk_read_sector, dev_write = ramdisk_write_sector\<rparr>"

definition block_self_test :: bool where
  "block_self_test \<longleftrightarrow>
     (let disk = ramdisk_new 2;
          written = copy_at (replicate SECTOR_SIZE 0) 0 (ascii ''wovenhat-block'')
      in case ramdisk_write_sector disk 1 written of
           (Inl _, _) \<Rightarrow> False
         | (Inr _, disk) \<Rightarrow>
             (let (r1, read, disk) = ramdisk_read_sector disk 1 (replicate SECTOR_SIZE 0);
                  round_trip = (r1 = Inr () \<and> read = written);
                  (r2, read, disk) = ramdisk_read_sector disk 2 read;
                  bounds = (r2 = Inl OutOfBounds);
                  (r3, part, disk) = ramdisk_read_sector disk 0 (take (SECTOR_SIZE - 1) read);
                  size = (r3 = Inl InvalidBuffer);
                  disk = set_read_only disk True;
                  (r4, disk) = ramdisk_write_sector disk 0 written;
                  protection = (r4 = Inl ReadOnly)
              in round_trip \<and> bounds \<and> size \<and> protection))"

lemma block_self_test_passes: block_self_test
  by code_simp

section \<open>The contract\<close>

text \<open>
  \<open>sector\<close> is what a client of the device sees at an address. A successful read delivers it
  and changes nothing a client can see; a successful write replaces the one sector; a failed
  write may leave that sector in any state of the right size, and touches no other. The
  device never changes its size or its write protection by itself.
\<close>

definition same_shape :: "'d BlockDevice \<Rightarrow> 'd \<Rightarrow> 'd \<Rightarrow> bool" where
  "same_shape ops d d' \<longleftrightarrow>
     dev_sector_count ops d' = dev_sector_count ops d \<and> dev_is_read_only ops d' = dev_is_read_only ops d"

lemma same_shape_refl [simp]: "same_shape ops d d"
  by (simp add: same_shape_def)

lemma same_shape_trans: "same_shape ops a b \<Longrightarrow> same_shape ops b c \<Longrightarrow> same_shape ops a c"
  by (simp add: same_shape_def)

locale block_device =
  fixes ops :: "'d BlockDevice"
    and inv :: "'d \<Rightarrow> bool"
    and sector :: "'d \<Rightarrow> u64 \<Rightarrow> bytes"
  assumes sector_size: "inv d \<Longrightarrow> lba < dev_sector_count ops d \<Longrightarrow> length (sector d lba) = SECTOR_SIZE"
    and read_keeps: "inv d \<Longrightarrow> dev_read ops d lba buf = (r, buf', d') \<Longrightarrow>
      inv d' \<and> same_shape ops d d' \<and> sector d' = sector d"
    and read_ok: "inv d \<Longrightarrow> dev_read ops d lba buf = (Inr u, buf', d') \<Longrightarrow>
      length buf = SECTOR_SIZE \<and> lba < dev_sector_count ops d \<and> buf' = sector d lba"
    and read_err: "inv d \<Longrightarrow> dev_read ops d lba buf = (Inl e, buf', d') \<Longrightarrow> buf' = buf"
    and write_keeps: "inv d \<Longrightarrow> dev_write ops d lba buf = (r, d') \<Longrightarrow>
      inv d' \<and> same_shape ops d d' \<and> (\<forall>l. l \<noteq> lba \<longrightarrow> sector d' l = sector d l)"
    and write_ok: "inv d \<Longrightarrow> dev_write ops d lba buf = (Inr u, d') \<Longrightarrow>
      length buf = SECTOR_SIZE \<and> lba < dev_sector_count ops d \<and> sector d' lba = buf"
    and flush_keeps: "inv d \<Longrightarrow> dev_flush ops d = (r, d') \<Longrightarrow>
      inv d' \<and> same_shape ops d d' \<and> sector d' = sector d"
begin

text \<open>What is written is read back, at any address and whatever the rest of the disk holds.\<close>

lemma write_then_read:
  assumes "inv d" "dev_write ops d lba buf = (Inr u, d1)" "dev_read ops d1 l out = (Inr v, out', d2)"
  shows "out' = (if l = lba then buf else sector d l)"
proof -
  from write_keeps [OF assms(1,2)] have d1: "inv d1" "\<forall>k. k \<noteq> lba \<longrightarrow> sector d1 k = sector d k"
    by auto
  from read_ok [OF d1(1) assms(3)] have "out' = sector d1 l" by simp
  with d1(2) write_ok [OF assms(1,2)] show ?thesis by auto
qed

end

definition ramdisk_inv :: "RamDisk \<Rightarrow> bool" where
  [wf_simps]: "ramdisk_inv d \<longleftrightarrow>
     length (sectors d) < usize_limit \<and> (\<forall>s\<in>set (sectors d). length s = SECTOR_SIZE)"

definition ramdisk_sector :: "RamDisk \<Rightarrow> u64 \<Rightarrow> bytes" where
  "ramdisk_sector d lba = sectors d ! unat lba"

lemma less_of_nat_length:
  "n < usize_limit \<Longrightarrow> (lba :: u64) < word_of_nat n \<longleftrightarrow> unat lba < n"
  by (simp add: word_less_nat_alt unat_of_nat usize_limit_def)

lemma nth_update_word:
  fixes l lba :: "'w::len word"
  shows "l \<noteq> lba \<Longrightarrow> xs[unat lba := v] ! unat l = xs ! unat l"
  using word_unat_eq_iff [of l lba] by simp

lemma ramdisk_ops_simps [simp]:
  "dev_sector_count ramdisk_ops = ramdisk_sector_count"
  "dev_is_read_only ramdisk_ops = ramdisk_is_read_only"
  "dev_flush ramdisk_ops = default_flush"
  "dev_read ramdisk_ops = ramdisk_read_sector"
  "dev_write ramdisk_ops = ramdisk_write_sector"
  by (simp_all add: ramdisk_ops_def)

lemma ramdisk_in_range:
  "ramdisk_inv d \<Longrightarrow> lba < ramdisk_sector_count d \<longleftrightarrow> unat lba < length (sectors d)"
  by (simp add: ramdisk_sector_count_def less_of_nat_length wf_simps)

lemma ramdisk_inv_update:
  "ramdisk_inv d \<Longrightarrow> length s = SECTOR_SIZE \<Longrightarrow> ramdisk_inv (d\<lparr>sectors := (sectors d)[i := s]\<rparr>)"
  by (auto simp: wf_simps dest: set_update_subset_insert [THEN subsetD])

interpretation ram: block_device ramdisk_ops ramdisk_inv ramdisk_sector
proof unfold_locales
  fix d :: RamDisk assume inv: "ramdisk_inv d"
  show "length (ramdisk_sector d lba) = SECTOR_SIZE" if "lba < dev_sector_count ramdisk_ops d" for lba
    using inv that ramdisk_in_range [OF inv, of lba] by (simp add: ramdisk_sector_def wf_simps)
  fix lba buf
  show "ramdisk_inv d' \<and> same_shape ramdisk_ops d d' \<and> ramdisk_sector d' = ramdisk_sector d"
    if "dev_read ramdisk_ops d lba buf = (r, buf', d')" for r buf' d'
    using inv that by (auto simp: ramdisk_read_sector_def Let_def split: if_splits)
  show "length buf = SECTOR_SIZE \<and> lba < dev_sector_count ramdisk_ops d \<and> buf' = ramdisk_sector d lba"
    if "dev_read ramdisk_ops d lba buf = (Inr u, buf', d')" for u buf' d'
    using that ramdisk_in_range [OF inv, of lba]
    by (auto simp: ramdisk_read_sector_def ramdisk_sector_def Let_def split: if_splits)
  show "buf' = buf" if "dev_read ramdisk_ops d lba buf = (Inl e, buf', d')" for e buf' d'
    using that by (auto simp: ramdisk_read_sector_def Let_def split: if_splits)
  show "ramdisk_inv d' \<and> same_shape ramdisk_ops d d' \<and>
      (\<forall>l. l \<noteq> lba \<longrightarrow> ramdisk_sector d' l = ramdisk_sector d l)"
    if "dev_write ramdisk_ops d lba buf = (r, d')" for r d'
    using that inv ramdisk_inv_update [OF inv, of buf "unat lba"]
    by (auto simp: ramdisk_write_sector_def ramdisk_sector_def Let_def same_shape_def
        ramdisk_sector_count_def ramdisk_is_read_only_def nth_update_word split: if_splits)
  show "length buf = SECTOR_SIZE \<and> lba < dev_sector_count ramdisk_ops d \<and> ramdisk_sector d' lba = buf"
    if "dev_write ramdisk_ops d lba buf = (Inr u, d')" for u d'
    using that ramdisk_in_range [OF inv, of lba]
    by (auto simp: ramdisk_write_sector_def ramdisk_sector_def Let_def split: if_splits)
  show "ramdisk_inv d' \<and> same_shape ramdisk_ops d d' \<and> ramdisk_sector d' = ramdisk_sector d"
    if "dev_flush ramdisk_ops d = (r, d')" for r d'
    using inv that by (simp add: default_flush_def)
qed

lemma ramdisk_inv_new: "n < usize_limit \<Longrightarrow> ramdisk_inv (ramdisk_new n)"
  by (simp add: ramdisk_new_def wf_simps)

end
