(* ===== verification/Vfs.thy ===== *)
theory Vfs
  imports File_Frames Paths Block
begin

text \<open>
  The virtual file system (\<open>kernel/src/vfs.rs\<close>): the registry of nodes, the table of open-file
  descriptions and the operations on both. Every path argument is a \<open>&str\<close>, its UTF-8 bytes.
  The shared file pages are those of \<open>kernel/src/file_frames.rs\<close>; \<open>rdf\<close> stands for
  \<open>storage::read_disk_file\<close>, which reads a file of the mounted disk into a buffer and may change
  the state of the disk and its caches.
\<close>

section \<open>Nodes\<close>

definition MAX_VFS_NODES :: nat where
  "MAX_VFS_NODES = 64"

definition NODE_CAPACITY :: nat where
  "NODE_CAPACITY = 64 * 1024"

definition MAX_OPEN_FILES :: nat where
  "MAX_OPEN_FILES = 64"

datatype NodeKind = File | Directory

record DiskPath =
  dp_bytes :: bytes
  dp_length :: nat

definition disk_path_str :: "DiskPath \<Rightarrow> bytes" where
  "disk_path_str b = str_of (take (dp_length b) (dp_bytes b))"

record Node =
  nd_path :: bytes
  nd_path_length :: nat
  nd_data :: bytes
  nd_backing :: "DiskPath option"
  nd_length :: nat
  nd_writable :: bool
  nd_kind :: NodeKind
  nd_occupied :: bool

definition node_empty :: Node where
  "node_empty = \<lparr>nd_path = replicate MAX_PATH_SIZE 0, nd_path_length = 0, nd_data = replicate NODE_CAPACITY 0,
     nd_backing = None, nd_length = 0, nd_writable = False, nd_kind = File, nd_occupied = False\<rparr>"

definition node_with_data :: "bytes \<Rightarrow> bytes \<Rightarrow> bool \<Rightarrow> Node" where
  "node_with_data path data writable =
     node_empty\<lparr>nd_path := copy_at (nd_path node_empty) 0 path, nd_data := copy_at (nd_data node_empty) 0 data,
       nd_path_length := length path, nd_length := length data, nd_writable := writable, nd_kind := File, nd_occupied := True\<rparr>"

definition node_directory :: "bytes \<Rightarrow> Node" where
  "node_directory path =
     node_empty\<lparr>nd_path := copy_at (nd_path node_empty) 0 path, nd_path_length := length path,
       nd_kind := Directory, nd_writable := True, nd_occupied := True\<rparr>"

definition node_bytes :: "Node \<Rightarrow> bytes" where
  "node_bytes n = take (nd_path_length n) (nd_path n)"

definition node_matches :: "bytes \<Rightarrow> Node \<Rightarrow> bool" where
  "node_matches path n \<longleftrightarrow> nd_occupied n \<and> node_bytes n = path"

definition path_str :: "Node \<Rightarrow> bytes" where
  "path_str n = str_of (node_bytes n)"

record Stat =
  st_kind :: NodeKind
  st_size :: nat
  st_writable :: bool

record DirEntry =
  de_name :: bytes
  de_name_length :: nat
  de_kind :: NodeKind

section \<open>The registry\<close>

record Registry =
  versions :: "u64 list"
  generations :: "u64 list"
  nodes :: "Node list"

definition registry_boot :: Registry where
  "registry_boot =
     \<lparr>versions = replicate MAX_VFS_NODES 0, generations = replicate MAX_VFS_NODES 0,
      nodes = copy_at (replicate MAX_VFS_NODES node_empty) 0
        [node_directory (ascii ''/''), node_directory (ascii ''/etc''), node_directory (ascii ''/tmp''),
         node_directory (ascii ''/mnt''), node_directory (ascii ''/bin''),
         node_with_data (ascii ''/etc/motd'') (ascii ''Welcome to WovenHat OS.\<newline>'') False,
         node_with_data (ascii ''/etc/version'') (ascii ''WovenHat kernel 0.8.0 Multicore Foundation\<newline>'') False,
         node_with_data (ascii ''/tmp/vfs-self-test'') [] True]\<rparr>"

definition registry_empty :: Registry where
  "registry_empty =
     \<lparr>versions = replicate MAX_VFS_NODES 0, generations = replicate MAX_VFS_NODES 0,
      nodes = replicate MAX_VFS_NODES node_empty\<rparr>"

definition is_directory :: "bytes \<Rightarrow> Node list \<Rightarrow> bool" where
  "is_directory path ns \<longleftrightarrow> list_ex (\<lambda>n. node_matches path n \<and> nd_kind n = Directory) ns"

definition registry_insert :: "bytes \<Rightarrow> bytes \<Rightarrow> bool \<Rightarrow> (Registry, vfs_error, nat) io" where
  "registry_insert path data writable =
     thenS (liftS (validate_absolute_path path))
     (thenS (guardS (length data \<le> NODE_CAPACITY) Full)
     (bindS (getS nodes) (\<lambda>ns.
      thenS (guardS (\<not> list_ex (node_matches path) ns) AlreadyExists)
     (thenS (if path \<noteq> root_path
             then bindS (liftS (ok_or (parent_path path) InvalidPath)) (\<lambda>parent. guardS (is_directory parent ns) NotFound)
             else retS ())
     (bindS (liftS (ok_or (position (\<lambda>n. \<not> nd_occupied n) ns) Full)) (\<lambda>index.
      thenS (modS (nodes_update (\<lambda>ns. ns[index := (ns ! index)\<lparr>
               nd_path := copy_at (nd_path (ns ! index)) 0 path, nd_path_length := length path,
               nd_data := copy_at (nd_data (ns ! index)) 0 data, nd_length := length data,
               nd_writable := writable, nd_kind := File, nd_occupied := True\<rparr>])))
      (retS index)))))))"

definition registry_mkdir :: "bytes \<Rightarrow> (Registry, vfs_error, nat) io" where
  "registry_mkdir path =
     thenS (liftS (validate_absolute_path path))
     (thenS (guardS (path \<noteq> root_path) AlreadyExists)
     (bindS (getS nodes) (\<lambda>ns.
      thenS (guardS (\<not> list_ex (node_matches path) ns) AlreadyExists)
     (bindS (liftS (ok_or (parent_path path) InvalidPath)) (\<lambda>parent.
      thenS (guardS (is_directory parent ns) NotFound)
     (bindS (liftS (ok_or (position (\<lambda>n. \<not> nd_occupied n) ns) Full)) (\<lambda>index.
      thenS (modS (nodes_update (\<lambda>ns. ns[index := (node_directory path)\<lparr>
               nd_path := copy_at (nd_path (node_directory path)) 0 path, nd_path_length := length path\<rparr>])))
      (retS index))))))))"

definition registry_count :: "Registry \<Rightarrow> nat" where
  "registry_count r = length (filter (\<lambda>n. nd_occupied n \<and> nd_path_length n \<noteq> 0) (nodes r))"

definition removable_index :: "bytes \<Rightarrow> Registry \<Rightarrow> vfs_error + nat" where
  "removable_index path r =
     bindE (validate_absolute_path path) (\<lambda>_.
      if path = root_path then Inl vfs_error.ReadOnly
      else bindE (ok_or (position (node_matches path) (nodes r)) NotFound) (\<lambda>index.
        if nd_kind (nodes r ! index) = Directory \<and>
           list_ex (\<lambda>other. nd_occupied other \<and> immediate_child_name (path_str (nodes r ! index)) (path_str other) \<noteq> None) (nodes r)
        then Inl NotEmpty else Inr index))"

definition can_remove :: "bytes \<Rightarrow> Registry \<Rightarrow> vfs_error + unit" where
  "can_remove path r = bindE (removable_index path r) (\<lambda>_. Inr ())"

definition bump_generation :: "nat \<Rightarrow> (Registry, vfs_error, unit) io" where
  "bump_generation index =
     bindS (getS generations) (\<lambda>gs.
     bindS (liftS (ok_or (checked_add (gs ! index) 1) Full)) (\<lambda>g.
      modS (generations_update (\<lambda>gs. gs[index := g]))))"

definition registry_remove :: "bytes \<Rightarrow> (Registry, vfs_error, unit) io" where
  "registry_remove path =
     bindS (getS (removable_index path)) (\<lambda>found.
     bindS (liftS found) (\<lambda>index.
      thenS (bump_generation index)
      (modS (nodes_update (\<lambda>ns. ns[index := (ns ! index)\<lparr>nd_occupied := False, nd_path_length := 0, nd_length := 0,
         nd_backing := None, nd_writable := False, nd_data := replicate NODE_CAPACITY 0,
         nd_path := replicate MAX_PATH_SIZE 0\<rparr>])))))"

text \<open>A path that the rename of a directory would make too long.\<close>

definition too_long :: "bytes \<Rightarrow> bytes \<Rightarrow> bytes \<Rightarrow> bool" where
  "too_long old new path =
     (case descendant_suffix old path of None \<Rightarrow> False | Some suffix \<Rightarrow> length new + length suffix > MAX_PATH_SIZE)"

definition validate_rename :: "bytes \<Rightarrow> bytes \<Rightarrow> Registry \<Rightarrow> vfs_error + unit" where
  "validate_rename old new r =
     bindE (validate_absolute_path old) (\<lambda>_.
     bindE (validate_absolute_path new) (\<lambda>_.
      if old = root_path \<or> new = root_path then Inl vfs_error.ReadOnly
      else bindE (ok_or (position (node_matches old) (nodes r)) NotFound) (\<lambda>index.
        if old = new then Inr ()
        else if list_ex (node_matches new) (nodes r) then Inl AlreadyExists
        else if descendant_suffix old new \<noteq> None then Inl InvalidPath
        else bindE (ok_or (parent_path new) InvalidPath) (\<lambda>parent.
          if \<not> is_directory parent (nodes r) then Inl NotFound
          else let directory = (nd_kind (nodes r ! index) = Directory) in
            if list_ex (\<lambda>n. nd_occupied n \<and>
                 (directory \<and> too_long old new (path_str n) \<or>
                  (case nd_backing n of None \<Rightarrow> False
                   | Some b \<Rightarrow> if directory then too_long old new (disk_path_str b)
                               else disk_path_str b = old \<and> length new > MAX_PATH_SIZE))) (nodes r)
            then Inl InvalidPath else Inr ()))))"

text \<open>\<open>copy_within\<close>, the new prefix, the new length, and zeros behind it.\<close>

definition move_path :: "nat \<Rightarrow> bytes \<Rightarrow> bytes \<times> nat \<Rightarrow> bytes \<times> nat" where
  "move_path start new p =
     (let (path, len) = p;
          suffix_len = len - start;
          path = copy_at path (length new) (slice path start suffix_len);
          path = copy_at path 0 new;
          len = length new + suffix_len
      in (take len path @ replicate (length path - len) 0, len))"

definition rename_node :: "bytes \<Rightarrow> bytes \<Rightarrow> bool \<Rightarrow> Node \<Rightarrow> Node" where
  "rename_node old new directory n =
     (let n = (if node_matches old n \<or> directory \<and> descendant_suffix old (path_str n) \<noteq> None
               then let (path, len) = move_path (length old) new (nd_path n, nd_path_length n)
                    in n\<lparr>nd_path := path, nd_path_length := len\<rparr>
               else n)
      in case nd_backing n of
           None \<Rightarrow> n
         | Some b \<Rightarrow>
             if disk_path_str b = old \<or> directory \<and> descendant_suffix old (disk_path_str b) \<noteq> None
             then let (path, len) = move_path (length old) new (dp_bytes b, dp_length b)
                  in n\<lparr>nd_backing := Some \<lparr>dp_bytes = path, dp_length = len\<rparr>\<rparr>
             else n)"

definition registry_rename :: "bytes \<Rightarrow> bytes \<Rightarrow> (Registry, vfs_error, unit) io" where
  "registry_rename old new =
     bindS (getS (validate_rename old new)) (\<lambda>ok.
     thenS (liftS ok)
     (if old = new then retS ()
      else bindS (getS nodes) (\<lambda>ns.
        bindS (liftS (ok_or (position (node_matches old) ns) NotFound)) (\<lambda>index.
          modS (nodes_update (map (\<lambda>n. if nd_occupied n then rename_node old new (nd_kind (ns ! index) = Directory) n else n)))))))"

definition registry_stat :: "bytes \<Rightarrow> Registry \<Rightarrow> vfs_error + Stat" where
  "registry_stat path r =
     bindE (validate_absolute_path path) (\<lambda>_.
     bindE (ok_or (position (node_matches path) (nodes r)) NotFound) (\<lambda>i.
      let n = nodes r ! i in Inr \<lparr>st_kind = nd_kind n, st_size = nd_length n, st_writable = nd_writable n\<rparr>))"

fun readdir_loop :: "bytes \<Rightarrow> nat \<Rightarrow> nat \<Rightarrow> Node list \<Rightarrow> vfs_error + DirEntry" where
  "readdir_loop dir index seen [] = Inl NotFound"
| "readdir_loop dir index seen (n # ns) =
     (if \<not> nd_occupied n then readdir_loop dir index seen ns
      else case immediate_child_name dir (path_str n) of
             None \<Rightarrow> readdir_loop dir index seen ns
           | Some name \<Rightarrow>
               if seen = index
               then let len = min (length name) MAX_DIR_NAME
                    in Inr \<lparr>de_name = copy_at (replicate MAX_DIR_NAME 0) 0 name, de_name_length = len, de_kind = nd_kind n\<rparr>
               else readdir_loop dir index (seen + 1) ns)"

definition registry_readdir :: "bytes \<Rightarrow> nat \<Rightarrow> Registry \<Rightarrow> vfs_error + DirEntry" where
  "registry_readdir dir_path index r =
     bindE (validate_absolute_path dir_path) (\<lambda>_.
     bindE (ok_or (position (\<lambda>n. node_matches dir_path n \<and> nd_kind n = Directory) (nodes r)) NotFound) (\<lambda>i.
      readdir_loop (path_str (nodes r ! i)) index 0 (nodes r)))"

section \<open>Open files\<close>

record OpenFileDescription =
  of_node :: nat
  of_generation :: u64
  of_offset :: nat
  of_refcount :: u32
  of_occupied :: bool

definition open_file_empty :: OpenFileDescription where
  "open_file_empty = \<lparr>of_node = 0, of_generation = 0, of_offset = 0, of_refcount = 0, of_occupied = False\<rparr>"

type_synonym OpenFileTable = "OpenFileDescription list"
type_synonym OpenFileId = nat

definition open_table_empty :: OpenFileTable where
  "open_table_empty = replicate MAX_OPEN_FILES open_file_empty"

definition open_alloc :: "nat \<Rightarrow> u64 \<Rightarrow> (OpenFileTable, vfs_error, OpenFileId) io" where
  "open_alloc node generation =
     bindS (getS (position (\<lambda>e. \<not> of_occupied e))) (\<lambda>free.
     bindS (liftS (ok_or free Full)) (\<lambda>slot.
      thenS (modS (\<lambda>t. t[slot := \<lparr>of_node = node, of_generation = generation, of_offset = 0, of_refcount = 1, of_occupied = True\<rparr>]))
      (retS slot)))"

definition open_get :: "OpenFileId \<Rightarrow> OpenFileTable \<Rightarrow> vfs_error + OpenFileDescription" where
  "open_get i t =
     (if i < length t \<and> of_occupied (t ! i) \<and> of_refcount (t ! i) > 0 then Inr (t ! i) else Inl InvalidDescriptor)"

definition open_clone :: "OpenFileId \<Rightarrow> (OpenFileTable, vfs_error, OpenFileId) io" where
  "open_clone i =
     bindS (getS (open_get i)) (\<lambda>e.
     bindS (liftS e) (\<lambda>e.
     bindS (liftS (ok_or (checked_add (of_refcount e) 1) Full)) (\<lambda>n.
      thenS (modS (\<lambda>t. t[i := e\<lparr>of_refcount := n\<rparr>])) (retS i))))"

definition open_drop :: "OpenFileId \<Rightarrow> (OpenFileTable, vfs_error, unit) io" where
  "open_drop i =
     bindS (getS (\<lambda>t. if i < length t \<and> of_occupied (t ! i) then Inr (t ! i) else Inl InvalidDescriptor)) (\<lambda>e.
     bindS (liftS e) (\<lambda>e.
      thenS (guardS (of_refcount e \<noteq> 0) InvalidDescriptor)
      (modS (\<lambda>t. t[i := if of_refcount e - 1 = 0 then open_file_empty else e\<lparr>of_refcount := of_refcount e - 1\<rparr>]))))"

definition live_count :: "OpenFileTable \<Rightarrow> nat" where
  "live_count t = length (filter of_occupied t)"

section \<open>The file system\<close>

text \<open>\<open>REGISTRY\<close>, \<open>OPEN_FILES\<close>, the shared pages and the disk.\<close>

record 'd Vfs =
  registry :: Registry
  open_files :: OpenFileTable
  file_frames :: FrameState
  disk :: 'd

definition on_registry :: "(Registry, 'e, 'a) io \<Rightarrow> ('d Vfs, 'e, 'a) io" where
  "on_registry m s = (let (r, reg) = m (registry s) in (r, s\<lparr>registry := reg\<rparr>))"

definition on_open_files :: "(OpenFileTable, 'e, 'a) io \<Rightarrow> ('d Vfs, 'e, 'a) io" where
  "on_open_files m s = (let (r, t) = m (open_files s) in (r, s\<lparr>open_files := t\<rparr>))"

type_synonym 'd reader = "bytes \<Rightarrow> nat \<Rightarrow> bytes \<Rightarrow> 'd \<Rightarrow> (block_error + nat) \<times> bytes \<times> 'd"

definition vfs_boot :: "FrameState \<Rightarrow> 'd \<Rightarrow> 'd Vfs" where
  "vfs_boot fs d = \<lparr>registry = registry_boot, open_files = open_table_empty, file_frames = fs, disk = d\<rparr>"

definition create_read_only :: "bytes \<Rightarrow> bytes \<Rightarrow> ('d Vfs, vfs_error, unit) io" where
  "create_read_only path data = thenS (on_registry (registry_insert path data False)) (retS ())"

definition create_disk_file_with_writable :: "bytes \<Rightarrow> nat \<Rightarrow> bool \<Rightarrow> ('d Vfs, vfs_error, unit) io" where
  "create_disk_file_with_writable path len writable =
     thenS (guardS (len \<le> NODE_CAPACITY) Full)
     (on_registry
       (bindS (registry_insert path [] writable) (\<lambda>index.
         modS (nodes_update (\<lambda>ns. ns[index := (ns ! index)\<lparr>
           nd_backing := Some \<lparr>dp_bytes = copy_at (replicate MAX_PATH_SIZE 0) 0 path, dp_length = length path\<rparr>,
           nd_length := len\<rparr>])))))"

definition create_disk_file :: "bytes \<Rightarrow> nat \<Rightarrow> ('d Vfs, vfs_error, unit) io" where
  "create_disk_file path len = create_disk_file_with_writable path len False"

definition bump_version :: "nat \<Rightarrow> Registry \<Rightarrow> Registry" where
  "bump_version index r = r\<lparr>versions := (versions r)[index := versions r ! index + 1]\<rparr>"

definition vfs_write_file :: "bytes \<Rightarrow> bytes \<Rightarrow> ('d Vfs, vfs_error, unit) io" where
  "vfs_write_file path data =
     thenS (liftS (validate_absolute_path path))
     (thenS (guardS (length data \<le> NODE_CAPACITY) Full)
     (bindS (getS registry) (\<lambda>r.
      case position (node_matches path) (nodes r) of
        Some index \<Rightarrow>
          thenS (guardS (nd_kind (nodes r ! index) = File) AlreadyExists)
          (thenS (guardS (nd_writable (nodes r ! index)) vfs_error.ReadOnly)
          (modS (\<lambda>s. s\<lparr>
             registry := bump_version index (r\<lparr>nodes := (nodes r)[index := (nodes r ! index)\<lparr>nd_backing := None,
               nd_data := copy_at (replicate NODE_CAPACITY 0) 0 data, nd_length := length data\<rparr>]\<rparr>),
             file_frames := frames_replace index (generations r ! index) data (file_frames s)\<rparr>)))
      | None \<Rightarrow> thenS (on_registry (registry_insert path data True)) (retS ()))))"

definition vfs_can_remove :: "bytes \<Rightarrow> 'd Vfs \<Rightarrow> vfs_error + unit" where
  "vfs_can_remove path s = can_remove path (registry s)"

definition materialize_disk_node :: "'d reader \<Rightarrow> Node \<Rightarrow> 'd \<Rightarrow> (vfs_error + unit) \<times> Node \<times> 'd" where
  "materialize_disk_node rdf n d =
     (case nd_backing n of
        None \<Rightarrow> (Inr (), n, d)
      | Some b \<Rightarrow>
          (let (q, out, d) = rdf (disk_path_str b) 0 (take (nd_length n) (nd_data n)) d;
               n = n\<lparr>nd_data := copy_at (nd_data n) 0 out\<rparr>
           in case q of
                Inl e \<Rightarrow> (Inl Io, n, d)
              | Inr count \<Rightarrow> if count \<noteq> nd_length n then (Inl Io, n, d) else (Inr (), n\<lparr>nd_backing := None\<rparr>, d)))"

text \<open>\<open>materialize_disk_node(&mut registry.nodes[index])?\<close>.\<close>

definition materialize :: "'d reader \<Rightarrow> nat \<Rightarrow> ('d Vfs, vfs_error, unit) io" where
  "materialize rdf index s =
     (let (r, n, d) = materialize_disk_node rdf (nodes (registry s) ! index) (disk s)
      in (r, s\<lparr>registry := nodes_update (\<lambda>ns. ns[index := n]) (registry s), disk := d\<rparr>))"

definition node_open :: "nat \<Rightarrow> OpenFileTable \<Rightarrow> bool" where
  "node_open index t \<longleftrightarrow> list_ex (\<lambda>e. of_occupied e \<and> of_node e = index) t"

definition prepare_remove :: "'d reader \<Rightarrow> bytes \<Rightarrow> ('d Vfs, vfs_error, unit) io" where
  "prepare_remove rdf path =
     thenS (liftS (validate_absolute_path path))
     (bindS (getS (\<lambda>s. ok_or (position (node_matches path) (nodes (registry s))) NotFound)) (\<lambda>found.
      bindS (liftS found) (\<lambda>index.
      bindS (getS (vfs_can_remove path)) (\<lambda>ok.
      thenS (liftS ok)
      (bindS (getS (\<lambda>s. nd_kind (nodes (registry s) ! index) = File \<and> node_open index (open_files s))) (\<lambda>keep.
        if keep then materialize rdf index else retS ()))))))"

definition vfs_remove :: "'d reader \<Rightarrow> bytes \<Rightarrow> ('d Vfs, vfs_error, unit) io" where
  "vfs_remove rdf path =
     thenS (liftS (validate_absolute_path path))
     (bindS (getS (\<lambda>s. ok_or (position (node_matches path) (nodes (registry s))) NotFound)) (\<lambda>found.
      bindS (liftS found) (\<lambda>index.
      bindS (getS (\<lambda>s. nd_kind (nodes (registry s) ! index) = File \<and> node_open index (open_files s))) (\<lambda>keep.
        if keep
        then thenS (materialize rdf index)
          (on_registry (modS (nodes_update (\<lambda>ns. ns[index := (ns ! index)\<lparr>nd_path_length := 0, nd_path := replicate MAX_PATH_SIZE 0\<rparr>]))))
        else on_registry (registry_remove path)))))"

definition vfs_can_rename :: "bytes \<Rightarrow> bytes \<Rightarrow> 'd Vfs \<Rightarrow> vfs_error + unit" where
  "vfs_can_rename old new s = validate_rename old new (registry s)"

definition vfs_rename :: "bytes \<Rightarrow> bytes \<Rightarrow> ('d Vfs, vfs_error, unit) io" where
  "vfs_rename old new = on_registry (registry_rename old new)"

definition vfs_mkdir :: "bytes \<Rightarrow> ('d Vfs, vfs_error, unit) io" where
  "vfs_mkdir path = thenS (on_registry (registry_mkdir path)) (retS ())"

definition vfs_stat :: "bytes \<Rightarrow> 'd Vfs \<Rightarrow> vfs_error + Stat" where
  "vfs_stat path s = registry_stat path (registry s)"

definition vfs_readdir :: "bytes \<Rightarrow> nat \<Rightarrow> 'd Vfs \<Rightarrow> vfs_error + DirEntry" where
  "vfs_readdir path index s = registry_readdir path index (registry s)"

definition vfs_open :: "bytes \<Rightarrow> ('d Vfs, vfs_error, OpenFileId) io" where
  "vfs_open path =
     thenS (liftS (validate_absolute_path path))
     (bindS (getS registry) (\<lambda>r.
      bindS (liftS (ok_or (position (\<lambda>n. node_matches path n \<and> nd_kind n = File) (nodes r)) NotFound)) (\<lambda>node.
       on_open_files (open_alloc node (generations r ! node)))))"

definition clone_open_file :: "OpenFileId \<Rightarrow> ('d Vfs, vfs_error, OpenFileId) io" where
  "clone_open_file i = on_open_files (open_clone i)"

definition close_open_file :: "OpenFileId \<Rightarrow> ('d Vfs, vfs_error, unit) io" where
  "close_open_file i =
     bindS (getS (\<lambda>s. open_get i (open_files s))) (\<lambda>e.
     bindS (liftS e) (\<lambda>e.
     thenS (on_open_files (open_drop i))
     (bindS (getS (\<lambda>s. \<not> node_open (of_node e) (open_files s) \<and> nd_occupied (nodes (registry s) ! of_node e) \<and>
          nd_path_length (nodes (registry s) ! of_node e) = 0)) (\<lambda>last.
      if last
      then on_registry (thenS (bump_generation (of_node e))
        (modS (nodes_update (\<lambda>ns. ns[of_node e := (ns ! of_node e)\<lparr>nd_occupied := False, nd_length := 0, nd_backing := None,
           nd_data := replicate NODE_CAPACITY 0\<rparr>]))))
      else retS ()))))"

text \<open>The entry of an open file, or an error.\<close>

definition get_entry :: "OpenFileId \<Rightarrow> ('d Vfs, vfs_error, OpenFileDescription) io" where
  "get_entry i = bindS (getS (\<lambda>s. open_get i (open_files s))) liftS"

definition entry_stale :: "OpenFileDescription \<Rightarrow> Registry \<Rightarrow> bool" where
  "entry_stale e r \<longleftrightarrow> \<not> nd_occupied (nodes r ! of_node e) \<or> generations r ! of_node e \<noteq> of_generation e"

definition file_identity :: "OpenFileId \<Rightarrow> ('d Vfs, vfs_error, nat \<times> u64 \<times> u64) io" where
  "file_identity i =
     bindS (get_entry i) (\<lambda>e.
     bindS (getS registry) (\<lambda>r.
      thenS (guardS (\<not> entry_stale e r) InvalidDescriptor)
      (retS (of_node e, of_generation e, versions r ! of_node e))))"

definition prepare_shared_file :: "'d reader \<Rightarrow> OpenFileId \<Rightarrow> ('d Vfs, vfs_error, unit) io" where
  "prepare_shared_file rdf i =
     bindS (get_entry i) (\<lambda>e.
     bindS (getS (\<lambda>s. nodes (registry s) ! of_node e)) (\<lambda>n.
      thenS (guardS (nd_occupied n) InvalidDescriptor)
      (if \<not> nd_writable n
       then thenS (guardS (nd_backing n \<noteq> None) vfs_error.ReadOnly)
         (thenS (materialize rdf (of_node e))
         (on_registry (modS (nodes_update (\<lambda>ns. ns[of_node e := (ns ! of_node e)\<lparr>nd_writable := True\<rparr>])))))
       else retS ())))"

definition write_mapping_at :: "OpenFileId \<Rightarrow> nat \<Rightarrow> bytes \<Rightarrow> ('d Vfs, vfs_error, unit) io" where
  "write_mapping_at i off data =
     bindS (get_entry i) (\<lambda>e.
     bindS (getS (\<lambda>s. nodes (registry s) ! of_node e)) (\<lambda>n.
      thenS (guardS (nd_occupied n \<and> nd_writable n) vfs_error.ReadOnly)
      (thenS (guardS (case checked_add_usize off (length data) of None \<Rightarrow> False | Some fin \<Rightarrow> fin \<le> nd_length n) Full)
      (modS (\<lambda>s. s\<lparr>
         registry := bump_version (of_node e)
           (nodes_update (\<lambda>ns. ns[of_node e := n\<lparr>nd_data := copy_at (nd_data n) off data\<rparr>]) (registry s)),
         file_frames := frames_update (of_node e) (of_generation e) off data (file_frames s)\<rparr>)))))"

definition file_generation :: "OpenFileId \<Rightarrow> ('d Vfs, vfs_error, u64) io" where
  "file_generation i =
     bindS (get_entry i) (\<lambda>e.
     bindS (getS registry) (\<lambda>r.
      thenS (guardS (\<not> entry_stale e r) InvalidDescriptor) (retS (of_generation e))))"

definition file_size :: "OpenFileId \<Rightarrow> ('d Vfs, vfs_error, nat) io" where
  "file_size i =
     bindS (get_entry i) (\<lambda>e.
     bindS (getS (\<lambda>s. nodes (registry s))) (\<lambda>ns.
      thenS (guardS (of_node e < length ns \<and> nd_occupied (ns ! of_node e) \<and> nd_kind (ns ! of_node e) = File) InvalidDescriptor)
      (retS (nd_length (ns ! of_node e)))))"

definition open_file_path_starts_with :: "OpenFileId \<Rightarrow> bytes \<Rightarrow> ('d Vfs, vfs_error, bool) io" where
  "open_file_path_starts_with i prefix =
     bindS (get_entry i) (\<lambda>e.
     bindS (getS (\<lambda>s. nodes (registry s))) (\<lambda>ns.
      thenS (guardS (of_node e < length ns \<and> nd_occupied (ns ! of_node e)) InvalidDescriptor)
      (retS (starts_with prefix (path_str (ns ! of_node e))))))"

definition set_offset :: "OpenFileId \<Rightarrow> nat \<Rightarrow> 'd Vfs \<Rightarrow> 'd Vfs" where
  "set_offset i off s = s\<lparr>open_files := (open_files s)[i := (open_files s ! i)\<lparr>of_offset := off\<rparr>]\<rparr>"

text \<open>A read returns its result and the buffer, which an error may have changed too.\<close>

definition read_from ::
  "'d reader \<Rightarrow> OpenFileId \<Rightarrow> nat option \<Rightarrow> bytes \<Rightarrow> u64 option \<Rightarrow> 'd Vfs \<Rightarrow> (vfs_error + nat) \<times> bytes \<times> 'd Vfs" where
  "read_from rdf i pos buffer generation s =
     (case open_get i (open_files s) of
        Inl e \<Rightarrow> (Inl e, buffer, s)
      | Inr entry \<Rightarrow>
          (let off = (case pos of None \<Rightarrow> of_offset entry | Some p \<Rightarrow> p); r = registry s; node = of_node entry in
           if (case generation of None \<Rightarrow> False | Some g \<Rightarrow> generations r ! node \<noteq> g) then (Inl InvalidDescriptor, buffer, s)
           else if \<not> (node < length (nodes r) \<and> nd_occupied (nodes r ! node)) then (Inl InvalidDescriptor, buffer, s)
           else let n = nodes r ! node in
             if off > nd_length n then (Inl InvalidDescriptor, buffer, s)
             else let count = min (nd_length n - off) (length buffer);
                      (ok, buffer, s) =
                        (case nd_backing n of
                           Some b \<Rightarrow>
                             (let (q, out, d) = rdf (disk_path_str b) off (take count buffer) (disk s)
                              in (q = Inr count, copy_at buffer 0 out, s\<lparr>disk := d\<rparr>))
                         | None \<Rightarrow> (True, copy_at buffer 0 (slice (nd_data n) off count), s))
                  in if \<not> ok then (Inl Io, buffer, s)
                     else (Inr count, copy_at buffer 0 (overlay node (of_generation entry) off (take count buffer) (file_frames s)),
                       if pos = None then set_offset i (off + count) s else s)))"

definition vfs_read_at :: "'d reader \<Rightarrow> OpenFileId \<Rightarrow> nat \<Rightarrow> bytes \<Rightarrow> 'd Vfs \<Rightarrow> (vfs_error + nat) \<times> bytes \<times> 'd Vfs" where
  "vfs_read_at rdf i off buffer s = read_from rdf i (Some off) buffer None s"

definition vfs_read :: "'d reader \<Rightarrow> OpenFileId \<Rightarrow> bytes \<Rightarrow> 'd Vfs \<Rightarrow> (vfs_error + nat) \<times> bytes \<times> 'd Vfs" where
  "vfs_read rdf i buffer s = read_from rdf i None buffer None s"

definition read_mapping_at ::
  "'d reader \<Rightarrow> OpenFileId \<Rightarrow> u64 \<Rightarrow> nat \<Rightarrow> bytes \<Rightarrow> 'd Vfs \<Rightarrow> (vfs_error + nat) \<times> bytes \<times> 'd Vfs" where
  "read_mapping_at rdf i generation off buffer s = read_from rdf i (Some off) buffer (Some generation) s"

definition read_all :: "'d reader \<Rightarrow> bytes \<Rightarrow> bytes \<Rightarrow> 'd Vfs \<Rightarrow> (vfs_error + nat) \<times> bytes \<times> 'd Vfs" where
  "read_all rdf path buffer s =
     (case vfs_open path s of
        (Inl e, s) \<Rightarrow> (Inl e, buffer, s)
      | (Inr i, s) \<Rightarrow>
          (let (r, buffer, s) =
             (case file_size i s of
                (Inl e, s) \<Rightarrow> (Inl e, buffer, s)
              | (Inr n, s) \<Rightarrow>
                  if n > length buffer then (Inl Full, buffer, s)
                  else let (r, out, s) = vfs_read_at rdf i 0 (take n buffer) s in (r, copy_at buffer 0 out, s))
           in (r, buffer, snd (close_open_file i s))))"

definition seek :: "OpenFileId \<Rightarrow> nat \<Rightarrow> ('d Vfs, vfs_error, nat) io" where
  "seek i off =
     bindS (get_entry i) (\<lambda>e.
     bindS (getS (\<lambda>s. nodes (registry s))) (\<lambda>ns.
      thenS (guardS (of_node e < length ns \<and> nd_occupied (ns ! of_node e)) NotFound)
      (let pos = min off (nd_length (ns ! of_node e))
       in thenS (modS (set_offset i pos)) (retS pos))))"

definition vfs_write :: "'d reader \<Rightarrow> OpenFileId \<Rightarrow> bytes \<Rightarrow> ('d Vfs, vfs_error, nat) io" where
  "vfs_write rdf i buffer =
     bindS (get_entry i) (\<lambda>e.
     bindS (getS (\<lambda>s. nodes (registry s))) (\<lambda>ns.
      thenS (guardS (of_node e < length ns \<and> nd_occupied (ns ! of_node e)) InvalidDescriptor)
      (thenS (guardS (nd_writable (ns ! of_node e)) vfs_error.ReadOnly)
      (thenS (materialize rdf (of_node e))
      (bindS (getS (\<lambda>s. nodes (registry s) ! of_node e)) (\<lambda>n.
       thenS (guardS (of_offset e \<le> nd_length n) InvalidDescriptor)
       (let count = min (length buffer) (NODE_CAPACITY - of_offset e);
            new_offset = of_offset e + count
        in thenS (modS (\<lambda>s. set_offset i new_offset (s\<lparr>
               registry := bump_version (of_node e)
                 (nodes_update (\<lambda>ns. ns[of_node e := n\<lparr>nd_data := copy_at (nd_data n) (of_offset e) (take count buffer),
                    nd_length := max (nd_length n) new_offset\<rparr>]) (registry s)),
               file_frames := frames_update (of_node e) (of_generation e) (of_offset e) (take count buffer) (file_frames s)\<rparr>)))
             (thenS (guardS (\<not> count < length buffer) Full)
             (retS count)))))))))"

text \<open>The paths on which \<open>for_each_file_with_prefix\<close> calls its closure.\<close>

definition files_with_prefix :: "bytes \<Rightarrow> Registry \<Rightarrow> bytes list" where
  "files_with_prefix prefix r =
     filter (starts_with prefix) (map path_str (filter (\<lambda>n. nd_occupied n \<and> nd_kind n = File) (nodes r)))"

definition node_count :: "'d Vfs \<Rightarrow> nat" where
  "node_count s = registry_count (registry s)"

definition open_file_description_count :: "'d Vfs \<Rightarrow> nat" where
  "open_file_description_count s = live_count (open_files s)"

end
