(* ===== verification/Vfs_Tree.thy ===== *)
theory Vfs_Tree
  imports Vfs
begin

text \<open>
  The names of the file system form a tree: the invariant of the registry and that inserting,
  creating directories, removing and renaming keep it. Lemmas about path strings turn the
  tests of the code into tests on component lists.
\<close>

section \<open>The invariant\<close>

definition named :: "Node \<Rightarrow> bool" where
  "named n \<longleftrightarrow> nd_occupied n \<and> nd_path_length n \<noteq> 0"

text \<open>
  A node with disk backing is a file whose path on the disk is its own path. A free node has
  neither name nor backing; an occupied node without a name is a file that was removed while open.
\<close>

definition backing_ok :: "Node \<Rightarrow> DiskPath \<Rightarrow> bool" where
  "backing_ok n b \<longleftrightarrow> length (dp_bytes b) = MAX_PATH_SIZE \<and> dp_length b = nd_path_length n \<and>
     take (dp_length b) (dp_bytes b) = node_bytes n \<and> nd_kind n = File \<and> named n"

definition node_ok :: "Node \<Rightarrow> bool" where
  "node_ok n \<longleftrightarrow> length (nd_path n) = MAX_PATH_SIZE \<and> nd_path_length n \<le> MAX_PATH_SIZE \<and>
     length (nd_data n) = NODE_CAPACITY \<and> nd_length n \<le> NODE_CAPACITY \<and>
     (named n \<longrightarrow> is_utf8 (node_bytes n) \<and> (\<exists>cs. good_path cs \<and> node_bytes n = path_of cs)) \<and>
     (nd_occupied n \<and> nd_path_length n = 0 \<longrightarrow> nd_kind n = File) \<and>
     (\<not> nd_occupied n \<longrightarrow> nd_path_length n = 0) \<and>
     (\<forall>b. nd_backing n = Some b \<longrightarrow> backing_ok n b)"

text \<open>Node \<open>i\<close> has the path of these components.\<close>

definition holds :: "Node list \<Rightarrow> bytes list \<Rightarrow> nat \<Rightarrow> bool" where
  "holds ns cs i \<longleftrightarrow> i < length ns \<and> nd_occupied (ns ! i) \<and> node_bytes (ns ! i) = path_of cs"

definition unique_paths :: "Node list \<Rightarrow> bool" where
  "unique_paths ns \<longleftrightarrow> (\<forall>cs i j. good_path cs \<longrightarrow> holds ns cs i \<longrightarrow> holds ns cs j \<longrightarrow> i = j)"

definition parents_exist :: "Node list \<Rightarrow> bool" where
  "parents_exist ns \<longleftrightarrow> (\<forall>cs c i. good_path (cs @ [c]) \<longrightarrow> holds ns (cs @ [c]) i \<longrightarrow>
     (\<exists>j. holds ns cs j \<and> nd_kind (ns ! j) = Directory))"

definition tree_ok :: "Node list \<Rightarrow> bool" where
  "tree_ok ns \<longleftrightarrow> length ns = MAX_VFS_NODES \<and> list_all node_ok ns \<and> unique_paths ns \<and> parents_exist ns \<and>
     (\<exists>j. holds ns [] j \<and> nd_kind (ns ! j) = Directory)"

lemma tree_okD:
  assumes "tree_ok ns"
  shows "length ns = MAX_VFS_NODES" "\<And>i. i < length ns \<Longrightarrow> node_ok (ns ! i)" "unique_paths ns" "parents_exist ns"
    "\<exists>j. holds ns [] j \<and> nd_kind (ns ! j) = Directory"
  using assms by (simp_all add: tree_ok_def list_all_length)

lemma tree_okI:
  assumes "length ns = MAX_VFS_NODES" "\<And>i. i < length ns \<Longrightarrow> node_ok (ns ! i)"
    "\<And>cs i j. good_path cs \<Longrightarrow> holds ns cs i \<Longrightarrow> holds ns cs j \<Longrightarrow> i = j"
    "\<And>cs c i. good_path (cs @ [c]) \<Longrightarrow> holds ns (cs @ [c]) i \<Longrightarrow> \<exists>j. holds ns cs j \<and> nd_kind (ns ! j) = Directory"
    "\<exists>j. holds ns [] j \<and> nd_kind (ns ! j) = Directory"
  shows "tree_ok ns"
  using assms unfolding tree_ok_def unique_paths_def parents_exist_def list_all_length by blast

lemma tree_unique: "tree_ok ns \<Longrightarrow> good_path cs \<Longrightarrow> holds ns cs i \<Longrightarrow> holds ns cs j \<Longrightarrow> i = j"
  using tree_okD(3) unfolding unique_paths_def by blast

lemma tree_parent:
  assumes "tree_ok ns" "good_path (cs @ [c])" "holds ns (cs @ [c]) i"
  obtains j where "holds ns cs j" "nd_kind (ns ! j) = Directory"
  using assms tree_okD(4) unfolding parents_exist_def by blast

lemma holds_matches: "i < length ns \<Longrightarrow> node_matches (path_of cs) (ns ! i) \<longleftrightarrow> holds ns cs i"
  by (simp add: node_matches_def holds_def)

lemma holds_named: "holds ns cs i \<Longrightarrow> named (ns ! i)"
  using path_of_not_Nil [of cs] by (cases "nd_path_length (ns ! i)") (auto simp: holds_def named_def node_bytes_def)

lemma named_holds:
  assumes "tree_ok ns" "i < length ns" "named (ns ! i)"
  obtains cs where "good_path cs" "holds ns cs i"
  using tree_okD(2) [OF assms(1,2)] assms(2,3) that by (auto simp: node_ok_def holds_def named_def)

lemma path_str_holds: "tree_ok ns \<Longrightarrow> holds ns cs i \<Longrightarrow> path_str (ns ! i) = path_of cs"
  using tree_okD(2) [of ns i] holds_named [of ns cs i] by (auto simp: node_ok_def path_str_def str_of_def holds_def)

lemma path_str_unnamed: "\<not> named n \<Longrightarrow> nd_occupied n \<Longrightarrow> path_str n = []"
  by (simp add: named_def path_str_def node_bytes_def str_of_def)

lemma list_ex_matches: "list_ex (node_matches (path_of cs)) ns \<longleftrightarrow> (\<exists>i. holds ns cs i)"
  by (auto simp: list_ex_length holds_def node_matches_def)

lemma is_directory_holds: "is_directory (path_of cs) ns \<longleftrightarrow> (\<exists>j. holds ns cs j \<and> nd_kind (ns ! j) = Directory)"
  by (auto simp: is_directory_def list_ex_length holds_def node_matches_def)

lemma position_matches:
  "position (node_matches (path_of cs)) ns = Some i \<Longrightarrow> holds ns cs i"
  by (auto simp: holds_def node_matches_def dest: position_SomeD)

text \<open>Every prefix of an existing path exists.\<close>

lemma prefix_exists:
  assumes "tree_ok ns"
  shows "good_path (as @ bs) \<Longrightarrow> holds ns (as @ bs) i \<Longrightarrow> \<exists>j. holds ns as j"
proof (induction bs arbitrary: i rule: rev_induct)
  case (snoc b bs)
  have "good_path ((as @ bs) @ [b])" "holds ns ((as @ bs) @ [b]) i" using snoc.prems by simp_all
  with assms obtain j where "holds ns (as @ bs) j" by (rule tree_parent)
  with snoc.IH good_path_snoc [of "as @ bs" b] snoc.prems show ?case by simp
qed auto

section \<open>Changing one node\<close>

text \<open>Contents may change freely.\<close>

definition same_name :: "Node \<Rightarrow> Node \<Rightarrow> bool" where
  "same_name n n' \<longleftrightarrow> nd_path n' = nd_path n \<and> nd_path_length n' = nd_path_length n \<and> nd_kind n' = nd_kind n \<and>
     nd_occupied n' = nd_occupied n"

lemma same_name_bytes: "same_name n n' \<Longrightarrow> node_bytes n' = node_bytes n"
  by (simp add: same_name_def node_bytes_def)

lemma holds_same_name:
  assumes "i < length ns" "same_name (ns ! i) n"
  shows "holds (ns[i := n]) cs j \<longleftrightarrow> holds ns cs j" "nd_kind (ns[i := n] ! j) = nd_kind (ns ! j)"
  using assms same_name_bytes [OF assms(2)] by (auto simp: holds_def nth_list_update same_name_def)

lemma tree_same_name:
  assumes tree: "tree_ok ns" and i: "i < length ns" and same: "same_name (ns ! i) n" and ok: "node_ok n"
  shows "tree_ok (ns[i := n])"
proof -
  have "list_all node_ok (ns[i := n])"
    using tree_okD(2) [OF tree] ok i by (auto simp: list_all_length nth_list_update)
  then show ?thesis
    using tree unfolding tree_ok_def unique_paths_def parents_exist_def holds_same_name [OF i same] by simp
qed

text \<open>A free node takes a path whose parent is a directory.\<close>

lemma holds_fresh:
  assumes "i < length ns" "\<not> named (ns ! i)" "nd_occupied n" "node_bytes n = path_of as" "good_path as" "good_path cs"
  shows "holds (ns[i := n]) cs j \<longleftrightarrow> (if j = i then cs = as else holds ns cs j)"
  using assms path_of_inj [OF assms(5,6)] by (auto simp: holds_def nth_list_update)

lemma tree_occupy:
  assumes tree: "tree_ok ns" and i: "i < length ns" "\<not> named (ns ! i)" and n: "nd_occupied n" "node_bytes n = path_of (as @ [a])" "node_ok n"
    and path: "good_path (as @ [a])" "\<forall>j. \<not> holds ns (as @ [a]) j" and dir: "holds ns as k" "nd_kind (ns ! k) = Directory"
  shows "tree_ok (ns[i := n])"
proof (rule tree_okI)
  have ki: "j \<noteq> i" if "holds ns cs j" for cs j using holds_named [OF that] i(2) by auto
  note h = holds_fresh [OF i n(1,2) path(1)]
  show "length (ns[i := n]) = MAX_VFS_NODES" using tree_okD(1) [OF tree] by simp
  show "node_ok (ns[i := n] ! j)" if "j < length (ns[i := n])" for j
    using that tree_okD(2) [OF tree] n(3) by (cases "j = i") auto
  show "x = y" if "good_path cs" "holds (ns[i := n]) cs x" "holds (ns[i := n]) cs y" for cs x y
  proof (cases "cs = as @ [a]")
    case True
    then have "x = i" "y = i" using that(2,3) path(2) unfolding h [OF that(1)] by (metis True)+
    then show ?thesis by simp
  next
    case False
    then have "holds ns cs x" "holds ns cs y" using that(2,3) unfolding h [OF that(1)] by metis+
    then show ?thesis by (rule tree_unique [OF tree that(1)])
  qed
  have keep: "\<exists>j. holds (ns[i := n]) cs j \<and> nd_kind (ns[i := n] ! j) = Directory"
    if "good_path cs" "holds ns cs j" "nd_kind (ns ! j) = Directory" for cs j
    using ki [OF that(2)] that h [OF that(1), of j] by (intro exI [of _ j]) simp
  show "\<exists>j. holds (ns[i := n]) cs j \<and> nd_kind (ns[i := n] ! j) = Directory"
    if "good_path (cs @ [c])" "holds (ns[i := n]) (cs @ [c]) x" for cs c x
  proof (cases "x = i")
    case True
    with that h [OF that(1), of x] have "cs = as" by simp
    with keep dir good_path_snoc [OF path(1)] show ?thesis by blast
  next
    case False
    with that h [OF that(1), of x] have "holds ns (cs @ [c]) x" by simp
    with tree that(1) obtain j where "holds ns cs j" "nd_kind (ns ! j) = Directory" by (rule tree_parent)
    with keep good_path_snoc [OF that(1)] show ?thesis by blast
  qed
  show "\<exists>j. holds (ns[i := n]) [] j \<and> nd_kind (ns[i := n] ! j) = Directory"
    using tree_okD(5) [OF tree] keep by auto
qed

text \<open>A node that is not the root and has no children loses its name.\<close>

lemma tree_unname:
  assumes tree: "tree_ok ns" and h: "holds ns as i" "good_path as" "as \<noteq> []" and n: "\<not> named n" "node_ok n"
    and leaf: "\<And>c j. nd_kind (ns ! i) = Directory \<Longrightarrow> good_path (as @ [c]) \<Longrightarrow> \<not> holds ns (as @ [c]) j"
  shows "tree_ok (ns[i := n])"
proof (rule tree_okI)
  have i: "i < length ns" using h(1) by (simp add: holds_def)
  have hs: "holds (ns[i := n]) cs j \<longleftrightarrow> j \<noteq> i \<and> holds ns cs j" for cs j
    using n(1) holds_named [of "ns[i := n]" cs j] i by (auto simp: holds_def nth_list_update named_def)
  show "length (ns[i := n]) = MAX_VFS_NODES" using tree_okD(1) [OF tree] by simp
  show "node_ok (ns[i := n] ! j)" if "j < length (ns[i := n])" for j
    using that tree_okD(2) [OF tree] n(2) by (cases "j = i") auto
  show "x = y" if "good_path cs" "holds (ns[i := n]) cs x" "holds (ns[i := n]) cs y" for cs x y
    using that tree_unique [OF tree that(1)] unfolding hs by blast
  have keep: "\<exists>j. holds (ns[i := n]) cs j \<and> nd_kind (ns[i := n] ! j) = Directory"
    if "holds ns cs j" "nd_kind (ns ! j) = Directory" "j \<noteq> i" for cs j
    using that hs by (intro exI [of _ j]) simp
  have only: "cs = as" if "holds ns cs i" "good_path cs" for cs using that h(1,2) path_of_inj [of cs as] by (simp add: holds_def)
  show "\<exists>j. holds (ns[i := n]) cs j \<and> nd_kind (ns[i := n] ! j) = Directory"
    if "good_path (cs @ [c])" "holds (ns[i := n]) (cs @ [c]) x" for cs c x
  proof -
    have x: "holds ns (cs @ [c]) x" using that(2) hs by simp
    with tree that(1) obtain j where j: "holds ns cs j" "nd_kind (ns ! j) = Directory" by (rule tree_parent)
    have "j \<noteq> i" using leaf [of c x] only [OF _ good_path_snoc [OF that(1)]] j x that(1) by auto
    with keep j show ?thesis by blast
  qed
  obtain j where j: "holds ns [] j" "nd_kind (ns ! j) = Directory" using tree_okD(5) [OF tree] by blast
  with only [of "[]"] h(3) have "j \<noteq> i" by auto
  with keep j show "\<exists>j. holds (ns[i := n]) [] j \<and> nd_kind (ns[i := n] ! j) = Directory" by blast
qed

section \<open>The operations of the registry\<close>

lemma free_not_named: "\<not> nd_occupied n \<Longrightarrow> \<not> named n"
  by (simp add: named_def)

lemma position_free:
  assumes "position (\<lambda>n. \<not> nd_occupied n) ns = Some i"
  shows "i < length ns" "\<not> nd_occupied (ns ! i)" "\<not> named (ns ! i)"
  using position_SomeD [OF assms] by (auto simp: named_def)

text \<open>A valid path that is not taken and whose parent, if any, is a directory.\<close>

lemma new_path:
  assumes tree: "tree_ok ns" and v: "validate_absolute_path p = Inr ()" and fresh: "\<not> list_ex (node_matches p) ns"
    and parent: "p \<noteq> root_path \<Longrightarrow> \<exists>q. parent_path p = Some q \<and> is_directory q ns"
  obtains as a k where "p = path_of (as @ [a])" "good_path (as @ [a])" "holds ns as k" "nd_kind (ns ! k) = Directory"
    "\<forall>j. \<not> holds ns (as @ [a]) j"
proof -
  obtain cs where cs: "good_path cs" "p = path_of cs" using v by (rule validate_good)
  have free: "\<not> holds ns cs j" for j using fresh unfolding cs(2) list_ex_matches by blast
  with tree_okD(5) [OF tree] have "cs \<noteq> []" by auto
  then obtain as a where ca: "cs = as @ [a]" by (cases cs rule: rev_cases) auto
  have "p \<noteq> root_path" using path_of_root [OF cs(1)] ca cs(2) by simp
  with parent parent_path_of cs ca obtain k where "holds ns as k" "nd_kind (ns ! k) = Directory"
    by (auto simp: is_directory_holds)
  with that cs ca free show ?thesis by blast
qed

lemma registry_insert_cases:
  assumes "registry_insert p data w r = (q, r')"
  obtains (failed) e where "q = Inl e" "r' = r"
  | (inserted) i where "q = Inr i" "validate_absolute_path p = Inr ()" "length data \<le> NODE_CAPACITY"
      "\<not> list_ex (node_matches p) (nodes r)" "p \<noteq> root_path \<Longrightarrow> \<exists>q. parent_path p = Some q \<and> is_directory q (nodes r)"
      "position (\<lambda>n. \<not> nd_occupied n) (nodes r) = Some i"
      "r' = r\<lparr>nodes := (nodes r)[i := (nodes r ! i)\<lparr>nd_path := copy_at (nd_path (nodes r ! i)) 0 p, nd_path_length := length p,
         nd_data := copy_at (nd_data (nodes r ! i)) 0 data, nd_length := length data, nd_writable := w, nd_kind := File,
         nd_occupied := True\<rparr>]\<rparr>"
proof (cases q)
  case (Inl e)
  with assms have "r' = r" by (auto simp: registry_insert_def bindS_Inl thenS_Inl bindS_Inr thenS_Inr split: if_splits)
  with Inl failed show ?thesis by blast
next
  case (Inr i)
  with assms inserted show ?thesis
    by (auto simp: registry_insert_def bindS_Inr thenS_Inr ok_or_Inr split: if_splits)
qed

lemma new_node_ok:
  assumes "node_ok n" "\<not> nd_occupied n" "good_path cs" "is_utf8 (path_of cs)" "length data \<le> NODE_CAPACITY" "m \<le> NODE_CAPACITY"
  shows "node_ok (n\<lparr>nd_path := copy_at (nd_path n) 0 (path_of cs), nd_path_length := length (path_of cs),
      nd_data := copy_at (nd_data n) 0 data, nd_length := m, nd_writable := w, nd_kind := k, nd_occupied := True\<rparr>)"
    and "node_bytes (n\<lparr>nd_path := copy_at (nd_path n) 0 (path_of cs), nd_path_length := length (path_of cs),
      nd_data := copy_at (nd_data n) 0 data, nd_length := m, nd_writable := w, nd_kind := k, nd_occupied := True\<rparr>) = path_of cs"
proof -
  have b: "nd_backing n = None" using assms(1,2) by (cases "nd_backing n") (auto simp: node_ok_def backing_ok_def named_def)
  have l: "length (path_of cs) \<le> MAX_PATH_SIZE" "length (nd_path n) = MAX_PATH_SIZE" "length (nd_data n) = NODE_CAPACITY"
    using assms(1,3) by (auto simp: node_ok_def good_path_def)
  show "node_bytes (n\<lparr>nd_path := copy_at (nd_path n) 0 (path_of cs), nd_path_length := length (path_of cs),
      nd_data := copy_at (nd_data n) 0 data, nd_length := m, nd_writable := w, nd_kind := k, nd_occupied := True\<rparr>) = path_of cs"
    using l by (simp add: node_bytes_def take_copy_at_0)
  then show "node_ok (n\<lparr>nd_path := copy_at (nd_path n) 0 (path_of cs), nd_path_length := length (path_of cs),
      nd_data := copy_at (nd_data n) 0 data, nd_length := m, nd_writable := w, nd_kind := k, nd_occupied := True\<rparr>)"
    using l assms b unfolding node_ok_def named_def by auto
qed

text \<open>Inserting a file, and making a directory, occupies one free node.\<close>

definition occupies :: "Node list \<Rightarrow> Node list \<Rightarrow> bytes \<Rightarrow> nat \<Rightarrow> Node \<Rightarrow> bool" where
  "occupies ns ns' p i n \<longleftrightarrow> i < length ns \<and> \<not> nd_occupied (ns ! i) \<and> ns' = ns[i := n] \<and> named n \<and> node_ok n \<and>
     node_bytes n = p \<and> nd_path_length n = length p \<and> nd_backing n = None"

lemma registry_insert_tree:
  assumes tree: "tree_ok (nodes r)" and utf8: "is_utf8 p" and run: "registry_insert p data w r = (q, r')"
  obtains (failed) e where "q = Inl e" "r' = r"
  | (inserted) i n where "q = Inr i" "r' = r\<lparr>nodes := nodes r'\<rparr>" "occupies (nodes r) (nodes r') p i n" "nd_kind n = File"
      "nd_writable n = w" "nd_length n = length data" "take (length data) (nd_data n) = data" "tree_ok (nodes r')"
  using run
proof (cases rule: registry_insert_cases)
  case failed
  then show ?thesis using that(1) by simp
next
  case (inserted i)
  obtain as a d where as: "p = path_of (as @ [a])" "good_path (as @ [a])" "holds (nodes r) as d" "nd_kind (nodes r ! d) = Directory"
    "\<forall>j. \<not> holds (nodes r) (as @ [a]) j"
    using tree inserted(2,4,5) by (rule new_path)
  note f = position_free [OF inserted(6)]
  note ok = tree_okD(2) [OF tree f(1)]
  have b: "nd_backing (nodes r ! i) = None"
    using ok f(2) by (cases "nd_backing (nodes r ! i)") (auto simp: node_ok_def backing_ok_def named_def)
  note new = new_node_ok [OF ok f(2) as(2) utf8 [unfolded as(1)] inserted(3) inserted(3), where w = w and k = File, folded as(1)]
  have t: "tree_ok (nodes r')"
    using tree_occupy [OF tree f(1,3) _ new(2) [unfolded as(1)] new(1) [unfolded as(1)] as(2,5,3,4)] unfolding inserted(7) as(1) by simp
  show ?thesis
  proof (rule that(2) [OF inserted(1) _ _ _ _ _ _ t])
    show "take (length data) (nd_data (nodes r' ! i)) = data"
      using inserted(3,7) f ok by (simp add: node_ok_def take_copy_at_0)
  qed (use inserted(7) f b new as(1) in \<open>auto simp: occupies_def named_def\<close>)
qed

lemma node_empty_ok: "node_ok node_empty" "\<not> nd_occupied node_empty"
  by (simp_all add: node_ok_def node_empty_def named_def)

lemma copy_at_Nil [simp]: "copy_at xs 0 [] = xs"
  by (simp add: copy_at_def)

lemma node_directory_ok:
  assumes "good_path cs" "is_utf8 (path_of cs)"
  shows "node_ok (node_directory (path_of cs))" "node_bytes (node_directory (path_of cs)) = path_of cs"
  using new_node_ok [OF node_empty_ok assms, where data = "[]" and m = 0 and w = True and k = Directory]
  by (simp_all add: node_directory_def node_empty_def)

lemma node_with_data_ok:
  assumes "good_path cs" "is_utf8 (path_of cs)" "length data \<le> NODE_CAPACITY"
  shows "node_ok (node_with_data (path_of cs) data w)" "node_bytes (node_with_data (path_of cs) data w) = path_of cs"
  using new_node_ok [OF node_empty_ok assms assms(3), where w = w and k = File]
  by (simp_all add: node_with_data_def node_empty_def)

lemma registry_mkdir_cases:
  assumes "registry_mkdir p r = (q, r')"
  obtains (failed) e where "q = Inl e" "r' = r"
  | (made) i where "q = Inr i" "validate_absolute_path p = Inr ()" "\<not> list_ex (node_matches p) (nodes r)"
      "\<exists>q. parent_path p = Some q \<and> is_directory q (nodes r)" "position (\<lambda>n. \<not> nd_occupied n) (nodes r) = Some i"
      "r' = r\<lparr>nodes := (nodes r)[i := (node_directory p)\<lparr>nd_path := copy_at (nd_path (node_directory p)) 0 p,
         nd_path_length := length p\<rparr>]\<rparr>"
proof (cases q)
  case (Inl e)
  with assms have "r' = r" by (auto simp: registry_mkdir_def bindS_Inl thenS_Inl bindS_Inr thenS_Inr split: if_splits)
  with Inl failed show ?thesis by blast
next
  case (Inr i)
  with assms made show ?thesis by (auto simp: registry_mkdir_def bindS_Inr thenS_Inr ok_or_Inr split: if_splits)
qed

lemma registry_mkdir_tree:
  assumes tree: "tree_ok (nodes r)" and utf8: "is_utf8 p" and run: "registry_mkdir p r = (q, r')"
  obtains (failed) e where "q = Inl e" "r' = r"
  | (made) i n where "q = Inr i" "r' = r\<lparr>nodes := nodes r'\<rparr>" "occupies (nodes r) (nodes r') p i n" "nd_kind n = Directory"
      "tree_ok (nodes r')"
  using run
proof (cases rule: registry_mkdir_cases)
  case failed
  then show ?thesis using that(1) by simp
next
  case (made i)
  obtain as a d where as: "p = path_of (as @ [a])" "good_path (as @ [a])" "holds (nodes r) as d" "nd_kind (nodes r ! d) = Directory"
    "\<forall>j. \<not> holds (nodes r) (as @ [a]) j"
    using tree made(2,3,4) by (rule new_path)
  note f = position_free [OF made(5)]
  have l: "length p \<le> MAX_PATH_SIZE" using as by (simp add: good_path_def)
  have same: "(node_directory p)\<lparr>nd_path := copy_at (nd_path (node_directory p)) 0 p, nd_path_length := length p\<rparr> = node_directory p"
    using l by (simp add: node_directory_def node_empty_def copy_at_def)
  note new = node_directory_ok [OF as(2) utf8 [unfolded as(1)]]
  have o: "nd_occupied (node_directory p)" "nd_kind (node_directory p) = Directory" "nd_backing (node_directory p) = None"
    "nd_path_length (node_directory p) = length p"
    by (simp_all add: node_directory_def node_empty_def)
  have r': "r' = r\<lparr>nodes := (nodes r)[i := node_directory p]\<rparr>" using made(6) same by simp
  have t: "tree_ok (nodes r')"
    using tree_occupy [OF tree f(1,3) o(1) [unfolded as(1)] new(2,1) as(2,5,3,4)] unfolding r' as(1) by simp
  show ?thesis
    by (rule that(2) [OF made(1) _ _ o(2) t])
      (use r' f new as(1) o in \<open>auto simp: occupies_def named_def\<close>)
qed

section \<open>Removing\<close>

lemma removable_index_Inr:
  assumes tree: "tree_ok (nodes r)" and ok: "removable_index p r = Inr i"
  obtains cs where "p = path_of cs" "good_path cs" "cs \<noteq> []" "holds (nodes r) cs i"
    "nd_kind (nodes r ! i) = Directory \<longrightarrow> (\<forall>c j. good_path (cs @ [c]) \<longrightarrow> \<not> holds (nodes r) (cs @ [c]) j)"
proof -
  have v: "validate_absolute_path p = Inr ()" and root: "p \<noteq> root_path" and pos: "position (node_matches p) (nodes r) = Some i"
    and leaf: "\<not> (nd_kind (nodes r ! i) = Directory \<and>
      list_ex (\<lambda>other. nd_occupied other \<and> immediate_child_name (path_str (nodes r ! i)) (path_str other) \<noteq> None) (nodes r))"
    using ok by (auto simp: removable_index_def bindE_Inr ok_or_Inr split: if_splits)
  obtain cs where cs: "good_path cs" "p = path_of cs" using v by (rule validate_good)
  have h: "holds (nodes r) cs i" using position_matches pos cs(2) by simp
  have "\<not> holds (nodes r) (cs @ [c]) j" if d: "nd_kind (nodes r ! i) = Directory" and g: "good_path (cs @ [c])" for c j
  proof
    assume j: "holds (nodes r) (cs @ [c]) j"
    have "immediate_child_name (path_str (nodes r ! i)) (path_str (nodes r ! j)) = Some c"
      using immediate_child_path [OF cs(1) g] path_str_holds [OF tree h] path_str_holds [OF tree j] by simp
    with leaf d j show False by (auto simp: list_ex_length holds_def)
  qed
  with that cs h root path_of_root [OF cs(1)] show ?thesis by blast
qed

lemma checked_succ: "checked_add (a :: u64) 1 = Some g \<longleftrightarrow> a \<noteq> - 1 \<and> g = a + 1"
proof -
  have "unat a < 2 ^ 64" using unsigned_less [of a] by simp
  moreover have "unat (- 1 :: u64) = 18446744073709551615" by (simp add: unsigned_minus_1_eq_mask mask_eq_exp_minus_1)
  ultimately have "unat a + 1 < 2 ^ 64 \<longleftrightarrow> unat a \<noteq> unat (- 1 :: u64)" by auto
  then show ?thesis by (auto simp: checked_add_def word_unat_eq_iff)
qed

lemma registry_remove_cases:
  assumes tree: "tree_ok (nodes r)" and run: "registry_remove p r = (q, r')"
  obtains (failed) e where "q = Inl e" "r' = r"
  | (removed) cs i n where "q = Inr ()" "p = path_of cs" "good_path cs" "cs \<noteq> []" "holds (nodes r) cs i" "\<not> nd_occupied n"
      "generations r ! i \<noteq> - 1" "r' = r\<lparr>nodes := (nodes r)[i := n], generations := (generations r)[i := generations r ! i + 1]\<rparr>"
      "tree_ok (nodes r')"
proof (cases q)
  case (Inl e)
  with run have "r' = r" by (auto simp: registry_remove_def bump_generation_def bindS_Inl thenS_Inl bindS_Inr thenS_Inr)
  with Inl that(1) show ?thesis by blast
next
  case (Inr u)
  then obtain i g where i: "removable_index p r = Inr i" "checked_add (generations r ! i) 1 = Some g"
    and r': "r' = r\<lparr>generations := (generations r)[i := g], nodes := (nodes r)[i := (nodes r ! i)\<lparr>nd_occupied := False,
      nd_path_length := 0, nd_length := 0, nd_backing := None, nd_writable := False, nd_data := replicate NODE_CAPACITY 0,
      nd_path := replicate MAX_PATH_SIZE 0\<rparr>]\<rparr>"
    using run by (auto simp: registry_remove_def bump_generation_def bindS_Inr thenS_Inr ok_or_Inr)
  obtain cs where cs: "p = path_of cs" "good_path cs" "cs \<noteq> []" "holds (nodes r) cs i"
    "nd_kind (nodes r ! i) = Directory \<longrightarrow> (\<forall>c j. good_path (cs @ [c]) \<longrightarrow> \<not> holds (nodes r) (cs @ [c]) j)"
    using tree i(1) by (rule removable_index_Inr)
  have g: "generations r ! i \<noteq> - 1" "g = generations r ! i + 1" using i(2) by (auto simp: checked_succ)
  have t: "tree_ok (nodes r')"
    unfolding r' using tree_unname [OF tree cs(4,2,3)] cs(5) by (simp add: named_def node_ok_def)
  show ?thesis
    by (rule that(2) [OF _ cs(1-4) _ g(1) _ t, where n = "(nodes r ! i)\<lparr>nd_occupied := False,
      nd_path_length := 0, nd_length := 0, nd_backing := None, nd_writable := False, nd_data := replicate NODE_CAPACITY 0,
      nd_path := replicate MAX_PATH_SIZE 0\<rparr>"]) (use Inr r' g(2) in simp_all)
qed

section \<open>Renaming\<close>

text \<open>The path of a node after \<open>os\<close> was renamed to \<open>nw\<close>.\<close>

definition moved :: "bytes list \<Rightarrow> bytes list \<Rightarrow> bytes list \<Rightarrow> bytes list" where
  "moved os nw cs = (if take (length os) cs = os then nw @ drop (length os) cs else cs)"

lemma moved_simps [simp]:
  "moved os nw os = nw" "moved os nw (os @ ds) = nw @ ds" "os \<noteq> [] \<Longrightarrow> moved os nw [] = []"
  by (simp_all add: moved_def)

lemma moved_cases:
  obtains ds where "cs = os @ ds" "moved os nw cs = nw @ ds"
  | "take (length os) cs \<noteq> os" "moved os nw cs = cs"
  unfolding moved_def using append_take_drop_id [of "length os" cs] by metis

lemma move_path_eq:
  assumes "start \<le> len" "len \<le> length path" "length new + (len - start) \<le> length path"
  shows "move_path start new (path, len) =
    (new @ slice path start (len - start) @ replicate (length path - (length new + (len - start))) 0, length new + (len - start))"
proof -
  define sl where "sl = slice path start (len - start)"
  have l: "length sl = len - start" using assms by (simp add: sl_def)
  have "copy_at (copy_at path (length new) sl) 0 new = new @ sl @ drop (length new + length sl) path"
    using assms(3) l by (simp add: copy_at_def)
  then show ?thesis using assms(3) l unfolding move_path_def by (simp add: Let_def sl_def [symmetric])
qed

lemma move_path_take:
  assumes "take len path = path_of os @ x" "len \<le> length path" "length new + length x \<le> length path"
  shows "move_path (length (path_of os)) new (path, len) =
    (new @ x @ replicate (length path - (length new + length x)) 0, length new + length x)"
proof -
  have len: "len = length (path_of os) + length x" using arg_cong [OF assms(1), of length] assms(2) by simp
  have "slice path (length (path_of os)) (length x) = drop (length (path_of os)) (take len path)"
    by (simp add: slice_def drop_take len)
  then have "slice path (length (path_of os)) (length x) = x" using assms(1) by simp
  then show ?thesis using move_path_eq [of "length (path_of os)" len path new] assms len by simp
qed

text \<open>What a rename does to one node of the tree.\<close>

lemma disk_path_backing: "node_ok n \<Longrightarrow> nd_backing n = Some b \<Longrightarrow> disk_path_str b = path_str n \<and> node_bytes n = path_str n"
  by (auto simp: node_ok_def backing_ok_def disk_path_str_def path_str_def str_of_def)

definition path_array :: "bytes \<Rightarrow> bytes" where
  "path_array p = p @ replicate (MAX_PATH_SIZE - length p) 0"

definition with_path :: "bytes \<Rightarrow> Node \<Rightarrow> Node" where
  "with_path p n = n\<lparr>nd_path := path_array p, nd_path_length := length p,
     nd_backing := map_option (\<lambda>b. \<lparr>dp_bytes = path_array p, dp_length = length p\<rparr>) (nd_backing n)\<rparr>"

lemma with_path_simps [simp]:
  "nd_kind (with_path p n) = nd_kind n" "nd_occupied (with_path p n) = nd_occupied n" "nd_data (with_path p n) = nd_data n"
  "nd_length (with_path p n) = nd_length n" "nd_writable (with_path p n) = nd_writable n" "node_bytes (with_path p n) = p"
  "nd_path_length (with_path p n) = length p"
  by (simp_all add: with_path_def node_bytes_def path_array_def)

lemma with_path_ok:
  assumes "node_ok n" "named n" "good_path cs" "is_utf8 (path_of cs)"
  shows "node_ok (with_path (path_of cs) n)"
proof -
  have l: "length (path_of cs) \<le> MAX_PATH_SIZE" using assms(3) by (simp add: good_path_def)
  have "named (with_path (path_of cs) n)" using assms(2) by (simp add: named_def)
  moreover have "nd_kind n = File" if "nd_backing n = Some b" for b
    using assms(1) that by (auto simp: node_ok_def backing_ok_def)
  moreover have "length (nd_path (with_path (path_of cs) n)) = MAX_PATH_SIZE" using l by (simp add: with_path_def path_array_def)
  ultimately show ?thesis
    using assms l by (auto simp: node_ok_def backing_ok_def) (auto simp: with_path_def path_array_def named_def)
qed

lemma rename_node_moves:
  assumes ok: "node_ok n" "named n" "node_bytes n = path_of (os @ ds)" and g: "good_path (nw @ ds)" "os \<noteq> []" "nw \<noteq> []"
    and d: "ds \<noteq> [] \<Longrightarrow> d"
  shows "rename_node (path_of os) (path_of nw) d n = with_path (path_of (nw @ ds)) n"
proof -
  have p: "path_of (os @ ds) = path_of os @ join ds" "path_of (nw @ ds) = path_of nw @ join ds"
    using g(2,3) by (simp_all add: path_of_def)
  have str: "path_str n = path_of os @ join ds" using ok by (simp add: path_str_def str_of_def p node_ok_def)
  have len: "length (path_of nw) + length (join ds) \<le> MAX_PATH_SIZE" using g(1) by (simp add: good_path_def p)
  have hit: "path_str n = path_of os \<or> d \<and> descendant_suffix (path_of os) (path_str n) \<noteq> None"
  proof (cases "ds = []")
    case False
    then have "descendant_suffix (path_of os) (path_str n) = Some (join ds)"
      by (cases ds) (auto simp: descendant_suffix_Some str)
    with d False show ?thesis by simp
  qed (simp add: str)
  have m: "node_matches (path_of os) n \<longleftrightarrow> path_str n = path_of os" using ok(2,3) str by (simp add: node_matches_def named_def p)
  have move: "move_path (length (path_of os)) (path_of nw) (a, l) = (path_array (path_of (nw @ ds)), length (path_of (nw @ ds)))"
    if "take l a = node_bytes n" "length a = MAX_PATH_SIZE" "l \<le> MAX_PATH_SIZE" for a l
    using move_path_take [of l a os "join ds" "path_of nw"] that len ok(3) by (simp add: p path_array_def)
  have mv: "move_path (length (path_of os)) (path_of nw) (nd_path n, nd_path_length n) =
      (path_array (path_of (nw @ ds)), length (path_of (nw @ ds)))"
    using move [of "nd_path_length n" "nd_path n"] ok(1) by (simp add: node_ok_def node_bytes_def)
  show ?thesis
  proof (cases "nd_backing n")
    case None
    then show ?thesis using hit mv unfolding rename_node_def m by (simp add: with_path_def)
  next
    case (Some b)
    then have b: "disk_path_str b = path_str n" "backing_ok n b" using disk_path_backing ok(1) by (auto simp: node_ok_def)
    then have "move_path (length (path_of os)) (path_of nw) (dp_bytes b, dp_length b) =
        (path_array (path_of (nw @ ds)), length (path_of (nw @ ds)))"
      using ok(1) by (intro move) (auto simp: node_ok_def backing_ok_def)
    then show ?thesis using hit mv Some b(1) unfolding rename_node_def m by (simp add: with_path_def)
  qed
qed

lemma rename_node_keeps:
  assumes ok: "node_ok n" and g: "good_path os" "os \<noteq> []"
    and n: "\<not> named n \<and> nd_occupied n \<or> (\<exists>cs. node_bytes n = path_of cs \<and> good_path cs \<and> take (length os) cs \<noteq> os \<and> named n)"
  shows "rename_node (path_of os) (path_of nw) d n = n"
  using n
proof
  assume u: "\<not> named n \<and> nd_occupied n"
  then have "path_str n = []" "node_bytes n = []" "nd_backing n = None"
    using path_str_unnamed ok by (cases "nd_backing n"; auto simp: node_ok_def backing_ok_def node_bytes_def named_def)+
  then show ?thesis using path_of_not_Nil [of os, symmetric] by (simp add: rename_node_def node_matches_def unnamed_path)
next
  assume "\<exists>cs. node_bytes n = path_of cs \<and> good_path cs \<and> take (length os) cs \<noteq> os \<and> named n"
  then obtain cs where cs: "node_bytes n = path_of cs" "good_path cs" "take (length os) cs \<noteq> os" "named n" by blast
  have str: "path_str n = path_of cs" using cs ok by (simp add: path_str_def str_of_def node_ok_def)
  have "cs \<noteq> os @ ds" for ds using cs(3) by auto
  then have "path_of cs \<noteq> path_of os" "descendant_suffix (path_of os) (path_of cs) = None"
    unfolding path_of_inj [OF cs(2) g(1)] descendant_None [OF g cs(2)] using append_Nil2 by metis+
  then show ?thesis using disk_path_backing [OF ok] cs(1) str
    by (auto simp: rename_node_def node_matches_def split: option.splits)
qed

text \<open>The subtree of a file is the file itself.\<close>

lemma descendants_of_directory:
  assumes tree: "tree_ok ns" and i: "holds ns os i" and j: "good_path (os @ ds)" "holds ns (os @ ds) j" "ds \<noteq> []"
  shows "nd_kind (ns ! i) = Directory"
proof -
  obtain c es where ds: "ds = c # es" using j(3) by (cases ds) auto
  have pre: "\<exists>k. good_path (os @ [c]) \<and> holds ns (os @ [c]) k"
    using j(1,2) unfolding ds
  proof (induction es arbitrary: j rule: rev_induct)
    case (snoc e es)
    have p: "good_path ((os @ c # es) @ [e])" "holds ns ((os @ c # es) @ [e]) j" using snoc.prems by simp_all
    from tree p obtain k where "holds ns (os @ c # es) k" by (rule tree_parent)
    then show ?case using snoc.IH good_path_snoc [OF p(1)] by simp
  qed auto
  then obtain k where k: "good_path (os @ [c])" "holds ns (os @ [c]) k" by blast
  from tree k obtain m where m: "holds ns os m" "nd_kind (ns ! m) = Directory" by (rule tree_parent)
  then show ?thesis using tree_unique [OF tree good_path_snoc [OF k(1)] m(1) i] by simp
qed

text \<open>What \<open>validate_rename\<close> checks when the names differ.\<close>

definition can_move :: "Node list \<Rightarrow> bytes list \<Rightarrow> bytes list \<Rightarrow> nat \<Rightarrow> bool" where
  "can_move ns os nw i \<longleftrightarrow> good_path os \<and> good_path nw \<and> os \<noteq> [] \<and> nw \<noteq> [] \<and> holds ns os i \<and> (\<forall>j. \<not> holds ns nw j) \<and>
     take (length os) nw \<noteq> os \<and> (\<exists>k. holds ns (butlast nw) k \<and> nd_kind (ns ! k) = Directory) \<and>
     (\<forall>ds j. good_path (os @ ds) \<longrightarrow> holds ns (os @ ds) j \<longrightarrow> good_path (nw @ ds))"

lemma good_path_append:
  assumes "good_path (os @ ds)" "good_path nw" "nw \<noteq> []" "length (path_of nw) + length (join ds) \<le> MAX_PATH_SIZE"
  shows "good_path (nw @ ds)"
  using assms by (auto simp: good_path_def path_of_def)

lemma validate_rename_Inr:
  assumes tree: "tree_ok (nodes r)" and ok: "validate_rename old new r = Inr ()"
  obtains (same) "old = new" | (move) os nw i where "old = path_of os" "new = path_of nw" "old \<noteq> new" "can_move (nodes r) os nw i"
    "position (node_matches old) (nodes r) = Some i"
proof (cases "old = new")
  case False
  obtain i parent where i: "validate_absolute_path old = Inr ()" "validate_absolute_path new = Inr ()" "old \<noteq> root_path" "new \<noteq> root_path"
    "position (node_matches old) (nodes r) = Some i" "\<not> list_ex (node_matches new) (nodes r)" "descendant_suffix old new = None"
    "parent_path new = Some parent" "is_directory parent (nodes r)"
    and short: "nd_kind (nodes r ! i) = Directory \<longrightarrow> (\<forall>n\<in>set (nodes r). nd_occupied n \<longrightarrow> \<not> too_long old new (path_str n))"
    using ok False by (auto simp: validate_rename_def bindE_Inr ok_or_Inr Let_def list_ex_iff split: if_splits)
  obtain os where os: "good_path os" "old = path_of os" using i(1) by (rule validate_good)
  obtain nw where nw: "good_path nw" "new = path_of nw" using i(2) by (rule validate_good)
  have ne: "os \<noteq> []" "nw \<noteq> []" "os \<noteq> nw" using i(3,4) False os nw by (auto simp: path_of_def)
  obtain as a where na: "nw = as @ [a]" using ne(2) by (cases nw rule: rev_cases) auto
  have h: "holds (nodes r) os i" using position_matches i(5) os(2) by simp
  have "good_path (nw @ ds)" if d: "good_path (os @ ds)" "holds (nodes r) (os @ ds) j" for ds j
  proof (cases "ds = []")
    case False
    have "descendant_suffix old (path_str (nodes r ! j)) = Some (join ds)"
      using descendant_path [OF os(1) ne(1) d(1)] False path_str_holds [OF tree d(2)] os(2) by auto
    then have "length new + length (join ds) \<le> MAX_PATH_SIZE"
      using short descendants_of_directory [OF tree h d False] d(2) by (auto simp: holds_def too_long_def dest: nth_mem)
    then show ?thesis using good_path_append [OF d(1) nw(1) ne(2)] nw(2) by simp
  qed (simp add: nw)
  moreover have "take (length os) nw \<noteq> os"
    using i(7) descendant_None [OF os(1) ne(1) nw(1)] ne(3) os(2) nw(2) append_take_drop_id [of "length os" nw] by (metis append_Nil2)
  moreover have "\<exists>k. holds (nodes r) (butlast nw) k \<and> nd_kind (nodes r ! k) = Directory"
    using i(8,9) parent_path_of [of as a] nw na by (simp add: is_directory_holds)
  ultimately have "can_move (nodes r) os nw i"
    using os nw ne h i(6) list_ex_matches [of nw "nodes r"] by (simp add: can_move_def)
  with move os nw False i(5) show ?thesis by blast
qed (use same in blast)

definition renamed :: "bytes list \<Rightarrow> bytes list \<Rightarrow> nat \<Rightarrow> Node list \<Rightarrow> Node list" where
  "renamed os nw i ns = map (\<lambda>n. if nd_occupied n then rename_node (path_of os) (path_of nw) (nd_kind (ns ! i) = Directory) n else n) ns"

lemma length_renamed [simp]: "length (renamed os nw i ns) = length ns"
  by (simp add: renamed_def)

lemma renamed_moves:
  assumes tree: "tree_ok ns" and can: "can_move ns os nw i" and h: "good_path (os @ ds)" "holds ns (os @ ds) j"
  shows "renamed os nw i ns ! j = with_path (path_of (nw @ ds)) (ns ! j)" "good_path (nw @ ds)"
proof -
  show g: "good_path (nw @ ds)" using can h by (auto simp: can_move_def)
  have j: "j < length ns" "nd_occupied (ns ! j)" "node_bytes (ns ! j) = path_of (os @ ds)" using h(2) by (simp_all add: holds_def)
  have "rename_node (path_of os) (path_of nw) (nd_kind (ns ! i) = Directory) (ns ! j) = with_path (path_of (nw @ ds)) (ns ! j)"
  proof (rule rename_node_moves [OF tree_okD(2) [OF tree j(1)] holds_named [OF h(2)] j(3) g])
    show "os \<noteq> []" "nw \<noteq> []" using can by (simp_all add: can_move_def)
    show "nd_kind (ns ! i) = Directory" if "ds \<noteq> []"
      using descendants_of_directory [OF tree _ h that] can by (simp add: can_move_def)
  qed
  then show "renamed os nw i ns ! j = with_path (path_of (nw @ ds)) (ns ! j)" using j by (simp add: renamed_def)
qed

lemma renamed_keeps:
  assumes tree: "tree_ok ns" and can: "can_move ns os nw i" and j: "j < length ns"
    and n: "\<not> named (ns ! j) \<or> (\<exists>cs. good_path cs \<and> holds ns cs j \<and> take (length os) cs \<noteq> os)"
  shows "renamed os nw i ns ! j = ns ! j"
proof (cases "nd_occupied (ns ! j)")
  case True
  have "rename_node (path_of os) (path_of nw) (nd_kind (ns ! i) = Directory) (ns ! j) = ns ! j"
    using n True holds_named [of ns _ j] can
    by (intro rename_node_keeps [OF tree_okD(2) [OF tree j]]) (auto simp: can_move_def holds_def)
  then show ?thesis using j by (simp add: renamed_def)
qed (simp add: renamed_def j)

lemma renamed_named:
  assumes "tree_ok ns" "can_move ns os nw i" "good_path cs" "holds ns cs j"
  shows "good_path (moved os nw cs)" "holds (renamed os nw i ns) (moved os nw cs) j"
    "renamed os nw i ns ! j = (if take (length os) cs = os then with_path (path_of (moved os nw cs)) (ns ! j) else ns ! j)"
proof -
  have j: "j < length ns" "nd_occupied (ns ! j)" "node_bytes (ns ! j) = path_of cs" using assms(4) by (simp_all add: holds_def)
  have "good_path (moved os nw cs) \<and> holds (renamed os nw i ns) (moved os nw cs) j \<and>
    renamed os nw i ns ! j = (if take (length os) cs = os then with_path (path_of (moved os nw cs)) (ns ! j) else ns ! j)"
  proof (cases rule: moved_cases [of cs os nw])
    case (1 ds)
    then show ?thesis using renamed_moves [OF assms(1,2), of ds j] assms(3,4) j by (simp add: holds_def)
  next
    case 2
    have "renamed os nw i ns ! j = ns ! j" using renamed_keeps [OF assms(1,2) j(1)] assms(3,4) 2(1) by blast
    then show ?thesis using 2 assms(3,4) by (simp add: holds_def)
  qed
  then show "good_path (moved os nw cs)" "holds (renamed os nw i ns) (moved os nw cs) j"
    "renamed os nw i ns ! j = (if take (length os) cs = os then with_path (path_of (moved os nw cs)) (ns ! j) else ns ! j)" by blast+
qed

lemma holds_renamed:
  assumes tree: "tree_ok ns" and can: "can_move ns os nw i" and g: "good_path cs'" and h: "holds (renamed os nw i ns) cs' j"
  obtains cs where "good_path cs" "holds ns cs j" "cs' = moved os nw cs"
proof -
  have j: "j < length ns" using h by (simp add: holds_def)
  show ?thesis
  proof (cases "named (ns ! j)")
    case True
    with tree j obtain cs where cs: "good_path cs" "holds ns cs j" by (rule named_holds)
    note m = renamed_named [OF tree can cs]
    have "cs' = moved os nw cs" using m(1,2) g h path_of_inj by (simp add: holds_def)
    with that cs show ?thesis by blast
  next
    case False
    then have "renamed os nw i ns ! j = ns ! j" using renamed_keeps [OF tree can j] by blast
    then have "named (ns ! j)" using holds_named [OF h] by simp
    with False show ?thesis by blast
  qed
qed

lemma moved_inj:
  assumes tree: "tree_ok ns" and can: "can_move ns os nw i" and a: "good_path as" "holds ns as j" and b: "good_path bs" "holds ns bs k"
    and eq: "moved os nw as = moved os nw bs"
  shows "as = bs"
proof -
  have no: "cs \<noteq> nw @ ds" if "good_path cs" "holds ns cs l" for cs ds l
    using prefix_exists [OF tree, of nw ds] that can by (auto simp: can_move_def)
  show ?thesis
    using eq no [OF a] no [OF b] by (cases rule: moved_cases [of as os nw]; cases rule: moved_cases [of bs os nw]) auto
qed

lemma renamed_kind: "tree_ok ns \<Longrightarrow> can_move ns os nw i \<Longrightarrow> j < length ns \<Longrightarrow> nd_kind (renamed os nw i ns ! j) = nd_kind (ns ! j)"
  using renamed_named(3) [of ns os nw i _ j] renamed_keeps [of ns os nw i j] named_holds [of ns j] by (metis with_path_simps(1))

lemma renamed_ok:
  assumes tree: "tree_ok ns" and can: "can_move ns os nw i" and j: "j < length ns" and utf8: "is_utf8 (path_of os)" "is_utf8 (path_of nw)"
  shows "node_ok (renamed os nw i ns ! j)"
proof (cases "named (ns ! j)")
  case True
  with tree j obtain cs where cs: "good_path cs" "holds ns cs j" by (rule named_holds)
  note m = renamed_named [OF tree can cs]
  show ?thesis
  proof (cases "take (length os) cs = os")
    case True
    have ne: "os \<noteq> []" "nw \<noteq> []" using can by (simp_all add: can_move_def)
    from True have c: "cs = os @ drop (length os) cs" by (metis append_take_drop_id)
    have "is_utf8 (path_of cs)" using cs(2) True tree_okD(2) [OF tree j] \<open>named (ns ! j)\<close> by (simp add: node_ok_def holds_def)
    then have "is_utf8 (path_of os @ join (drop (length os) cs))" using c ne(1) by (metis append_is_Nil_conv join_simps(3) path_of_def)
    then have "is_utf8 (path_of nw @ join (drop (length os) cs))" using is_utf8_append utf8 by blast
    then have "is_utf8 (path_of (moved os nw cs))" using True ne(2) by (simp add: moved_def path_of_def)
    then show ?thesis using m True with_path_ok [OF tree_okD(2) [OF tree j] \<open>named (ns ! j)\<close> m(1)] by simp
  qed (use m(3) tree_okD(2) [OF tree j] in simp)
qed (use renamed_keeps [OF tree can j] tree_okD(2) [OF tree j] in simp)

lemma take_prefix: "take n xs = ys \<Longrightarrow> length ys = n \<Longrightarrow> take n (xs @ zs) = ys"
  by auto

lemma parent_moved:
  assumes tree: "tree_ok ns" and can: "can_move ns os nw i" and as: "good_path as" "holds ns as x" and eq: "moved os nw as = cs @ [c]"
  obtains bs j where "good_path bs" "holds ns bs j" "nd_kind (ns ! j) = Directory" "cs = moved os nw bs"
proof (cases rule: moved_cases [of as os nw])
  case (1 ds)
  show ?thesis
  proof (cases ds rule: rev_cases)
    case Nil
    then have nw: "nw = cs @ [c]" using 1 eq by simp
    obtain k where k: "holds ns cs k" "nd_kind (ns ! k) = Directory" using can nw by (auto simp: can_move_def)
    have "good_path cs" using can good_path_snoc [of cs c] nw by (simp add: can_move_def)
    moreover have "moved os nw cs = cs" using can take_prefix [of "length os" cs os "[c]"] nw by (auto simp: moved_def can_move_def)
    ultimately show ?thesis using that [OF _ k] by simp
  next
    case (snoc es e)
    then have p: "good_path ((os @ es) @ [e])" "holds ns ((os @ es) @ [e]) x" "cs = nw @ es" using 1 as eq by simp_all
    from tree p(1,2) obtain j where "holds ns (os @ es) j" "nd_kind (ns ! j) = Directory" by (rule tree_parent)
    then show ?thesis using that [of "os @ es" j] good_path_snoc [OF p(1)] p(3) by simp
  qed
next
  case 2
  then have p: "good_path (cs @ [c])" "holds ns (cs @ [c]) x" "take (length os) cs \<noteq> os"
    using as eq take_prefix [of "length os" cs os "[c]"] by auto
  from tree p(1,2) obtain j where "holds ns cs j" "nd_kind (ns ! j) = Directory" by (rule tree_parent)
  then show ?thesis using that [of cs j] good_path_snoc [OF p(1)] p(3) by (simp add: moved_def)
qed

lemma tree_renamed:
  assumes tree: "tree_ok ns" and can: "can_move ns os nw i" and utf8: "is_utf8 (path_of os)" "is_utf8 (path_of nw)"
  shows "tree_ok (renamed os nw i ns)"
proof (rule tree_okI)
  show "length (renamed os nw i ns) = MAX_VFS_NODES" using tree_okD(1) [OF tree] by simp
  show "node_ok (renamed os nw i ns ! j)" if "j < length (renamed os nw i ns)" for j using renamed_ok [OF tree can _ utf8] that by simp
  show "x = y" if g: "good_path cs" and x: "holds (renamed os nw i ns) cs x" and y: "holds (renamed os nw i ns) cs y" for cs x y
  proof -
    obtain as where as: "good_path as" "holds ns as x" "cs = moved os nw as" using tree can g x by (rule holds_renamed)
    obtain bs where bs: "good_path bs" "holds ns bs y" "cs = moved os nw bs" using tree can g y by (rule holds_renamed)
    have "as = bs" using moved_inj [OF tree can as(1,2) bs(1,2)] as(3) bs(3) by simp
    then show ?thesis using tree_unique [OF tree as(1,2)] bs(2) by simp
  qed
  have dir: "\<exists>j. holds (renamed os nw i ns) (moved os nw cs) j \<and> nd_kind (renamed os nw i ns ! j) = Directory"
    if "good_path cs" "holds ns cs j" "nd_kind (ns ! j) = Directory" for cs j
    using renamed_named(2) [OF tree can that(1,2)] renamed_kind [OF tree can, of j] that(2,3) by (auto simp: holds_def)
  have ne: "os \<noteq> []" "nw \<noteq> []" "take (length os) nw \<noteq> os" using can by (simp_all add: can_move_def)
  show "\<exists>j. holds (renamed os nw i ns) [] j \<and> nd_kind (renamed os nw i ns ! j) = Directory"
    using tree_okD(5) [OF tree] dir [of "[]"] ne(1) by auto
  show "\<exists>j. holds (renamed os nw i ns) cs j \<and> nd_kind (renamed os nw i ns ! j) = Directory"
    if g: "good_path (cs @ [c])" and x: "holds (renamed os nw i ns) (cs @ [c]) x" for cs c x
  proof -
    obtain as where as: "good_path as" "holds ns as x" "cs @ [c] = moved os nw as" using tree can g x by (rule holds_renamed)
    from tree can as(1,2) as(3) [symmetric] obtain bs j where "good_path bs" "holds ns bs j" "nd_kind (ns ! j) = Directory" "cs = moved os nw bs"
      by (rule parent_moved)
    with dir show ?thesis by blast
  qed
qed

lemma registry_rename_tree:
  assumes tree: "tree_ok (nodes r)" and utf8: "is_utf8 old" "is_utf8 new" and run: "registry_rename old new r = (q, r')"
  obtains (failed) e where "q = Inl e" "r' = r" "validate_rename old new r = Inl e"
  | (same) "q = Inr ()" "r' = r" "old = new" "validate_rename old new r = Inr ()"
  | (moved) os nw i where "q = Inr ()" "old = path_of os" "new = path_of nw" "can_move (nodes r) os nw i"
      "r' = r\<lparr>nodes := renamed os nw i (nodes r)\<rparr>" "tree_ok (nodes r')"
proof (cases "validate_rename old new r")
  case (Inl e)
  then have "registry_rename old new r = (Inl e, r)" by (simp add: registry_rename_def bindS_def thenS_def getS_def liftS_def)
  then show ?thesis using run that(1) Inl by simp
next
  case (Inr u)
  then have ok: "validate_rename old new r = Inr ()" by simp
  from tree ok show ?thesis
  proof (cases rule: validate_rename_Inr)
    case same
    then have "registry_rename old new r = (Inr (), r)" using ok
      by (simp add: registry_rename_def bindS_def thenS_def getS_def liftS_def retS_def)
    then show ?thesis using run same ok that(2) by simp
  next
    case (move os nw i)
    have "registry_rename old new r = (Inr (), r\<lparr>nodes := renamed os nw i (nodes r)\<rparr>)"
      using ok move(3,5) unfolding move(1,2)
      by (simp add: registry_rename_def bindS_def thenS_def getS_def liftS_def modS_def renamed_def)
    then have "q = Inr ()" "r' = r\<lparr>nodes := renamed os nw i (nodes r)\<rparr>" using run by simp_all
    then show ?thesis using that(3) [OF _ move(1,2,4)] tree_renamed [OF tree move(4)] utf8 unfolding move(1,2) by simp
  qed
qed

end
