(* ===== verification/Vfs_Invariant.thy ===== *)
theory Vfs_Invariant
  imports Vfs_Tree
begin

text \<open>
  The file system as a whole: in every history of its operations the names form a tree, every
  descriptor refers to a live file, and a removed file lives exactly as long as it is open.
\<close>

section \<open>The invariant\<close>

definition desc_ok :: "Registry \<Rightarrow> OpenFileTable \<Rightarrow> bool" where
  "desc_ok r t \<longleftrightarrow> length t = MAX_OPEN_FILES \<and> (\<forall>i<length t. of_occupied (t ! i) \<longrightarrow> of_refcount (t ! i) \<noteq> 0 \<and>
     of_node (t ! i) < MAX_VFS_NODES \<and> nd_occupied (nodes r ! of_node (t ! i)) \<and> nd_kind (nodes r ! of_node (t ! i)) = File \<and>
     generations r ! of_node (t ! i) = of_generation (t ! i))"

text \<open>A node that lost its name is open, or its generation counter is used up.\<close>

definition orphans_ok :: "Registry \<Rightarrow> OpenFileTable \<Rightarrow> bool" where
  "orphans_ok r t \<longleftrightarrow> (\<forall>j<MAX_VFS_NODES. nd_occupied (nodes r ! j) \<longrightarrow> \<not> named (nodes r ! j) \<longrightarrow>
     node_open j t \<or> generations r ! j = - 1)"

definition reg_ok :: "Registry \<Rightarrow> bool" where
  "reg_ok r \<longleftrightarrow> tree_ok (nodes r) \<and> length (generations r) = MAX_VFS_NODES \<and> length (versions r) = MAX_VFS_NODES"

definition vfs_inv :: "'d Vfs \<Rightarrow> bool" where
  "vfs_inv s \<longleftrightarrow> reg_ok (registry s) \<and> desc_ok (registry s) (open_files s) \<and> orphans_ok (registry s) (open_files s)"

lemma node_open_iff: "node_open j t \<longleftrightarrow> (\<exists>i<length t. of_occupied (t ! i) \<and> of_node (t ! i) = j)"
  by (auto simp: node_open_def list_ex_length)

lemma desc_okD:
  assumes "desc_ok r t" "i < length t" "of_occupied (t ! i)"
  shows "of_refcount (t ! i) \<noteq> 0" "of_node (t ! i) < MAX_VFS_NODES" "nd_occupied (nodes r ! of_node (t ! i))"
    "nd_kind (nodes r ! of_node (t ! i)) = File" "generations r ! of_node (t ! i) = of_generation (t ! i)"
  using assms by (simp_all add: desc_ok_def)

lemma reg_okD:
  assumes "reg_ok r"
  shows "tree_ok (nodes r)" "length (nodes r) = MAX_VFS_NODES" "length (generations r) = MAX_VFS_NODES"
    "length (versions r) = MAX_VFS_NODES"
  using assms tree_okD(1) by (auto simp: reg_ok_def)

lemma vfs_invD:
  assumes "vfs_inv s"
  shows "reg_ok (registry s)" "desc_ok (registry s) (open_files s)" "orphans_ok (registry s) (open_files s)"
  using assms by (simp_all add: vfs_inv_def)

text \<open>A change of the registry that keeps every occupied node and its identity.\<close>

definition reg_ext :: "Registry \<Rightarrow> Registry \<Rightarrow> bool" where
  "reg_ext r r' \<longleftrightarrow> reg_ok r' \<and> (\<forall>j<MAX_VFS_NODES.
     (nd_occupied (nodes r ! j) \<longrightarrow> nd_occupied (nodes r' ! j) \<and> nd_kind (nodes r' ! j) = nd_kind (nodes r ! j) \<and>
        generations r' ! j = generations r ! j \<and> (named (nodes r ! j) \<longrightarrow> named (nodes r' ! j))) \<and>
     (\<not> nd_occupied (nodes r ! j) \<longrightarrow> nd_occupied (nodes r' ! j) \<longrightarrow> named (nodes r' ! j)))"

lemma reg_ext_desc: "desc_ok r t \<Longrightarrow> reg_ext r r' \<Longrightarrow> desc_ok r' t"
  unfolding desc_ok_def reg_ext_def by (metis (no_types, lifting))

lemma reg_ext_orphans: "orphans_ok r t \<Longrightarrow> reg_ext r r' \<Longrightarrow> orphans_ok r' t"
  unfolding orphans_ok_def reg_ext_def by (metis (no_types, lifting))

lemma inv_registry: "vfs_inv s \<Longrightarrow> reg_ext (registry s) r' \<Longrightarrow> vfs_inv (s\<lparr>registry := r'\<rparr>)"
  using reg_ext_desc reg_ext_orphans by (auto simp: vfs_inv_def reg_ext_def)

lemma inv_other: "vfs_inv s \<Longrightarrow> vfs_inv (s\<lparr>file_frames := fs\<rparr>)" "vfs_inv s \<Longrightarrow> vfs_inv (s\<lparr>disk := d\<rparr>)"
  by (simp_all add: vfs_inv_def)

lemma reg_ext_refl: "reg_ok r \<Longrightarrow> reg_ext r r"
  by (simp add: reg_ext_def)

lemma reg_ext_trans: "reg_ext r r' \<Longrightarrow> reg_ext r' r'' \<Longrightarrow> reg_ext r r''"
  unfolding reg_ext_def by metis

text \<open>Changing the contents of a node.\<close>

lemma reg_ext_same_name:
  assumes r: "reg_ok r" and i: "i < MAX_VFS_NODES" and n: "same_name (nodes r ! i) n" "node_ok n" and v: "length vs = MAX_VFS_NODES"
  shows "reg_ext r (r\<lparr>nodes := (nodes r)[i := n], versions := vs\<rparr>)"
proof -
  have "tree_ok ((nodes r)[i := n])" using tree_same_name [OF reg_okD(1) [OF r] _ n] i reg_okD(2) [OF r] by simp
  then show ?thesis using r n(1) v i reg_okD(2) [OF r]
    by (auto simp: reg_ext_def reg_ok_def nth_list_update same_name_def named_def)
qed

lemma reg_ext_occupies:
  assumes r: "reg_ok r" and n: "occupies (nodes r) (nodes r') p i n" and t: "tree_ok (nodes r')" and r': "r' = r\<lparr>nodes := nodes r'\<rparr>"
  shows "reg_ext r r'"
proof -
  have g: "generations r' = generations r" "versions r' = versions r" by (subst r', simp)+
  show ?thesis using n t r g by (auto simp: reg_ext_def reg_ok_def occupies_def nth_list_update named_def)
qed

section \<open>Operations that keep every node\<close>

lemma on_registry_eq: "on_registry m s = (q, s') \<longleftrightarrow> (\<exists>r'. m (registry s) = (q, r') \<and> s' = s\<lparr>registry := r'\<rparr>)"
  by (auto simp: on_registry_def split: prod.splits)

lemma on_open_files_eq: "on_open_files m s = (q, s') \<longleftrightarrow> (\<exists>t. m (open_files s) = (q, t) \<and> s' = s\<lparr>open_files := t\<rparr>)"
  by (auto simp: on_open_files_def split: prod.splits)

lemma reg_ext_insert:
  assumes "reg_ok r" "is_utf8 p" "registry_insert p data w r = (q, r')"
  shows "reg_ext r r'"
  using reg_okD(1) [OF assms(1)] assms(2,3)
proof (cases rule: registry_insert_tree)
  case (inserted i n)
  then show ?thesis using reg_ext_occupies [OF assms(1)] by blast
qed (simp add: reg_ext_refl assms(1))

lemma reg_ext_mkdir:
  assumes "reg_ok r" "is_utf8 p" "registry_mkdir p r = (q, r')"
  shows "reg_ext r r'"
  using reg_okD(1) [OF assms(1)] assms(2,3)
proof (cases rule: registry_mkdir_tree)
  case (made i n)
  then show ?thesis using reg_ext_occupies [OF assms(1)] by blast
qed (simp add: reg_ext_refl assms(1))

lemma reg_ext_rename:
  assumes r: "reg_ok r" and "is_utf8 old" "is_utf8 new" "registry_rename old new r = (q, r')"
  shows "reg_ext r r'"
  using reg_okD(1) [OF r] assms(2-4)
proof (cases rule: registry_rename_tree)
  case (moved os nw i)
  have t: "tree_ok (nodes r)" using r by (rule reg_okD(1))
  have "nd_occupied (nodes r' ! j) = nd_occupied (nodes r ! j) \<and> nd_kind (nodes r' ! j) = nd_kind (nodes r ! j) \<and>
      (named (nodes r ! j) \<longrightarrow> named (nodes r' ! j))" if j: "j < MAX_VFS_NODES" for j
  proof (cases "named (nodes r ! j)")
    case True
    then obtain cs where cs: "good_path cs" "holds (nodes r) cs j" using t j reg_okD(2) [OF r] by (metis named_holds)
    note m = renamed_named [OF t moved(4) cs]
    show ?thesis using m(3) holds_named [OF m(2)] moved(5) by (auto simp: named_def split: if_splits)
  next
    case False
    then show ?thesis using renamed_keeps [OF t moved(4)] j reg_okD(2) [OF r] moved(5) by simp
  qed
  then show ?thesis using moved r by (simp add: reg_ext_def reg_ok_def)
qed (simp_all add: reg_ext_refl r)

lemma inv_create:
  assumes "vfs_inv s" "is_utf8 p"
  shows "create_read_only p data s = (q, s') \<Longrightarrow> vfs_inv s'" "vfs_mkdir p s = (q, s') \<Longrightarrow> vfs_inv s'"
    "is_utf8 p' \<Longrightarrow> vfs_rename p p' s = (q, s') \<Longrightarrow> vfs_inv s'"
  using assms inv_registry [OF assms(1)] vfs_invD(1) [OF assms(1)] reg_ext_insert reg_ext_mkdir reg_ext_rename
  by (auto simp: create_read_only_def vfs_mkdir_def vfs_rename_def thenS_def bindS_def on_registry_eq retS_def
      split: prod.splits sum.splits) 

lemma inv_create_disk:
  assumes inv: "vfs_inv s" and p: "is_utf8 p" and run: "create_disk_file_with_writable p len w s = (q, s')"
  shows "vfs_inv s'"
proof (cases "len \<le> NODE_CAPACITY")
  case True
  note r = vfs_invD(1) [OF inv]
  obtain a r1 where a: "registry_insert p [] w (registry s) = (a, r1)" by force
  have ext: "reg_ext (registry s) r1" using reg_ext_insert [OF r p a] .
  show ?thesis
    using reg_okD(1) [OF r] p a
  proof (cases rule: registry_insert_tree)
    case failed
    then show ?thesis using run True a inv
      by (auto simp: create_disk_file_with_writable_def thenS_def bindS_def guardS_def on_registry_def)
  next
    case (inserted i n)
    define b where "b = \<lparr>dp_bytes = copy_at (replicate MAX_PATH_SIZE 0) 0 p, dp_length = length p\<rparr>"
    have s': "s' = s\<lparr>registry := r1\<lparr>nodes := (nodes r1)[i := n\<lparr>nd_backing := Some b, nd_length := len\<rparr>]\<rparr>\<rparr>"
      using run True a inserted(1,3)
      by (auto simp: create_disk_file_with_writable_def thenS_def bindS_def guardS_def on_registry_def modS_def b_def occupies_def)
    have i: "i < MAX_VFS_NODES" "nodes r1 ! i = n" using inserted(3) reg_okD(2) [OF r] by (auto simp: occupies_def)
    have n: "node_ok n" "named n" "node_bytes n = p" "nd_path_length n = length p" using inserted(3) by (auto simp: occupies_def)
    have "length p \<le> MAX_PATH_SIZE" using n(1,4) by (simp add: node_ok_def)
    then have "backing_ok (n\<lparr>nd_backing := Some b, nd_length := len\<rparr>) b"
      using n inserted(4) by (simp add: backing_ok_def b_def take_copy_at_0 node_bytes_def named_def)
    then have "node_ok (n\<lparr>nd_backing := Some b, nd_length := len\<rparr>)"
      using n True by (auto simp: node_ok_def named_def node_bytes_def)
    moreover have "reg_ok r1" using ext by (simp add: reg_ext_def)
    ultimately have "reg_ext r1 (r1\<lparr>nodes := (nodes r1)[i := n\<lparr>nd_backing := Some b, nd_length := len\<rparr>], versions := versions r1\<rparr>)"
      using i by (intro reg_ext_same_name) (auto simp: same_name_def reg_ok_def)
    then show ?thesis using inv_registry [OF inv reg_ext_trans [OF ext]] s' by simp
  qed
qed (use run inv in \<open>simp add: create_disk_file_with_writable_def thenS_def bindS_def guardS_def\<close>)

section \<open>Contents\<close>

text \<open>The storage layer fills the buffer it is given.\<close>

definition reader_ok :: "'d reader \<Rightarrow> bool" where
  "reader_ok rdf \<longleftrightarrow> (\<forall>p off buf d. length (fst (snd (rdf p off buf d))) = length buf)"

lemma contents_simps [simp]:
  "named (nd_data_update f n) = named n" "named (nd_backing_update g n) = named n" "named (nd_length_update h n) = named n"
  "named (nd_writable_update k n) = named n" "node_bytes (nd_data_update f n) = node_bytes n"
  "node_bytes (nd_backing_update g n) = node_bytes n" "node_bytes (nd_length_update h n) = node_bytes n"
  "node_bytes (nd_writable_update k n) = node_bytes n"
  by (simp_all add: named_def node_bytes_def)

lemma backing_ok_contents [simp]:
  "backing_ok (nd_data_update f n) b = backing_ok n b" "backing_ok (nd_backing_update g n) b = backing_ok n b"
  "backing_ok (nd_length_update h n) b = backing_ok n b" "backing_ok (nd_writable_update k n) b = backing_ok n b"
  by (simp_all add: backing_ok_def)

lemma node_ok_contents:
  assumes "node_ok n" "length dat = NODE_CAPACITY" "m \<le> NODE_CAPACITY" "b = nd_backing n \<or> b = None"
  shows "node_ok (n\<lparr>nd_data := dat, nd_backing := b, nd_length := m, nd_writable := w\<rparr>)"
  using assms by (elim disjE) (simp_all add: node_ok_def)

lemma materialize_node:
  assumes rdf: "reader_ok rdf" and n: "node_ok n" and run: "materialize_disk_node rdf n d = (q, n', d')"
  shows "same_name n n'" "node_ok n'" "nd_length n' = nd_length n" "nd_writable n' = nd_writable n"
    "q = Inr () \<Longrightarrow> nd_backing n' = None"
proof -
  have "same_name n n' \<and> node_ok n' \<and> nd_length n' = nd_length n \<and> nd_writable n' = nd_writable n \<and> (q = Inr () \<longrightarrow> nd_backing n' = None)"
  proof (cases "nd_backing n")
    case None
    then show ?thesis using run n by (auto simp: materialize_disk_node_def same_name_def)
  next
    case (Some b)
    obtain c out e where r: "rdf (disk_path_str b) 0 (take (nd_length n) (nd_data n)) d = (c, out, e)" by (metis prod_cases3)
    have "length out = nd_length n"
      using rdf [unfolded reader_ok_def, rule_format, of "disk_path_str b" 0 "take (nd_length n) (nd_data n)" d] r n
      by (simp add: node_ok_def)
    then have l: "length (copy_at (nd_data n) 0 out) = NODE_CAPACITY" using n by (simp add: node_ok_def)
    have ok: "node_ok (n\<lparr>nd_data := copy_at (nd_data n) 0 out\<rparr>)" "node_ok (n\<lparr>nd_data := copy_at (nd_data n) 0 out, nd_backing := None\<rparr>)"
      using n l by (simp_all add: node_ok_def)
    show ?thesis using run Some r ok
      by (cases c) (auto simp: materialize_disk_node_def same_name_def Let_def split: if_splits)
  qed
  then show "same_name n n'" "node_ok n'" "nd_length n' = nd_length n" "nd_writable n' = nd_writable n"
    "q = Inr () \<Longrightarrow> nd_backing n' = None" by blast+
qed

lemma reg_ext_node:
  assumes "reg_ok r" "i < MAX_VFS_NODES" "same_name (nodes r ! i) n" "node_ok n"
  shows "reg_ext r (r\<lparr>nodes := (nodes r)[i := n]\<rparr>)" "reg_ext r (bump_version i (r\<lparr>nodes := (nodes r)[i := n]\<rparr>))"
  using reg_ext_same_name [OF assms, of "versions r"] reg_ext_same_name [OF assms, of "(versions r)[i := versions r ! i + 1]"]
    reg_okD(4) [OF assms(1)] by (simp_all add: bump_version_def)

lemma reg_node_ok: "reg_ok r \<Longrightarrow> i < MAX_VFS_NODES \<Longrightarrow> node_ok (nodes r ! i)"
  using tree_okD(2) [of "nodes r" i] reg_okD(1,2) by simp

lemma inv_materialize:
  assumes rdf: "reader_ok rdf" and inv: "vfs_inv s" and i: "i < MAX_VFS_NODES" and run: "materialize rdf i s = (q, s')"
  obtains n d where "s' = s\<lparr>registry := (registry s)\<lparr>nodes := (nodes (registry s))[i := n]\<rparr>, disk := d\<rparr>" "vfs_inv s'"
    "same_name (nodes (registry s) ! i) n" "node_ok n" "nd_length n = nd_length (nodes (registry s) ! i)"
    "nd_writable n = nd_writable (nodes (registry s) ! i)" "q = Inr () \<longrightarrow> nd_backing n = None"
proof -
  note r = vfs_invD(1) [OF inv]
  obtain a n d where a: "materialize_disk_node rdf (nodes (registry s) ! i) (disk s) = (a, n, d)" by (metis prod_cases3)
  note m = materialize_node [OF rdf reg_node_ok [OF r i] a]
  have s': "q = a" "s' = s\<lparr>registry := (registry s)\<lparr>nodes := (nodes (registry s))[i := n]\<rparr>, disk := d\<rparr>"
    using run a by (auto simp: materialize_def)
  have "vfs_inv s'" unfolding s'(2) by (rule inv_other(2) [OF inv_registry [OF inv reg_ext_node(1) [OF r i m(1,2)]]])
  with that s' m show ?thesis by blast
qed

lemma open_get_entry:
  assumes "vfs_inv s" "open_get i (open_files s) = Inr e"
  shows "i < length (open_files s)" "open_files s ! i = e" "of_occupied e" "of_node e < MAX_VFS_NODES"
    "nd_occupied (nodes (registry s) ! of_node e)" "nd_kind (nodes (registry s) ! of_node e) = File"
    "generations (registry s) ! of_node e = of_generation e"
  using assms(2) desc_okD [OF vfs_invD(2) [OF assms(1)], of i] by (auto simp: open_get_def split: if_splits)

lemma inv_entry:
  assumes inv: "vfs_inv s" and i: "i < length (open_files s)" and same: "of_node e = of_node (open_files s ! i)"
    "of_generation e = of_generation (open_files s ! i)" "of_occupied e = of_occupied (open_files s ! i)" "of_refcount e \<noteq> 0"
  shows "vfs_inv (s\<lparr>open_files := (open_files s)[i := e]\<rparr>)"
proof -
  have "desc_ok (registry s) ((open_files s)[i := e])"
    using vfs_invD(2) [OF inv] i same by (auto simp: desc_ok_def nth_list_update)
  moreover have "node_open j ((open_files s)[i := e]) = node_open j (open_files s)" for j
    using i same by (auto simp: node_open_iff nth_list_update)
  ultimately show ?thesis using inv by (simp add: vfs_inv_def orphans_ok_def)
qed

lemma inv_set_offset: "vfs_inv s \<Longrightarrow> open_get i (open_files s) = Inr e \<Longrightarrow> vfs_inv (set_offset i off s)"
  using inv_entry [of s i "(open_files s ! i)\<lparr>of_offset := off\<rparr>"] open_get_entry [of s i e] desc_okD(1) [OF vfs_invD(2), of s i]
  by (simp add: set_offset_def)

section \<open>Every operation keeps the invariant\<close>

lemma io_cases:
  "bindS m f s = (q, s') \<Longrightarrow> (\<And>e. m s = (Inl e, s') \<Longrightarrow> q = Inl e \<Longrightarrow> P) \<Longrightarrow> (\<And>a t. m s = (Inr a, t) \<Longrightarrow> f a t = (q, s') \<Longrightarrow> P) \<Longrightarrow> P"
  "thenS m k s = (q, s') \<Longrightarrow> (\<And>e. m s = (Inl e, s') \<Longrightarrow> q = Inl e \<Longrightarrow> P) \<Longrightarrow> (\<And>a t. m s = (Inr a, t) \<Longrightarrow> k t = (q, s') \<Longrightarrow> P) \<Longrightarrow> P"
  by (auto simp: thenS_def bindS_def split: prod.splits sum.splits)

lemma position_matches_bound: "vfs_inv s \<Longrightarrow> position P (nodes (registry s)) = Some i \<Longrightarrow> i < MAX_VFS_NODES"
  using position_SomeD(1) [of P "nodes (registry s)" i] reg_okD(2) [OF vfs_invD(1), of s] by simp

lemma inv_write_file:
  assumes inv: "vfs_inv s" and p: "is_utf8 p" and run: "vfs_write_file p data s = (q, s')"
  shows "vfs_inv s'"
proof (cases "validate_absolute_path p = Inr () \<and> length data \<le> NODE_CAPACITY")
  case ok: True
  note r = vfs_invD(1) [OF inv]
  show ?thesis
  proof (cases "position (node_matches p) (nodes (registry s))")
    case None
    obtain a r' where a: "registry_insert p data True (registry s) = (a, r')" by force
    then have "s' = s\<lparr>registry := r'\<rparr>" using run ok None
      by (auto simp: vfs_write_file_def thenS_def bindS_def liftS_def guardS_def getS_def on_registry_def retS_def split: sum.splits)
    then show ?thesis using inv_registry [OF inv reg_ext_insert [OF r p a]] by simp
  next
    case (Some i)
    note i = position_matches_bound [OF inv Some]
    define n where "n = (nodes (registry s) ! i)\<lparr>nd_backing := None, nd_data := copy_at (replicate NODE_CAPACITY 0) 0 data, nd_length := length data\<rparr>"
    have "node_ok n" using reg_node_ok [OF r i] ok by (simp add: node_ok_def n_def)
    then have ext: "reg_ext (registry s) (bump_version i ((registry s)\<lparr>nodes := (nodes (registry s))[i := n]\<rparr>))"
      using reg_ext_node(2) [OF r i, of n] by (simp add: same_name_def n_def)
    have "s' = s \<or> (\<exists>fs. s' = s\<lparr>registry := bump_version i ((registry s)\<lparr>nodes := (nodes (registry s))[i := n]\<rparr>), file_frames := fs\<rparr>)"
      using run ok Some unfolding n_def
      by (auto simp: vfs_write_file_def thenS_def bindS_def liftS_def guardS_def getS_def modS_def split: if_splits)
    then show ?thesis using inv inv_other(1) [OF inv_registry [OF inv ext]] by auto
  qed
next
  case False
  then have "s' = s" using run
    by (cases "validate_absolute_path p") (auto simp: vfs_write_file_def thenS_def bindS_def liftS_def guardS_def)
  then show ?thesis using inv by simp
qed

lemma get_entry_cases:
  assumes "get_entry i s = (q, s')"
  shows "s' = s" "q = open_get i (open_files s)"
  using assms by (auto simp: get_entry_def bindS_def getS_def)

lemmas io_unfold = thenS_def bindS_def liftS_def guardS_def getS_def modS_def retS_def

lemma inv_prepare_remove:
  assumes rdf: "reader_ok rdf" and inv: "vfs_inv s" and run: "prepare_remove rdf p s = (q, s')"
  shows "vfs_inv s'"
proof -
  have "s' = s \<or> (\<exists>i q. position (node_matches p) (nodes (registry s)) = Some i \<and> materialize rdf i s = (q, s'))"
    using run unfolding prepare_remove_def io_unfold ok_or_def
    by (auto split: sum.splits option.splits if_splits)
  then show ?thesis
  proof
    assume "\<exists>i q. position (node_matches p) (nodes (registry s)) = Some i \<and> materialize rdf i s = (q, s')"
    then obtain i q where i: "position (node_matches p) (nodes (registry s)) = Some i" "materialize rdf i s = (q, s')" by blast
    from rdf inv position_matches_bound [OF inv i(1)] i(2) show ?thesis by (rule inv_materialize)
  qed (simp add: inv)
qed

text \<open>Removing an open file only takes its name.\<close>

lemma inv_unname:
  assumes inv: "vfs_inv s" and h: "holds (nodes (registry s)) cs i" "good_path cs"
    and f: "nd_kind (nodes (registry s) ! i) = File" "nd_backing (nodes (registry s) ! i) = None" and o: "node_open i (open_files s)"
  shows "vfs_inv (s\<lparr>registry := (registry s)\<lparr>nodes := (nodes (registry s))[i := (nodes (registry s) ! i)\<lparr>nd_path_length := 0,
    nd_path := replicate MAX_PATH_SIZE 0\<rparr>]\<rparr>\<rparr>)"
proof -
  note r = vfs_invD(1) [OF inv]
  define n where "n = (nodes (registry s) ! i)\<lparr>nd_path_length := 0, nd_path := replicate MAX_PATH_SIZE 0\<rparr>"
  have i: "i < MAX_VFS_NODES" using h(1) reg_okD(2) [OF r] by (simp add: holds_def)
  have "cs \<noteq> []"
    using tree_okD(5) [OF reg_okD(1) [OF r]] tree_unique [OF reg_okD(1) [OF r] h(2,1)] f(1) by auto
  moreover have "node_ok n" "\<not> named n" using reg_node_ok [OF r i] f h(1) by (simp_all add: node_ok_def n_def named_def holds_def)
  ultimately have t: "tree_ok ((nodes (registry s))[i := n])" using tree_unname [OF reg_okD(1) [OF r] h] f(1) by simp
  have "desc_ok ((registry s)\<lparr>nodes := (nodes (registry s))[i := n]\<rparr>) (open_files s)"
    using vfs_invD(2) [OF inv] i reg_okD(2) [OF r] by (auto simp: desc_ok_def nth_list_update n_def)
  moreover have "orphans_ok ((registry s)\<lparr>nodes := (nodes (registry s))[i := n]\<rparr>) (open_files s)"
    using vfs_invD(3) [OF inv] i o reg_okD(2) [OF r] by (auto simp: orphans_ok_def nth_list_update)
  ultimately show ?thesis using r t unfolding vfs_inv_def n_def [symmetric] by (simp add: reg_ok_def)
qed

text \<open>Freeing a node that no descriptor refers to.\<close>

lemma inv_free:
  assumes r: "reg_ok (registry s)" and d: "desc_ok (registry s) (open_files s)" and i: "i < MAX_VFS_NODES"
    and closed: "\<not> node_open i (open_files s)" and n: "\<not> nd_occupied n" and t: "tree_ok ((nodes (registry s))[i := n])"
    and o: "\<And>j. j < MAX_VFS_NODES \<Longrightarrow> j \<noteq> i \<Longrightarrow> nd_occupied (nodes (registry s) ! j) \<Longrightarrow> \<not> named (nodes (registry s) ! j) \<Longrightarrow>
      node_open j (open_files s) \<or> generations (registry s) ! j = - 1"
  shows "vfs_inv (s\<lparr>registry := (registry s)\<lparr>nodes := (nodes (registry s))[i := n], generations := (generations (registry s))[i := g]\<rparr>\<rparr>)"
proof -
  define r' where "r' = (registry s)\<lparr>nodes := (nodes (registry s))[i := n], generations := (generations (registry s))[i := g]\<rparr>"
  have ne: "i \<noteq> of_node (open_files s ! k)" if "k < length (open_files s)" "of_occupied (open_files s ! k)" for k
    using closed that by (auto simp: node_open_iff)
  have "nodes r' ! of_node (open_files s ! k) = nodes (registry s) ! of_node (open_files s ! k) \<and>
      generations r' ! of_node (open_files s ! k) = generations (registry s) ! of_node (open_files s ! k)"
    if "k < length (open_files s)" "of_occupied (open_files s ! k)" for k
    using ne [OF that] by (simp add: r'_def)
  then have "desc_ok r' (open_files s)" using d by (simp add: desc_ok_def)
  moreover have "orphans_ok r' (open_files s)"
    using o n i reg_okD(2) [OF r] by (auto simp: orphans_ok_def nth_list_update r'_def)
  ultimately show ?thesis using r t unfolding r'_def [symmetric] by (simp add: vfs_inv_def reg_ok_def) (simp add: r'_def)
qed

lemma node_open_file:
  assumes "vfs_inv s" "node_open i (open_files s)"
  shows "nd_kind (nodes (registry s) ! i) = File" "nd_occupied (nodes (registry s) ! i)" "i < MAX_VFS_NODES"
  using assms desc_okD [OF vfs_invD(2) [OF assms(1)]] by (auto simp: node_open_iff)

definition unnamed_node :: "nat \<Rightarrow> 'd Vfs \<Rightarrow> 'd Vfs" where
  "unnamed_node i s = s\<lparr>registry := (registry s)\<lparr>nodes := (nodes (registry s))[i := (nodes (registry s) ! i)\<lparr>nd_path_length := 0,
     nd_path := replicate MAX_PATH_SIZE 0\<rparr>]\<rparr>\<rparr>"

lemma vfs_remove_cases:
  assumes inv: "vfs_inv s" and run: "vfs_remove rdf p s = (q, s')"
  obtains (failed) e where "s' = s" "q = Inl e"
  | (kept) cs i a t where "good_path cs" "p = path_of cs" "holds (nodes (registry s)) cs i" "nd_kind (nodes (registry s) ! i) = File"
      "node_open i (open_files s)" "materialize rdf i s = (a, t)" "q = a" "s' = (case a of Inl e \<Rightarrow> t | Inr u \<Rightarrow> unnamed_node i t)"
  | (closed) cs i where "good_path cs" "p = path_of cs" "holds (nodes (registry s)) cs i" "\<not> node_open i (open_files s)"
      "registry_remove p (registry s) = (q, registry s')" "s' = s\<lparr>registry := registry s'\<rparr>"
proof (cases "\<exists>i. validate_absolute_path p = Inr () \<and> position (node_matches p) (nodes (registry s)) = Some i")
  case True
  then obtain i where v: "validate_absolute_path p = Inr ()" and i: "position (node_matches p) (nodes (registry s)) = Some i" by blast
  obtain cs where cs: "good_path cs" "p = path_of cs" using v by (rule validate_good)
  have h: "holds (nodes (registry s)) cs i" using position_matches i cs(2) by simp
  show ?thesis
  proof (cases "nd_kind (nodes (registry s) ! i) = File \<and> node_open i (open_files s)")
    case keep: True
    obtain a t where a: "materialize rdf i s = (a, t)" by force
    have "q = a" "s' = (case a of Inl e \<Rightarrow> t | Inr u \<Rightarrow> unnamed_node i t)"
      using run v i keep a by (auto simp: vfs_remove_def io_unfold on_registry_def unnamed_node_def split: sum.splits)
    then show ?thesis using that(2) [OF cs h _ _ a] keep by blast
  next
    case False
    then have rr: "registry_remove p (registry s) = (q, registry s')" "s' = s\<lparr>registry := registry s'\<rparr>"
      using run v i by (auto simp: vfs_remove_def io_unfold on_registry_def split: prod.splits)
    show ?thesis using that(3) [OF cs h _ rr] False node_open_file(1) [OF inv] by blast
  qed
next
  case False
  then obtain e where "vfs_remove rdf p s = (Inl e, s)"
    by (cases "validate_absolute_path p"; cases "position (node_matches p) (nodes (registry s))") (simp_all add: vfs_remove_def io_unfold)
  then show ?thesis using run that(1) by simp
qed

lemma inv_remove:
  assumes rdf: "reader_ok rdf" and inv: "vfs_inv s" and run: "vfs_remove rdf p s = (q, s')"
  shows "vfs_inv s'"
  using inv run
proof (cases rule: vfs_remove_cases)
  case (kept cs i a t)
  have il: "i < length (nodes (registry s))" using kept(3) by (simp add: holds_def)
  from rdf inv _ kept(6) obtain n d where t: "t = s\<lparr>registry := (registry s)\<lparr>nodes := (nodes (registry s))[i := n]\<rparr>, disk := d\<rparr>" "vfs_inv t"
    "same_name (nodes (registry s) ! i) n" "a = Inr () \<longrightarrow> nd_backing n = None"
    by (rule inv_materialize) (use il reg_okD(2) [OF vfs_invD(1) [OF inv]] in simp)
  have ht: "holds (nodes (registry t)) cs i" "nd_kind (nodes (registry t) ! i) = File" "node_open i (open_files t)"
    using kept(3-5) holds_same_name [OF il t(3)] t(1) by simp_all
  show ?thesis
  proof (cases a)
    case (Inr u)
    then have "nd_backing (nodes (registry t) ! i) = None" using t(1,4) il by simp
    then show ?thesis using inv_unname [OF t(2) ht(1) kept(1) ht(2) _ ht(3)] kept(8) Inr by (simp add: unnamed_node_def)
  qed (use kept(8) t(2) in simp)
next
  case (closed cs i)
  note r = vfs_invD(1) [OF inv]
  from reg_okD(1) [OF r] closed(5) show ?thesis
  proof (cases rule: registry_remove_cases)
    case (removed bs j n)
    have "bs = cs" using path_of_inj [OF removed(3) closed(1)] removed(2) closed(2) by simp
    then have "j = i" "i < MAX_VFS_NODES" using tree_unique [OF reg_okD(1) [OF r] closed(1)] removed(5) closed(3) reg_okD(2) [OF r]
      by (auto simp: holds_def)
    then show ?thesis using inv_free [OF r vfs_invD(2) [OF inv] _ closed(4) removed(6)] vfs_invD(3) [OF inv] removed(8,9) closed(6)
      by (simp add: orphans_ok_def)
  next
    case (failed e)
    then have "s' = s" using closed(6) by simp
    then show ?thesis using inv by simp
  qed
qed (simp add: inv)

section \<open>Descriptors\<close>

lemma inv_open:
  assumes inv: "vfs_inv s" and run: "vfs_open p s = (q, s')"
  shows "vfs_inv s'"
proof (cases q)
  case (Inl e)
  then have "s' = s" using run by (auto simp: vfs_open_def open_alloc_def bindS_Inl thenS_Inl bindS_Inr thenS_Inr on_open_files_eq)
  then show ?thesis using inv by simp
next
  case (Inr k)
  define e where "e n = \<lparr>of_node = n, of_generation = generations (registry s) ! n, of_offset = 0, of_refcount = 1, of_occupied = True\<rparr>" for n
  obtain n where n: "position (\<lambda>n. node_matches p n \<and> nd_kind n = File) (nodes (registry s)) = Some n"
    "position (\<lambda>e. \<not> of_occupied e) (open_files s) = Some k" "s' = s\<lparr>open_files := (open_files s)[k := e n]\<rparr>"
    using Inr run by (auto simp: vfs_open_def open_alloc_def bindS_Inr thenS_Inr on_open_files_eq ok_or_Inr e_def)
  have k: "k < length (open_files s)" "\<not> of_occupied (open_files s ! k)" using position_SomeD [OF n(2)] by simp_all
  have nd: "nd_occupied (nodes (registry s) ! n)" "nd_kind (nodes (registry s) ! n) = File"
    using position_SomeD(2) [OF n(1)] by (auto simp: node_matches_def)
  have "desc_ok (registry s) ((open_files s)[k := e n])"
    using vfs_invD(2) [OF inv] k(1) nd position_matches_bound [OF inv n(1)] by (auto simp: desc_ok_def nth_list_update e_def)
  moreover have "node_open j ((open_files s)[k := e n])" if "node_open j (open_files s)" for j
    using that k by (auto simp: node_open_iff nth_list_update)
  ultimately show ?thesis using inv n(3) by (auto simp: vfs_inv_def orphans_ok_def)
qed

lemma inv_clone:
  assumes inv: "vfs_inv s" and run: "clone_open_file i s = (q, s')"
  shows "vfs_inv s'"
proof (cases q)
  case (Inl e)
  then have "s' = s" using run by (auto simp: clone_open_file_def open_clone_def bindS_Inl thenS_Inl bindS_Inr thenS_Inr on_open_files_eq)
  then show ?thesis using inv by simp
next
  case (Inr k)
  obtain e n where e: "open_get i (open_files s) = Inr e" "checked_add (of_refcount e) 1 = Some n"
    "s' = s\<lparr>open_files := (open_files s)[i := e\<lparr>of_refcount := n\<rparr>]\<rparr>"
    using Inr run by (auto simp: clone_open_file_def open_clone_def bindS_Inr thenS_Inr on_open_files_eq ok_or_Inr)
  have "n \<noteq> 0" using checked_add_Some [OF e(2)] by auto
  then show ?thesis using inv_entry [OF inv, of i "e\<lparr>of_refcount := n\<rparr>"] open_get_entry [OF inv e(1)] e(3) by simp
qed

text \<open>The table after a descriptor is dropped.\<close>

definition dropped :: "OpenFileId \<Rightarrow> OpenFileTable \<Rightarrow> OpenFileTable" where
  "dropped i t = t[i := if of_refcount (t ! i) - 1 = 0 then open_file_empty else (t ! i)\<lparr>of_refcount := of_refcount (t ! i) - 1\<rparr>]"

definition freed :: "nat \<Rightarrow> Registry \<Rightarrow> Registry" where
  "freed j r = r\<lparr>nodes := (nodes r)[j := (nodes r ! j)\<lparr>nd_occupied := False, nd_length := 0, nd_backing := None,
     nd_data := replicate NODE_CAPACITY 0\<rparr>], generations := (generations r)[j := generations r ! j + 1]\<rparr>"

lemma close_cases:
  assumes inv: "vfs_inv s" and run: "close_open_file i s = (q, s')"
  obtains (failed) "q = Inl InvalidDescriptor" "s' = s" "open_get i (open_files s) = Inl InvalidDescriptor"
  | (closed) e where "open_get i (open_files s) = Inr e"
      "(node_open (of_node e) (dropped i (open_files s)) \<or> named (nodes (registry s) ! of_node e)) \<and> q = Inr () \<or>
       generations (registry s) ! of_node e = - 1" "s' = s\<lparr>open_files := dropped i (open_files s)\<rparr>"
  | (last) e where "open_get i (open_files s) = Inr e" "\<not> node_open (of_node e) (dropped i (open_files s))" "q = Inr ()"
      "\<not> named (nodes (registry s) ! of_node e)" "s' = s\<lparr>open_files := dropped i (open_files s), registry := freed (of_node e) (registry s)\<rparr>"
proof (cases "open_get i (open_files s)")
  case (Inl x)
  then have "x = InvalidDescriptor" by (auto simp: open_get_def split: if_splits)
  moreover have "close_open_file i s = (Inl x, s)" using Inl by (simp add: close_open_file_def io_unfold)
  ultimately show ?thesis using run that(1) Inl by simp
next
  case (Inr e)
  note g = open_get_entry [OF inv Inr]
  have rc: "of_refcount e \<noteq> 0" using desc_okD(1) [OF vfs_invD(2) [OF inv] g(1)] g(2,3) by simp
  have d: "open_drop i (open_files s) = (Inr (), dropped i (open_files s))"
    using g(1-3) rc by (simp add: open_drop_def io_unfold dropped_def)
  define t where "t = s\<lparr>open_files := dropped i (open_files s)\<rparr>"
  have nd: "nd_path_length (nodes (registry s) ! of_node e) = 0 \<longleftrightarrow> \<not> named (nodes (registry s) ! of_node e)"
    using g(5) by (simp add: named_def)
  have run': "close_open_file i s = (if \<not> node_open (of_node e) (dropped i (open_files s)) \<and> \<not> named (nodes (registry s) ! of_node e)
      then case checked_add (generations (registry s) ! of_node e) 1 of None \<Rightarrow> (Inl Full, t) | Some _ \<Rightarrow> (Inr (), t\<lparr>registry := freed (of_node e) (registry s)\<rparr>)
      else (Inr (), t))"
  proof (cases "checked_add (generations (registry s) ! of_node e) 1")
    case None
    then show ?thesis using Inr d g(5) nd
      by (simp add: close_open_file_def io_unfold on_open_files_def on_registry_def bump_generation_def t_def)
  next
    case (Some x)
    moreover from this have "x = generations (registry s) ! of_node e + 1" by (simp add: checked_succ)
    ultimately show ?thesis using Inr d g(5) nd
      by (simp add: close_open_file_def io_unfold on_open_files_def on_registry_def bump_generation_def t_def freed_def)
  qed
  have full: "checked_add (generations (registry s) ! of_node e) 1 = None \<longleftrightarrow> generations (registry s) ! of_node e = - 1"
    using checked_succ [of "generations (registry s) ! of_node e"] by (metis not_None_eq)
  show ?thesis
    using run that(2,3) [OF Inr] full unfolding run' t_def
    by (auto split: if_splits option.splits)
qed

lemma drop_open:
  assumes "i < length t" "of_occupied (t ! i)" "node_open j t" "j \<noteq> of_node (t ! i)"
  shows "node_open j (dropped i t)"
  using assms by (auto simp: node_open_iff dropped_def nth_list_update)

lemma desc_ok_drop:
  assumes "desc_ok r t" "i < length t" "of_occupied (t ! i)"
  shows "desc_ok r (dropped i t)"
  using assms by (auto simp: desc_ok_def dropped_def nth_list_update open_file_empty_def)

lemma tree_unnamed_update:
  assumes tree: "tree_ok ns" and n: "\<not> named (ns ! i)" "\<not> named n" "node_ok n"
  shows "tree_ok (ns[i := n])"
proof -
  have h: "holds (ns[i := n]) cs j \<longleftrightarrow> holds ns cs j" for cs j
    using holds_named [of "ns[i := n]" cs j] holds_named [of ns cs j] n(1,2) by (cases "j = i") (auto simp: holds_def)
  have k: "holds ns cs j \<and> nd_kind (ns[i := n] ! j) = Directory \<longleftrightarrow> holds ns cs j \<and> nd_kind (ns ! j) = Directory" for cs j
    using holds_named [of ns cs j] n(1) by (cases "j = i") auto
  have "list_all node_ok (ns[i := n])"
    using tree_okD(2) [OF tree] n(3) by (simp add: list_all_length) (metis nth_list_update_eq nth_list_update_neq)
  then show ?thesis using tree unfolding tree_ok_def unique_paths_def parents_exist_def h k by simp
qed

lemma inv_close:
  assumes inv: "vfs_inv s" and run: "close_open_file i s = (q, s')"
  shows "vfs_inv s'"
  using inv run
proof (cases rule: close_cases)
  case (closed e)
  note g = open_get_entry [OF inv closed(1)]
  have "orphans_ok (registry s) (dropped i (open_files s))"
    using vfs_invD(3) [OF inv] drop_open [of i "open_files s"] g(1-3) closed(2) unfolding orphans_ok_def by metis
  then show ?thesis using inv desc_ok_drop [OF vfs_invD(2) [OF inv] g(1)] g closed(3) by (simp add: vfs_inv_def)
next
  case (last e)
  note g = open_get_entry [OF inv last(1)] and r = vfs_invD(1) [OF inv]
  define n where "n = (nodes (registry s) ! of_node e)\<lparr>nd_occupied := False, nd_length := 0, nd_backing := None, nd_data := replicate NODE_CAPACITY 0\<rparr>"
  have "node_ok n" "\<not> named n" "\<not> nd_occupied n"
    using reg_node_ok [OF r g(4)] last(4) g(5) by (simp_all add: node_ok_def n_def named_def)
  then have t: "tree_ok ((nodes (registry s))[of_node e := n])" using tree_unnamed_update [OF reg_okD(1) [OF r] last(4)] by simp
  have "node_open j (dropped i (open_files s)) \<or> generations (registry s) ! j = - 1"
    if "j < MAX_VFS_NODES" "j \<noteq> of_node e" "nd_occupied (nodes (registry s) ! j)" "\<not> named (nodes (registry s) ! j)" for j
    using vfs_invD(3) [OF inv] drop_open [of i "open_files s" j] g(1-3) that by (auto simp: orphans_ok_def)
  then show ?thesis
    using inv_free [of "s\<lparr>open_files := dropped i (open_files s)\<rparr>" "of_node e" n] r desc_ok_drop [OF vfs_invD(2) [OF inv] g(1)] g(2-4)
      last(2,5) t \<open>\<not> nd_occupied n\<close> by (simp add: freed_def n_def)
qed (simp add: inv)

section \<open>Reading and writing\<close>

lemma inv_prepare_shared:
  assumes rdf: "reader_ok rdf" and inv: "vfs_inv s" and run: "prepare_shared_file rdf i s = (q, s')"
  shows "vfs_inv s'"
proof (cases "open_get i (open_files s)")
  case (Inl x)
  then have "s' = s" using run by (simp add: prepare_shared_file_def get_entry_def io_unfold)
  then show ?thesis using inv by simp
next
  case (Inr e)
  note g = open_get_entry [OF inv Inr]
  obtain a t where a: "materialize rdf (of_node e) s = (a, t)" by force
  from rdf inv g(4) a have t: "vfs_inv t" by (rule inv_materialize)
  note r = vfs_invD(1) [OF t]
  have "same_name (nodes (registry t) ! of_node e) ((nodes (registry t) ! of_node e)\<lparr>nd_writable := True\<rparr>)"
    "node_ok ((nodes (registry t) ! of_node e)\<lparr>nd_writable := True\<rparr>)"
    using reg_node_ok [OF r g(4)] by (simp_all add: same_name_def node_ok_def)
  from inv_registry [OF t reg_ext_node(1) [OF r g(4) this]]
  have w: "vfs_inv (t\<lparr>registry := (registry t)\<lparr>nodes := (nodes (registry t))[of_node e := (nodes (registry t) ! of_node e)\<lparr>nd_writable := True\<rparr>]\<rparr>\<rparr>)" .
  have "s' = s \<or> s' = t \<or> s' = t\<lparr>registry := (registry t)\<lparr>nodes := (nodes (registry t))[of_node e := (nodes (registry t) ! of_node e)\<lparr>nd_writable := True\<rparr>]\<rparr>\<rparr>"
    using run Inr g(5) a by (auto simp: prepare_shared_file_def get_entry_def io_unfold on_registry_def split: if_splits sum.splits)
  then show ?thesis using inv t w by blast
qed

lemma nodes_update_at: "nodes_update (\<lambda>ns. ns[i := n]) r = r\<lparr>nodes := (nodes r)[i := n]\<rparr>"
  by (cases r) simp

lemma inv_write_mapping:
  assumes inv: "vfs_inv s" and run: "write_mapping_at i off data s = (q, s')"
  shows "vfs_inv s'"
proof (cases "open_get i (open_files s)")
  case (Inl x)
  then have "s' = s" using run by (simp add: write_mapping_at_def get_entry_def io_unfold)
  then show ?thesis using inv by simp
next
  case (Inr e)
  note g = open_get_entry [OF inv Inr] and r = vfs_invD(1) [OF inv]
  define n where "n = nodes (registry s) ! of_node e"
  define s1 where "s1 = s\<lparr>registry := bump_version (of_node e) ((registry s)\<lparr>nodes := (nodes (registry s))[of_node e := n\<lparr>nd_data := copy_at (nd_data n) off data\<rparr>]\<rparr>),
    file_frames := frames_update (of_node e) (of_generation e) off data (file_frames s)\<rparr>"
  have "s' = s \<or> off + length data \<le> nd_length n \<and> s' = s1"
    using run Inr g(5) unfolding s1_def n_def
    by (auto simp: write_mapping_at_def get_entry_def io_unfold checked_add_usize_def nodes_update_at split: if_splits option.splits)
  moreover have "vfs_inv s1" if "off + length data \<le> nd_length n"
  proof -
    have "node_ok (n\<lparr>nd_data := copy_at (nd_data n) off data\<rparr>)" "same_name n (n\<lparr>nd_data := copy_at (nd_data n) off data\<rparr>)"
      using reg_node_ok [OF r g(4)] that by (simp_all add: node_ok_def n_def same_name_def)
    then show ?thesis unfolding s1_def n_def by (intro inv_other(1) inv_registry [OF inv] reg_ext_node(2) [OF r g(4)])
  qed
  ultimately show ?thesis using inv by blast
qed

lemma inv_read_from:
  assumes inv: "vfs_inv s" and run: "read_from rdf i pos buffer g s = (q, out, s')"
  shows "vfs_inv s'"
proof (cases "open_get i (open_files s)")
  case (Inr e)
  have o: "vfs_inv (set_offset i k (s\<lparr>disk := d\<rparr>))" "vfs_inv (s\<lparr>disk := d\<rparr>)" "vfs_inv (set_offset i k s)" for k d
    using inv_set_offset [of "s\<lparr>disk := d\<rparr>" i e k] inv_set_offset [OF inv Inr, of k] inv_other(2) [OF inv] Inr by simp_all
  show ?thesis using run Inr o inv unfolding read_from_def
    by (auto simp: Let_def split: if_splits option.splits prod.splits)
qed (use run inv in \<open>simp add: read_from_def\<close>)

lemma inv_seek:
  assumes inv: "vfs_inv s" and run: "seek i off s = (q, s')"
  shows "vfs_inv s'"
proof (cases "open_get i (open_files s)")
  case (Inr e)
  then show ?thesis using run inv inv_set_offset [OF inv Inr]
    by (auto simp: seek_def get_entry_def io_unfold Let_def split: if_splits)
qed (use run inv in \<open>simp add: seek_def get_entry_def io_unfold\<close>)

text \<open>The state after a write of \<open>data\<close> through the descriptor \<open>i\<close> with entry \<open>e\<close>.\<close>

definition wrote :: "OpenFileId \<Rightarrow> OpenFileDescription \<Rightarrow> bytes \<Rightarrow> 'd Vfs \<Rightarrow> 'd Vfs" where
  "wrote i e data t =
     (let n = nodes (registry t) ! of_node e; fin = of_offset e + length data
      in set_offset i fin (t\<lparr>
        registry := bump_version (of_node e) ((registry t)\<lparr>nodes := (nodes (registry t))[of_node e :=
          n\<lparr>nd_data := copy_at (nd_data n) (of_offset e) data, nd_length := max (nd_length n) fin\<rparr>]\<rparr>),
        file_frames := frames_update (of_node e) (of_generation e) (of_offset e) data (file_frames t)\<rparr>))"

lemma vfs_write_cases:
  assumes inv: "vfs_inv s" and run: "vfs_write rdf i buffer s = (q, s')"
  obtains (refused) x where "q = Inl x" "s' = s"
  | (materialize_failed) e x where "open_get i (open_files s) = Inr e" "q = Inl x" "materialize rdf (of_node e) s = (Inl x, s')"
  | (beyond) e where "open_get i (open_files s) = Inr e" "materialize rdf (of_node e) s = (Inr (), s')" "q = Inl InvalidDescriptor"
      "nd_length (nodes (registry s') ! of_node e) < of_offset e"
  | (written) e t count where "open_get i (open_files s) = Inr e" "nd_writable (nodes (registry s) ! of_node e)"
      "materialize rdf (of_node e) s = (Inr (), t)" "of_offset e \<le> nd_length (nodes (registry t) ! of_node e)"
      "count = min (length buffer) (NODE_CAPACITY - of_offset e)" "q = (if count < length buffer then Inl Full else Inr count)"
      "s' = wrote i e (take count buffer) t"
proof (cases "\<exists>e. open_get i (open_files s) = Inr e \<and> nd_writable (nodes (registry s) ! of_node e)")
  case True
  then obtain e where e: "open_get i (open_files s) = Inr e" and w: "nd_writable (nodes (registry s) ! of_node e)" by blast
  note g = open_get_entry [OF inv e]
  have l: "of_node e < length (nodes (registry s))" using g(4) reg_okD(2) [OF vfs_invD(1) [OF inv]] by simp
  obtain a t where a: "materialize rdf (of_node e) s = (a, t)" by force
  have run': "vfs_write rdf i buffer s = (case a of Inl x \<Rightarrow> (Inl x, t) | Inr u \<Rightarrow>
      if \<not> of_offset e \<le> nd_length (nodes (registry t) ! of_node e) then (Inl InvalidDescriptor, t)
      else let count = min (length buffer) (NODE_CAPACITY - of_offset e)
        in (if count < length buffer then Inl Full else Inr count, wrote i e (take count buffer) t))"
    using e w g(5) l a by (cases a) (simp_all add: vfs_write_def get_entry_def io_unfold Let_def wrote_def nodes_update_at)
  show ?thesis
  proof (cases a)
    case (Inl x)
    then have "q = Inl x" "s' = t" using run run' by simp_all
    then show ?thesis using that(2) [OF e] a Inl by simp
  next
    case (Inr u)
    then have m: "materialize rdf (of_node e) s = (Inr (), t)" using a by simp
    show ?thesis
    proof (cases "of_offset e \<le> nd_length (nodes (registry t) ! of_node e)")
      case True
      then show ?thesis using that(4) [OF e w m True refl] run run' Inr by (simp add: Let_def)
    next
      case False
      then have "q = Inl InvalidDescriptor" "s' = t" using run run' Inr by simp_all
      then show ?thesis using that(3) [OF e] m False by simp
    qed
  qed
next
  case False
  then have "\<exists>x. vfs_write rdf i buffer s = (Inl x, s)"
    by (cases "open_get i (open_files s)") (auto simp: vfs_write_def get_entry_def io_unfold)
  then show ?thesis using run that(1) by auto
qed

lemma inv_wrote:
  assumes inv: "vfs_inv t" and e: "open_get i (open_files t) = Inr e" and fit: "of_offset e + length data \<le> NODE_CAPACITY"
  shows "vfs_inv (wrote i e data t)"
proof -
  note g = open_get_entry [OF inv e] and r = vfs_invD(1) [OF inv]
  define n where "n = nodes (registry t) ! of_node e"
  define n' where "n' = n\<lparr>nd_data := copy_at (nd_data n) (of_offset e) data, nd_length := max (nd_length n) (of_offset e + length data)\<rparr>"
  have "node_ok n'" "same_name n n'"
    using reg_node_ok [OF r g(4)] fit by (simp_all add: node_ok_def n_def n'_def same_name_def)
  from inv_other(1) [OF inv_registry [OF inv reg_ext_node(2) [OF r g(4) this(2) [unfolded n_def] this(1)]]]
  show ?thesis using e unfolding wrote_def Let_def n_def [symmetric] n'_def [symmetric] by (intro inv_set_offset [where e = e]) simp_all
qed

lemma inv_write:
  assumes rdf: "reader_ok rdf" and inv: "vfs_inv s" and run: "vfs_write rdf i buffer s = (q, s')"
  shows "vfs_inv s'"
  using inv run
proof (cases rule: vfs_write_cases)
  case (written e t count)
  note g = open_get_entry [OF inv written(1)]
  from rdf inv g(4) written(3) obtain n d where t: "t = s\<lparr>registry := (registry s)\<lparr>nodes := (nodes (registry s))[of_node e := n]\<rparr>, disk := d\<rparr>"
    "vfs_inv t" by (rule inv_materialize)
  have "nd_length (nodes (registry t) ! of_node e) \<le> NODE_CAPACITY" using reg_node_ok [OF vfs_invD(1) [OF t(2)] g(4)] by (simp add: node_ok_def)
  then show ?thesis using inv_wrote [OF t(2), of i e "take count buffer"] written t(1) by simp
next
  case (materialize_failed e x)
  from rdf inv open_get_entry(4) [OF inv materialize_failed(1)] materialize_failed(3) show ?thesis by (rule inv_materialize)
next
  case (beyond e)
  from rdf inv open_get_entry(4) [OF inv beyond(1)] beyond(2) show ?thesis by (rule inv_materialize)
qed (simp add: inv)

lemma inv_read_all:
  assumes inv: "vfs_inv s" and run: "read_all rdf p buffer s = (q, out, s')"
  shows "vfs_inv s'"
proof -
  obtain a t where a: "vfs_open p s = (a, t)" by force
  have t: "vfs_inv t" by (rule inv_open [OF inv a])
  show ?thesis
  proof (cases a)
    case (Inr i)
    have fs: "snd (file_size i t) = t" by (auto simp: file_size_def get_entry_def io_unfold split: sum.splits)
    have "\<exists>u. vfs_inv u \<and> s' = snd (close_open_file i u)"
      using run a Inr t fs inv_read_from [of t rdf i "Some 0"] unfolding read_all_def vfs_read_at_def
      by (auto simp: Let_def split: prod.splits sum.splits if_splits) blast
    then show ?thesis using inv_close by (metis prod.collapse)
  qed (use run a t in \<open>simp add: read_all_def\<close>)
qed

section \<open>Histories\<close>

text \<open>
  The operations of the module in any order, with any arguments. Paths are \<open>&str\<close>, so their
  bytes are UTF-8. Between two of them other parts of the kernel may change the shared pages and
  the disk.
\<close>

inductive vfs_history :: "'d reader \<Rightarrow> 'd Vfs \<Rightarrow> bool" for rdf where
  boot: "vfs_history rdf (vfs_boot fs d)"
| create: "vfs_history rdf s \<Longrightarrow> is_utf8 p \<Longrightarrow> create_read_only p data s = (q, s') \<Longrightarrow> vfs_history rdf s'"
| create_disk: "vfs_history rdf s \<Longrightarrow> is_utf8 p \<Longrightarrow> create_disk_file_with_writable p len w s = (q, s') \<Longrightarrow> vfs_history rdf s'"
| write_file: "vfs_history rdf s \<Longrightarrow> is_utf8 p \<Longrightarrow> vfs_write_file p data s = (q, s') \<Longrightarrow> vfs_history rdf s'"
| mkdir: "vfs_history rdf s \<Longrightarrow> is_utf8 p \<Longrightarrow> vfs_mkdir p s = (q, s') \<Longrightarrow> vfs_history rdf s'"
| rename: "vfs_history rdf s \<Longrightarrow> is_utf8 p \<Longrightarrow> is_utf8 p' \<Longrightarrow> vfs_rename p p' s = (q, s') \<Longrightarrow> vfs_history rdf s'"
| prepare_remove: "vfs_history rdf s \<Longrightarrow> prepare_remove rdf p s = (q, s') \<Longrightarrow> vfs_history rdf s'"
| remove: "vfs_history rdf s \<Longrightarrow> vfs_remove rdf p s = (q, s') \<Longrightarrow> vfs_history rdf s'"
| open_file: "vfs_history rdf s \<Longrightarrow> vfs_open p s = (qi, s') \<Longrightarrow> vfs_history rdf s'"
| clone: "vfs_history rdf s \<Longrightarrow> clone_open_file i s = (qi, s') \<Longrightarrow> vfs_history rdf s'"
| close: "vfs_history rdf s \<Longrightarrow> close_open_file i s = (q, s') \<Longrightarrow> vfs_history rdf s'"
| prepare_shared: "vfs_history rdf s \<Longrightarrow> prepare_shared_file rdf i s = (q, s') \<Longrightarrow> vfs_history rdf s'"
| write_mapping: "vfs_history rdf s \<Longrightarrow> write_mapping_at i off data s = (q, s') \<Longrightarrow> vfs_history rdf s'"
| read_bytes: "vfs_history rdf s \<Longrightarrow> read_from rdf i pos buf g s = (qn, out, s') \<Longrightarrow> vfs_history rdf s'"
| read_all: "vfs_history rdf s \<Longrightarrow> read_all rdf p buf s = (qn, out, s') \<Longrightarrow> vfs_history rdf s'"
| seek: "vfs_history rdf s \<Longrightarrow> seek i off s = (qn, s') \<Longrightarrow> vfs_history rdf s'"
| write_bytes: "vfs_history rdf s \<Longrightarrow> vfs_write rdf i buf s = (qn, s') \<Longrightarrow> vfs_history rdf s'"
| other: "vfs_history rdf s \<Longrightarrow> vfs_history rdf (s\<lparr>file_frames := fs, disk := d\<rparr>)"

definition boot_names :: "bytes list list" where
  "boot_names = [[], [ascii ''etc''], [ascii ''tmp''], [ascii ''mnt''], [ascii ''bin''], [ascii ''etc'', ascii ''motd''],
     [ascii ''etc'', ascii ''version''], [ascii ''tmp'', ascii ''vfs-self-test'']]"

definition boot_nodes :: "Node list" where
  "boot_nodes = map (\<lambda>cs. node_directory (path_of cs)) (take 5 boot_names) @
     [node_with_data (path_of (boot_names ! 5)) (ascii ''Welcome to WovenHat OS.\<newline>'') False,
      node_with_data (path_of (boot_names ! 6)) (ascii ''WovenHat kernel 0.8.0 Multicore Foundation\<newline>'') False,
      node_with_data (path_of (boot_names ! 7)) [] True]"

lemma boot_names_ok: "list_all (\<lambda>cs. list_all good_name cs \<and> length (path_of cs) \<le> 128 \<and> is_utf8 (path_of cs)) boot_names"
  by code_simp

lemma boot_names_parents:
  "distinct (map path_of boot_names)" "list_all (\<lambda>cs. cs = [] \<or> butlast cs \<in> set (take 5 boot_names)) boot_names" "length boot_names = 8"
  by code_simp+

lemma boot_paths:
  "path_of [] = ascii ''/''" "path_of [ascii ''etc''] = ascii ''/etc''" "path_of [ascii ''tmp''] = ascii ''/tmp''"
  "path_of [ascii ''mnt''] = ascii ''/mnt''" "path_of [ascii ''bin''] = ascii ''/bin''"
  "path_of [ascii ''etc'', ascii ''motd''] = ascii ''/etc/motd''" "path_of [ascii ''etc'', ascii ''version''] = ascii ''/etc/version''"
  "path_of [ascii ''tmp'', ascii ''vfs-self-test''] = ascii ''/tmp/vfs-self-test''"
  by code_simp+

lemma boot_registry_nodes: "nodes registry_boot = boot_nodes @ replicate (MAX_VFS_NODES - 8) node_empty"
  by (simp add: registry_boot_def boot_nodes_def boot_names_def boot_paths copy_at_def)

lemma boot_good: "i < 8 \<Longrightarrow> good_path (boot_names ! i) \<and> is_utf8 (path_of (boot_names ! i))"
  using boot_names_ok boot_names_parents(3) by (simp add: list_all_length good_path_def MAX_PATH_SIZE_def Ball_set)

lemma boot_length: "length boot_nodes = 8"
  by (simp add: boot_nodes_def boot_names_parents(3))

lemma node_with_data_fields: "nd_occupied (node_with_data p data w)" "nd_kind (node_with_data p data w) = File"
  by (simp_all add: node_with_data_def)

lemma boot_node:
  assumes "i < 8"
  shows "node_ok (boot_nodes ! i)" "node_bytes (boot_nodes ! i) = path_of (boot_names ! i)" "nd_occupied (boot_nodes ! i)"
    "nd_kind (boot_nodes ! i) = (if i < 5 then Directory else File)"
proof -
  have small: "length (ascii ''Welcome to WovenHat OS.\<newline>'') \<le> NODE_CAPACITY" "length (ascii ''WovenHat kernel 0.8.0 Multicore Foundation\<newline>'') \<le> NODE_CAPACITY"
    by (simp_all add: ascii_def NODE_CAPACITY_def)
  consider "i < 5" | "i = 5" | "i = 6" | "i = 7" using assms by linarith
  then have "node_ok (boot_nodes ! i) \<and> node_bytes (boot_nodes ! i) = path_of (boot_names ! i) \<and> nd_occupied (boot_nodes ! i) \<and>
    nd_kind (boot_nodes ! i) = (if i < 5 then Directory else File)"
  proof cases
    case 1
    then have "boot_nodes ! i = node_directory (path_of (boot_names ! i))" by (simp add: boot_nodes_def boot_names_parents(3) nth_append)
    then show ?thesis using node_directory_ok [of "boot_names ! i"] boot_good [OF assms] 1 by (simp add: node_directory_def)
  qed (use boot_good [OF assms] small node_with_data_ok [of "boot_names ! i"] in
      \<open>simp_all add: boot_nodes_def boot_names_parents(3) nth_append node_with_data_fields\<close>)
  then show "node_ok (boot_nodes ! i)" "node_bytes (boot_nodes ! i) = path_of (boot_names ! i)" "nd_occupied (boot_nodes ! i)"
    "nd_kind (boot_nodes ! i) = (if i < 5 then Directory else File)" by blast+
qed

lemma boot_holds: "good_path cs \<Longrightarrow> holds (nodes registry_boot) cs i \<longleftrightarrow> i < 8 \<and> cs = boot_names ! i"
  using boot_node [of i] boot_good [of i] path_of_inj [of cs "boot_names ! i"] path_of_not_Nil
  by (cases "i < 8") (auto simp: holds_def boot_registry_nodes nth_append boot_length MAX_VFS_NODES_def node_empty_def)

lemma boot_tree: "tree_ok (nodes registry_boot)"
proof (rule tree_okI)
  show l: "length (nodes registry_boot) = MAX_VFS_NODES" by (simp add: boot_registry_nodes boot_length MAX_VFS_NODES_def)
  show "node_ok (nodes registry_boot ! i)" if "i < length (nodes registry_boot)" for i
    using that l boot_node(1) [of i] node_empty_ok(1) by (cases "i < 8") (auto simp: boot_registry_nodes nth_append boot_length)
  show "i = j" if "good_path cs" "holds (nodes registry_boot) cs i" "holds (nodes registry_boot) cs j" for cs i j
    using that(2,3) boot_names_parents(1,3) unfolding boot_holds [OF that(1)] by (metis distinct_map nth_eq_iff_index_eq)
  have dir: "\<exists>j. holds (nodes registry_boot) cs j \<and> nd_kind (nodes registry_boot ! j) = Directory"
    if cs: "good_path cs" "cs \<in> set (take 5 boot_names)" for cs
  proof -
    obtain j where "j < 5" "cs = boot_names ! j" using cs(2) boot_names_parents(3) by (auto simp: in_set_conv_nth)
    then show ?thesis using boot_holds [OF cs(1), of j] boot_node(4) [of j]
      by (intro exI [of _ j]) (simp add: boot_registry_nodes nth_append boot_length)
  qed
  show "\<exists>j. holds (nodes registry_boot) [] j \<and> nd_kind (nodes registry_boot ! j) = Directory"
    by (rule dir) (simp_all add: boot_names_def)
  show "\<exists>j. holds (nodes registry_boot) cs j \<and> nd_kind (nodes registry_boot ! j) = Directory"
    if "good_path (cs @ [c])" "holds (nodes registry_boot) (cs @ [c]) i" for cs c i
  proof (rule dir)
    have "i < 8" "boot_names ! i = cs @ [c]" using that(2) unfolding boot_holds [OF that(1)] by simp_all
    then show "cs \<in> set (take 5 boot_names)"
      using boot_names_parents(2,3) unfolding list_all_length by (metis append_is_Nil_conv butlast_snoc not_Cons_self2)
  qed (rule good_path_snoc [OF that(1)])
qed

lemma inv_boot: "vfs_inv (vfs_boot fs d)"
proof -
  have "desc_ok registry_boot open_table_empty"
    by (simp add: desc_ok_def open_table_empty_def open_file_empty_def)
  moreover have "orphans_ok registry_boot t" for t
    unfolding orphans_ok_def
  proof (intro allI impI)
    fix j assume j: "j < MAX_VFS_NODES" "nd_occupied (nodes registry_boot ! j)" "\<not> named (nodes registry_boot ! j)"
    then have "j < 8" by (cases "j < 8") (auto simp: boot_registry_nodes nth_append boot_length node_empty_def)
    then have "holds (nodes registry_boot) (boot_names ! j) j" using boot_holds boot_good by blast
    with j(3) show "node_open j t \<or> generations registry_boot ! j = - 1" using holds_named by blast
  qed
  ultimately show ?thesis using boot_tree by (simp add: vfs_inv_def vfs_boot_def reg_ok_def) (simp add: registry_boot_def)
qed

lemma vfs_history_inv:
  assumes rdf: "reader_ok rdf"
  shows "vfs_history rdf s \<Longrightarrow> vfs_inv s"
proof (induction rule: vfs_history.induct)
  case other
  then show ?case by (simp add: vfs_inv_def)
qed ((rule inv_boot | rule inv_create inv_create_disk inv_write_file inv_open inv_clone inv_close inv_write_mapping inv_read_from
        inv_read_all inv_seek inv_prepare_remove [OF rdf] inv_remove [OF rdf] inv_prepare_shared [OF rdf] inv_write [OF rdf]); assumption)+

end
