(* ===== verification/Vfs_Properties.thy ===== *)
theory Vfs_Properties
  imports Vfs_Invariant
begin

text \<open>
  What a user of the file system may rely on: names form a tree and descriptors stay valid, a
  rename moves exactly a subtree, what is written is read back, and a removed file keeps its
  contents for those who have it open.
\<close>

section \<open>The invariant\<close>

text \<open>A disk for the instances: the contents of its files, never failing.\<close>

definition file_reader :: "(bytes \<Rightarrow> bytes) reader" where
  "file_reader p off buf d = (let k = min (length buf) (length (d p) - off) in (Inr k, copy_at buf 0 (slice (d p) off k), d))"

lemma file_reader_ok: "reader_ok file_reader"
  by (simp add: reader_ok_def file_reader_def Let_def)

definition no_files :: "bytes \<Rightarrow> bytes" where
  "no_files p = []"

definition no_frames :: FrameState where
  "no_frames = \<lparr>ff_cache = replicate FRAME_CACHE_CAPACITY None, ff_snapshots = 1, ff_cow = cow_table_empty,
     ff_allocator = allocator_empty, frame_bytes = \<lambda>f. replicate 4096 0\<rparr>"

text \<open>
  C35: In every history of file-system calls, with failing disk reads and with any changes to the disk
  and the shared pages in between, the names form a tree under the root (no path has two nodes, and
  the parent of every named node is a directory); every descriptor refers to a live file whose
  generation matches; and a node without a name is held by an open descriptor, unless its
  generation counter is exhausted.
\<close>

theorem vfs_names_and_descriptors:
  assumes "reader_ok rdf" and "vfs_history rdf s"
  shows "tree_ok (nodes (registry s)) \<and>
    (\<forall>i e. open_get i (open_files s) = Inr e \<longrightarrow>
       \<not> entry_stale e (registry s) \<and> nd_kind (nodes (registry s) ! of_node e) = File) \<and>
    (\<forall>j<MAX_VFS_NODES. nd_occupied (nodes (registry s) ! j) \<and> nd_path_length (nodes (registry s) ! j) = 0 \<longrightarrow>
       node_open j (open_files s) \<or> generations (registry s) ! j = - 1)"
proof -
  have inv: "vfs_inv s" using vfs_history_inv [OF assms] .
  have "\<not> entry_stale e (registry s) \<and> nd_kind (nodes (registry s) ! of_node e) = File" if "open_get i (open_files s) = Inr e" for i e
    using open_get_entry [OF inv that] by (simp add: entry_stale_def)
  then show ?thesis using vfs_invD(3) [OF inv] reg_okD(1) [OF vfs_invD(1) [OF inv]] by (simp add: orphans_ok_def named_def)
qed

theorem vfs_names_and_descriptors_witness:
  "vfs_history file_reader (snd (vfs_mkdir (ascii ''/a'') (vfs_boot no_frames no_files))) \<and>
   tree_ok (nodes (registry (snd (vfs_mkdir (ascii ''/a'') (vfs_boot no_frames no_files)))))"
proof -
  note r = file_reader_ok
  have u: "is_utf8 (ascii ''/a'')" by code_simp
  have h: "vfs_history file_reader (snd (vfs_mkdir (ascii ''/a'') (vfs_boot no_frames no_files)))"
    by (rule vfs_history.mkdir [OF vfs_history.boot u prod.collapse [symmetric]])
  show ?thesis using vfs_names_and_descriptors [OF r h] h by blast
qed

section \<open>Renaming\<close>

text \<open>The checks pass for every move that keeps the tree.\<close>

lemma not_too_long:
  assumes tree: "tree_ok ns" and can: "can_move ns os nw i" and j: "j < length ns" "nd_occupied (ns ! j)"
  shows "\<not> too_long (path_of os) (path_of nw) (path_str (ns ! j))"
proof (cases "named (ns ! j)")
  case True
  with tree j(1) obtain cs where cs: "good_path cs" "holds ns cs j" by (rule named_holds)
  have c: "good_path os" "os \<noteq> []" "nw \<noteq> []" using can by (simp_all add: can_move_def)
  have "length (path_of nw) + length x \<le> MAX_PATH_SIZE" if x: "descendant_suffix (path_of os) (path_of cs) = Some x" for x
  proof -
    obtain ds where ds: "cs = os @ ds" "x = join ds" using x unfolding descendant_path [OF c(1,2) cs(1)] by blast
    then have "good_path (nw @ ds)" using can cs by (auto simp: can_move_def)
    then show ?thesis using c(3) ds(2) by (simp add: good_path_def path_of_def)
  qed
  then show ?thesis using path_str_holds [OF tree cs(2)] by (auto simp: too_long_def not_less split: option.splits)
next
  case False
  then show ?thesis using path_str_unnamed j(2) by (simp add: too_long_def unnamed_path)
qed

lemma validate_rename_can_move:
  assumes tree: "tree_ok (nodes r)" and can: "can_move (nodes r) os nw i"
  shows "validate_rename (path_of os) (path_of nw) r = Inr ()"
proof -
  have c: "good_path os" "good_path nw" "os \<noteq> []" "nw \<noteq> []" "holds (nodes r) os i" "\<forall>j. \<not> holds (nodes r) nw j" "take (length os) nw \<noteq> os"
    "\<exists>k. holds (nodes r) (butlast nw) k \<and> nd_kind (nodes r ! k) = Directory"
    using can by (simp_all add: can_move_def)
  have root: "path_of os \<noteq> root_path" "path_of nw \<noteq> root_path" using path_of_root [OF c(1)] path_of_root [OF c(2)] c(3,4) by simp_all
  have i: "i < length (nodes r)" using c(5) by (simp add: holds_def)
  have pos: "position (node_matches (path_of os)) (nodes r) = Some i"
  proof (rule position_unique [OF i])
    show "node_matches (path_of os) (nodes r ! i)" using holds_matches [OF i] c(5) by simp
    show "j = i" if "j < length (nodes r)" "node_matches (path_of os) (nodes r ! j)" for j
      using tree_unique [OF tree c(1) _ c(5)] holds_matches [OF that(1)] that(2) by simp
  qed
  have ne: "path_of os \<noteq> path_of nw" using path_of_inj [OF c(1,2)] c(7) by auto
  have desc: "descendant_suffix (path_of os) (path_of nw) = None" using c(7) unfolding descendant_None [OF c(1,3,2)] by auto
  have parent: "parent_path (path_of nw) = Some (path_of (butlast nw))"
    using parent_path_of [of "butlast nw" "last nw"] c(2,4) by simp
  have fits: "\<not> (nd_occupied n \<and> (d \<and> too_long (path_of os) (path_of nw) (path_str n) \<or>
      (case nd_backing n of None \<Rightarrow> False
       | Some b \<Rightarrow> if d then too_long (path_of os) (path_of nw) (disk_path_str b)
                   else disk_path_str b = path_of os \<and> length (path_of nw) > MAX_PATH_SIZE)))" if n: "n \<in> set (nodes r)" for n d
  proof -
    obtain j where j: "j < length (nodes r)" "n = nodes r ! j" using n by (auto simp: in_set_conv_nth)
    show ?thesis using not_too_long [OF tree can j(1)] disk_path_backing [OF tree_okD(2) [OF tree j(1)]] c(2) j(2)
      by (auto simp: good_path_def split: option.splits)
  qed
  then have none: "\<not> list_ex (\<lambda>n. nd_occupied n \<and> (d \<and> too_long (path_of os) (path_of nw) (path_str n) \<or>
      (case nd_backing n of None \<Rightarrow> False
       | Some b \<Rightarrow> if d then too_long (path_of os) (path_of nw) (disk_path_str b)
                   else disk_path_str b = path_of os \<and> length (path_of nw) > MAX_PATH_SIZE))) (nodes r)" for d
    unfolding list_ex_iff by blast
  have "\<not> list_ex (node_matches (path_of nw)) (nodes r)" "is_directory (path_of (butlast nw)) (nodes r)"
    using c(6,8) by (simp_all add: list_ex_matches is_directory_holds)
  then show ?thesis
    unfolding validate_rename_def Let_def validate_path_of [OF c(1)] validate_path_of [OF c(2)] pos parent bindE_simps ok_or_simps
    using root ne desc none by (simp only: simp_thms if_False)
qed

lemma renamed_contents:
  assumes tree: "tree_ok ns" and can: "can_move ns os nw i" and j: "j < length ns"
  shows "nd_kind (renamed os nw i ns ! j) = nd_kind (ns ! j)" "nd_occupied (renamed os nw i ns ! j) = nd_occupied (ns ! j)"
    "nd_data (renamed os nw i ns ! j) = nd_data (ns ! j)" "nd_length (renamed os nw i ns ! j) = nd_length (ns ! j)"
    "nd_writable (renamed os nw i ns ! j) = nd_writable (ns ! j)"
proof -
  have "renamed os nw i ns ! j = ns ! j \<or> (\<exists>p. renamed os nw i ns ! j = with_path p (ns ! j))"
  proof (cases "named (ns ! j)")
    case True
    with tree j obtain cs where "good_path cs" "holds ns cs j" by (rule named_holds)
    then show ?thesis using renamed_named(3) [OF tree can] by metis
  next
    case False
    then show ?thesis using renamed_keeps [OF tree can j] by blast
  qed
  then show "nd_kind (renamed os nw i ns ! j) = nd_kind (ns ! j)" "nd_occupied (renamed os nw i ns ! j) = nd_occupied (ns ! j)"
    "nd_data (renamed os nw i ns ! j) = nd_data (ns ! j)" "nd_length (renamed os nw i ns ! j) = nd_length (ns ! j)"
    "nd_writable (renamed os nw i ns ! j) = nd_writable (ns ! j)" by auto
qed

text \<open>
  C36: A rename succeeds when the old path exists, the new one is free, lies in a directory that is not
  part of the renamed subtree, and no path gets too long. A failed rename changes nothing. A successful one changes names only: the node that had a path
  in the renamed subtree has the same path with the new prefix, every other node keeps its path, no
  other path comes into being, and contents, kinds, generations, descriptors and the disk
  stay as they were.
\<close>

theorem vfs_rename_moves_subtree:
  assumes "reader_ok rdf" and "vfs_history rdf s" and "is_utf8 old" and "is_utf8 new" and "vfs_rename old new s = (q, s')"
  shows "((\<exists>os nw i. old = path_of os \<and> new = path_of nw \<and> can_move (nodes (registry s)) os nw i) \<longrightarrow> q = Inr ()) \<and>
    (case q of
      Inl e \<Rightarrow> s' = s
    | Inr u \<Rightarrow> \<exists>os nw. old = path_of os \<and> new = path_of nw \<and> good_path os \<and> good_path nw \<and> s' = s\<lparr>registry := (registry s)\<lparr>nodes := nodes (registry s')\<rparr>\<rparr> \<and>
        (\<forall>cs i. good_path cs \<longrightarrow> holds (nodes (registry s)) cs i \<longrightarrow> holds (nodes (registry s')) (moved os nw cs) i) \<and>
        (\<forall>cs' i. good_path cs' \<longrightarrow> holds (nodes (registry s')) cs' i \<longrightarrow>
           (\<exists>cs. good_path cs \<and> holds (nodes (registry s)) cs i \<and> cs' = moved os nw cs)) \<and>
        (\<forall>i<MAX_VFS_NODES. let n = nodes (registry s) ! i; n' = nodes (registry s') ! i
           in nd_kind n' = nd_kind n \<and> nd_occupied n' = nd_occupied n \<and> nd_data n' = nd_data n \<and> nd_length n' = nd_length n \<and>
              nd_writable n' = nd_writable n))"
proof (rule conjI)
  have inv: "vfs_inv s" using vfs_history_inv [OF assms(1,2)] .
  note t = reg_okD(1) [OF vfs_invD(1) [OF inv]]
  obtain r' where r': "registry_rename old new (registry s) = (q, r')" "s' = s\<lparr>registry := r'\<rparr>"
    using assms(5) by (auto simp: vfs_rename_def on_registry_eq)
  show "(\<exists>os nw i. old = path_of os \<and> new = path_of nw \<and> can_move (nodes (registry s)) os nw i) \<longrightarrow> q = Inr ()"
    using registry_rename_tree [OF t assms(3,4) r'(1)] validate_rename_can_move [OF t] by (metis Inl_Inr_False)
  from t assms(3,4) r'(1)
  show "case q of
      Inl e \<Rightarrow> s' = s
    | Inr u \<Rightarrow> \<exists>os nw. old = path_of os \<and> new = path_of nw \<and> good_path os \<and> good_path nw \<and> s' = s\<lparr>registry := (registry s)\<lparr>nodes := nodes (registry s')\<rparr>\<rparr> \<and>
        (\<forall>cs i. good_path cs \<longrightarrow> holds (nodes (registry s)) cs i \<longrightarrow> holds (nodes (registry s')) (moved os nw cs) i) \<and>
        (\<forall>cs' i. good_path cs' \<longrightarrow> holds (nodes (registry s')) cs' i \<longrightarrow>
           (\<exists>cs. good_path cs \<and> holds (nodes (registry s)) cs i \<and> cs' = moved os nw cs)) \<and>
        (\<forall>i<MAX_VFS_NODES. let n = nodes (registry s) ! i; n' = nodes (registry s') ! i
           in nd_kind n' = nd_kind n \<and> nd_occupied n' = nd_occupied n \<and> nd_data n' = nd_data n \<and> nd_length n' = nd_length n \<and>
              nd_writable n' = nd_writable n)"
  proof (cases rule: registry_rename_tree)
    case (failed e)
    then show ?thesis using r'(2) by simp
  next
    case same
    have v: "validate_absolute_path old = Inr ()" using same(4) by (auto simp: validate_rename_def bindE_Inr)
    obtain os where os: "good_path os" "old = path_of os" using v by (rule validate_good)
    have id: "moved os os cs = cs" for cs by (metis append_take_drop_id moved_def)
    have s: "s' = s" using same(2) r'(2) by simp
    show ?thesis unfolding same(1) sum.case s by (rule exI [of _ os], rule exI [of _ os]) (use same(3) os id in \<open>simp add: Let_def\<close>)
  next
    case (moved os nw i)
    have g: "good_path os" "good_path nw" using moved(4) by (simp_all add: can_move_def)
    have h: "\<exists>cs. good_path cs \<and> holds (nodes (registry s)) cs j \<and> cs' = Vfs_Tree.moved os nw cs"
      if "good_path cs'" "holds (nodes r') cs' j" for cs' j
      using holds_renamed [OF t moved(4) that(1), of j] that(2) moved(5) by auto
    have same: "nd_kind (nodes r' ! j) = nd_kind (nodes (registry s) ! j) \<and> nd_occupied (nodes r' ! j) = nd_occupied (nodes (registry s) ! j) \<and>
        nd_data (nodes r' ! j) = nd_data (nodes (registry s) ! j) \<and> nd_length (nodes r' ! j) = nd_length (nodes (registry s) ! j) \<and>
        nd_writable (nodes r' ! j) = nd_writable (nodes (registry s) ! j)" if "j < MAX_VFS_NODES" for j
      using renamed_contents [OF t moved(4), of j] that reg_okD(2) [OF vfs_invD(1) [OF inv]] moved(5) by simp
    show ?thesis
      using moved(1-3,5) r'(2) renamed_named(2) [OF t moved(4)] h same g by (simp add: Let_def) blast
  qed
qed

lemma boot_can_move: "can_move (nodes registry_boot) [ascii ''tmp''] [ascii ''var''] 2"
proof -
  have g: "good_path [ascii ''tmp'']" "good_path [ascii ''var'']" by code_simp+
  have no: "list_all (\<lambda>cs. cs \<noteq> [ascii ''var'']) boot_names" by code_simp
  have sub: "list_all (\<lambda>cs. take 1 cs = [ascii ''tmp''] \<longrightarrow> good_path (ascii ''var'' # drop 1 cs)) boot_names" by code_simp
  have two: "boot_names ! 2 = [ascii ''tmp'']" "boot_names ! 0 = []" "[ascii ''var''] \<noteq> [ascii ''tmp'']" by code_simp+
  have "\<not> holds (nodes registry_boot) [ascii ''var''] j" for j
    using no boot_names_parents(3) unfolding boot_holds [OF g(2)] list_all_length by metis
  moreover have "good_path (ascii ''var'' # ds)" if "good_path (ascii ''tmp'' # ds)" "holds (nodes registry_boot) (ascii ''tmp'' # ds) j" for ds j
  proof -
    have "j < 8" "boot_names ! j = ascii ''tmp'' # ds" using that(2) unfolding boot_holds [OF that(1)] by simp_all
    then show ?thesis using sub boot_names_parents(3) unfolding list_all_length by (metis append_Cons append_Nil diff_Suc_1' drop0 drop_Suc_Cons list.sel(3) take_Suc_Cons take0 One_nat_def)
  qed
  moreover have "holds (nodes registry_boot) [] 0 \<and> nd_kind (nodes registry_boot ! 0) = Directory"
    using boot_holds [of "[]" 0] two(2) boot_node(4) [of 0] by (simp add: boot_registry_nodes nth_append boot_length)
  ultimately show ?thesis using g two boot_holds [OF g(1), of 2] by (auto simp: can_move_def)
qed

theorem vfs_rename_moves_subtree_witness:
  "fst (vfs_rename (ascii ''/tmp'') (ascii ''/var'') (vfs_boot no_frames no_files)) = Inr () \<and>
   holds (nodes (registry (snd (vfs_rename (ascii ''/tmp'') (ascii ''/var'') (vfs_boot no_frames no_files))))) [ascii ''var'', ascii ''vfs-self-test''] 7"
proof -
  define s :: "(bytes \<Rightarrow> bytes) Vfs" where "s = vfs_boot no_frames no_files"
  note r = file_reader_ok
  have u: "is_utf8 (ascii ''/tmp'')" "is_utf8 (ascii ''/var'')" by code_simp+
  have p: "path_of [ascii ''tmp''] = ascii ''/tmp''" "path_of [ascii ''var''] = ascii ''/var''" by code_simp+
  have h: "vfs_history file_reader s" unfolding s_def by (rule vfs_history.boot)
  note claim = vfs_rename_moves_subtree [OF r h u prod.collapse [symmetric]]
  have reg: "registry s = registry_boot" by (simp add: s_def vfs_boot_def)
  have "\<exists>os nw i. ascii ''/tmp'' = path_of os \<and> ascii ''/var'' = path_of nw \<and> can_move (nodes (registry s)) os nw i"
    by (rule exI [of _ "[ascii ''tmp'']"], rule exI [of _ "[ascii ''var'']"], rule exI [of _ 2]) (simp add: p reg boot_can_move)
  then have ok: "fst (vfs_rename (ascii ''/tmp'') (ascii ''/var'') s) = Inr ()" by (rule conjunct1 [OF claim, THEN mp])
  have g: "good_path [ascii ''tmp'', ascii ''vfs-self-test'']" "good_path [ascii ''tmp'']" "good_path [ascii ''var'']" by code_simp+
  have seven: "holds (nodes (registry s)) [ascii ''tmp'', ascii ''vfs-self-test''] 7"
    using boot_holds [OF g(1), of 7] by (simp add: reg boot_names_def)
  from conjunct2 [OF claim, unfolded ok sum.case]
  obtain os nw where o: "ascii ''/tmp'' = path_of os" "ascii ''/var'' = path_of nw" "good_path os" "good_path nw"
    "\<forall>cs i. good_path cs \<longrightarrow> holds (nodes (registry s)) cs i \<longrightarrow>
       holds (nodes (registry (snd (vfs_rename (ascii ''/tmp'') (ascii ''/var'') s)))) (moved os nw cs) i" by (elim exE conjE)
  have "os = [ascii ''tmp'']" "nw = [ascii ''var'']" using path_of_inj [OF o(3) g(2)] path_of_inj [OF o(4) g(3)] p o(1,2) by simp_all
  then have "moved os nw [ascii ''tmp'', ascii ''vfs-self-test''] = [ascii ''var'', ascii ''vfs-self-test'']" by (simp add: moved_def)
  then show ?thesis using o(5) [rule_format, OF g(1) seven] ok by (simp add: s_def)
qed

section \<open>Contents\<close>

text \<open>
  \<open>C\<close> gives the contents of the files on the disk. While the disk is not written, a read may fail;
  otherwise it delivers the bytes of the file and their number.
\<close>

definition disk_serves :: "'d reader \<Rightarrow> ('d \<Rightarrow> bool) \<Rightarrow> (bytes \<Rightarrow> bytes) \<Rightarrow> bool" where
  "disk_serves rdf D C \<longleftrightarrow> (\<forall>p off buf d q out d'. D d \<longrightarrow> rdf p off buf d = (q, out, d') \<longrightarrow> D d' \<and> length out = length buf \<and>
     (\<forall>k. q = Inr k \<longrightarrow> k = min (length buf) (length (C p) - off) \<and> take k out = slice (C p) off k))"

lemma disk_servesD:
  assumes "disk_serves rdf D C" "D d" "rdf p off buf d = (q, out, d')"
  shows "D d'" "length out = length buf" "q = Inr k \<Longrightarrow> k = min (length buf) (length (C p) - off)" "q = Inr k \<Longrightarrow> take k out = slice (C p) off k"
  using assms unfolding disk_serves_def by blast+

definition stored :: "(bytes \<Rightarrow> bytes) \<Rightarrow> Node \<Rightarrow> bytes" where
  "stored C n = take (nd_length n) (case nd_backing n of None \<Rightarrow> nd_data n | Some b \<Rightarrow> C (disk_path_str b))"

text \<open>What a reader of node \<open>j\<close> sees: the stored bytes under the shared pages.\<close>

definition file_view :: "(bytes \<Rightarrow> bytes) \<Rightarrow> nat \<Rightarrow> 'd Vfs \<Rightarrow> bytes" where
  "file_view C j s = overlay j (generations (registry s) ! j) 0 (stored C (nodes (registry s) ! j)) (file_frames s)"

lemma materialize_stored:
  assumes serves: "disk_serves rdf D C" and d: "D d" and n: "node_ok n" and run: "materialize_disk_node rdf n d = (Inr (), n', d')"
  shows "stored C n' = stored C n" "length (stored C n) = nd_length n" "D d'" "nd_backing n' = None"
proof -
  have l: "length (nd_data n) = NODE_CAPACITY" "nd_length n \<le> NODE_CAPACITY" using n by (simp_all add: node_ok_def)
  have "stored C n' = stored C n \<and> length (stored C n) = nd_length n \<and> D d' \<and> nd_backing n' = None"
  proof (cases "nd_backing n")
    case None
    then show ?thesis using run d l by (simp add: materialize_disk_node_def stored_def)
  next
    case (Some b)
    obtain c out e where r: "rdf (disk_path_str b) 0 (take (nd_length n) (nd_data n)) d = (c, out, e)" by (metis prod_cases3)
    note f = disk_servesD [OF serves d r]
    have out: "length out = nd_length n" using f(2) l by simp
    have res: "c = Inr (nd_length n)" "n' = n\<lparr>nd_data := copy_at (nd_data n) 0 out, nd_backing := None\<rparr>" "d' = e"
      using run Some r by (auto simp: materialize_disk_node_def Let_def split: sum.splits if_splits)
    have "out = slice (C (disk_path_str b)) 0 (nd_length n)" using f(4) [OF res(1)] out by simp
    moreover have "nd_length n \<le> length (C (disk_path_str b))" using f(3) [OF res(1)] l by simp
    ultimately show ?thesis using res Some f(1) out l by (simp add: stored_def slice_def copy_at_def)
  qed
  then show "stored C n' = stored C n" "length (stored C n) = nd_length n" "D d'" "nd_backing n' = None" by blast+
qed

lemma read_view:
  assumes serves: "disk_serves rdf D C" and d: "D (disk s)" and inv: "vfs_inv s" and wf: "frames_wf (file_frames s)"
    and e: "open_get i (open_files s) = Inr e"
  defines "n \<equiv> nodes (registry s) ! of_node e"
  defines "V \<equiv> file_view C (of_node e) s"
  assumes off: "off \<le> nd_length n" and m: "m = min (nd_length n - off) (length buffer)"
  shows "\<exists>d'. vfs_read_at rdf i off buffer s = (Inr m, copy_at buffer 0 (slice V off m), s\<lparr>disk := d'\<rparr>) \<and> (nd_backing n = None \<longrightarrow> d' = disk s) \<or>
    nd_backing n \<noteq> None \<and> fst (vfs_read_at rdf i off buffer s) = Inl Io"
proof -
  note g = open_get_entry [OF inv e]
  have ok: "node_ok n" using reg_node_ok [OF vfs_invD(1) [OF inv] g(4)] by (simp add: n_def)
  have l: "of_node e < length (nodes (registry s))" using g(4) reg_okD(2) [OF vfs_invD(1) [OF inv]] by simp
  have ov: "overlay (of_node e) (of_generation e) off (slice (stored C n) off m) (file_frames s) = slice V off m"
    unfolding V_def file_view_def using overlay_slice [OF wf] g(7) by (simp add: n_def)
  have copy: "copy_at (copy_at buffer 0 X) 0 Y = copy_at buffer 0 Y" if "length X = m" "length Y = m" for X Y :: bytes
    using that m by (simp add: copy_at_def)
  have front: "take m (copy_at buffer 0 X) = X" if "length X = m" for X :: bytes using that by (simp add: copy_at_def)
  have mle: "m \<le> nd_length n - off" "m \<le> length buffer" using m by simp_all
  have cut: "slice (take (nd_length n) xs) off m = slice xs off m" for xs :: bytes using mle(1) by (simp add: slice_def drop_take)
  show ?thesis
  proof (cases "nd_backing n")
    case None
    have X: "slice (nd_data n) off m = slice (stored C n) off m" using None cut by (simp add: stored_def)
    have "nd_length n \<le> length (nd_data n)" using ok by (simp add: node_ok_def)
    then have "length (slice (nd_data n) off m) = m" using mle(1) by (simp add: min_def)
    then have L: "length (slice (stored C n) off m) = m" using X by simp
    then have "length (slice V off m) = m" using length_overlay [OF wf] ov by metis
    then show ?thesis using e g(5) l off None X copy [OF L] front [OF L] ov
      by (simp add: vfs_read_at_def read_from_def Let_def n_def [symmetric] m [symmetric])
  next
    case (Some b)
    obtain q out d' where r: "rdf (disk_path_str b) off (take m buffer) (disk s) = (q, out, d')" by (metis prod_cases3)
    note f = disk_servesD [OF serves d r]
    have lo: "length out = m" using f(2) mle(2) by simp
    show ?thesis
    proof (cases "q = Inr m")
      case True
      have X: "out = slice (stored C n) off m" using f(4) [OF True] lo Some cut by (simp add: stored_def)
      have "length (slice V off m) = m" using length_overlay [OF wf] ov lo X by metis
      then show ?thesis using e g(5) l off Some r True copy [OF lo] front [OF lo] ov X
        by (intro exI [of _ d'] disjI1) (simp add: vfs_read_at_def read_from_def Let_def n_def [symmetric] m [symmetric])
    next
      case False
      then show ?thesis using e g(5) l off Some r
        by (simp add: vfs_read_at_def read_from_def Let_def n_def [symmetric] m [symmetric])
    qed
  qed
qed

lemma take_copy_at:
  assumes "off \<le> l" "l \<le> length xs" "off + length ys \<le> length xs"
  shows "take (max l (off + length ys)) (copy_at xs off ys) = copy_at (take l xs) off ys"
proof (cases "l \<le> off + length ys")
  case True
  then show ?thesis using assms by (simp add: copy_at_def max_def)
next
  case False
  then show ?thesis using assms by (simp add: copy_at_def max_def take_drop)
qed

lemma wrote_fields:
  assumes "of_node e < length (nodes (registry t))"
    and "n = nodes (registry t) ! of_node e" and "fin = of_offset e + length data"
  shows "nodes (registry (wrote i e data t)) ! of_node e = n\<lparr>nd_data := copy_at (nd_data n) (of_offset e) data, nd_length := max (nd_length n) fin\<rparr>"
    "generations (registry (wrote i e data t)) = generations (registry t)"
    "file_frames (wrote i e data t) = frames_update (of_node e) (of_generation e) (of_offset e) data (file_frames t)"
    "open_files (wrote i e data t) = (open_files t)[i := (open_files t ! i)\<lparr>of_offset := fin\<rparr>]" "disk (wrote i e data t) = disk t"
  using assms by (simp_all add: wrote_def Let_def set_offset_def bump_version_def)

lemma wrote_view:
  assumes inv: "vfs_inv t" and e: "open_get i (open_files t) = Inr e" and wf: "frames_wf (file_frames t)"
    and n: "n = nodes (registry t) ! of_node e" "nd_backing n = None" "of_offset e \<le> nd_length n" "of_offset e + length data \<le> NODE_CAPACITY"
    and c: "\<forall>f\<in>set (shared_entries (of_node e) (of_generation e) (file_frames t)). complete (nd_length n) f"
  shows "file_view C (of_node e) (wrote i e data t) = copy_at (file_view C (of_node e) t) (of_offset e) data"
proof -
  note g = open_get_entry [OF inv e]
  have l: "of_node e < length (nodes (registry t))" using g(4) reg_okD(2) [OF vfs_invD(1) [OF inv]] by simp
  have ok: "nd_length n \<le> length (nd_data n)" "length (nd_data n) = NODE_CAPACITY"
    using reg_node_ok [OF vfs_invD(1) [OF inv] g(4)] by (simp_all add: node_ok_def n(1))
  have st: "stored C n = take (nd_length n) (nd_data n)" "length (stored C n) = nd_length n" using n(2) ok by (simp_all add: stored_def)
  have "stored C (n\<lparr>nd_data := copy_at (nd_data n) (of_offset e) data, nd_length := max (nd_length n) (of_offset e + length data)\<rparr>) =
      copy_at (stored C n) (of_offset e) data"
    using take_copy_at [OF n(3) ok(1), of data] n(2,4) ok(2) st(1) by (simp add: stored_def)
  then show ?thesis
    using overlay_update [OF wf, of "of_node e" "of_generation e" "stored C n" "of_offset e" data] c n(3) st(2) g(7)
    unfolding file_view_def wrote_fields [OF l n(1) refl] n(1) [symmetric] by simp
qed

text \<open>The part of \<open>materialize\<close> that a reader sees.\<close>

lemma materialize_view:
  assumes serves: "disk_serves rdf D C" and d: "D (disk s)" and inv: "vfs_inv s" and i: "i < MAX_VFS_NODES"
    and run: "materialize rdf i s = (Inr (), t)"
  shows "file_view C i t = file_view C i s" "D (disk t)" "nd_backing (nodes (registry t) ! i) = None"
    "nd_length (nodes (registry t) ! i) = nd_length (nodes (registry s) ! i)" "length (stored C (nodes (registry s) ! i)) = nd_length (nodes (registry s) ! i)"
    "file_frames t = file_frames s" "open_files t = open_files s"
proof -
  have ok: "node_ok (nodes (registry s) ! i)" using reg_node_ok [OF vfs_invD(1) [OF inv] i] .
  have l: "i < length (nodes (registry s))" using i reg_okD(2) [OF vfs_invD(1) [OF inv]] by simp
  obtain n d' where m: "materialize_disk_node rdf (nodes (registry s) ! i) (disk s) = (Inr (), n, d')"
    and t: "t = s\<lparr>registry := nodes_update (\<lambda>ns. ns[i := n]) (registry s), disk := d'\<rparr>"
    using run by (auto simp: materialize_def split: prod.splits)
  note st = materialize_stored [OF serves d ok m]
  have len: "nd_length n = nd_length (nodes (registry s) ! i)"
    using m by (auto simp: materialize_disk_node_def Let_def split: option.splits prod.splits sum.splits if_splits)
  show "file_view C i t = file_view C i s" "D (disk t)" "nd_backing (nodes (registry t) ! i) = None"
    "nd_length (nodes (registry t) ! i) = nd_length (nodes (registry s) ! i)" "length (stored C (nodes (registry s) ! i)) = nd_length (nodes (registry s) ! i)"
    "file_frames t = file_frames s" "open_files t = open_files s"
    using st t l len by (simp_all add: file_view_def)
qed

lemma length_file_view: "frames_wf (file_frames s) \<Longrightarrow> length (file_view C j s) = length (stored C (nodes (registry s) ! j))"
  by (simp add: file_view_def)

text \<open>A file in memory is read without failure, and the read changes nothing.\<close>

lemma read_memory_file:
  assumes serves: "disk_serves rdf D C" and d: "D (disk s)" and inv: "vfs_inv s" and wf: "frames_wf (file_frames s)"
    and e: "open_get i (open_files s) = Inr e" and n: "nd_backing (nodes (registry s) ! of_node e) = None"
    and off: "off \<le> length (file_view C (of_node e) s)" and m: "m = min (length (file_view C (of_node e) s) - off) (length buffer)"
  shows "vfs_read_at rdf i off buffer s = (Inr m, copy_at buffer 0 (slice (file_view C (of_node e) s) off m), s)"
proof -
  have "node_ok (nodes (registry s) ! of_node e)" using reg_node_ok [OF vfs_invD(1) [OF inv] open_get_entry(4) [OF inv e]] .
  then have l: "length (file_view C (of_node e) s) = nd_length (nodes (registry s) ! of_node e)"
    using n by (simp add: length_file_view [OF wf] stored_def node_ok_def)
  show ?thesis using read_view [OF serves d inv wf e, of off m buffer] off m n unfolding l by auto
qed


text \<open>The file \<open>/tmp/vfs-self-test\<close> of the boot image, opened.\<close>

definition test_state :: "(bytes \<Rightarrow> bytes) Vfs" where
  "test_state = (vfs_boot no_frames no_files)\<lparr>open_files := open_table_empty[0 := \<lparr>of_node = 7, of_generation = 0, of_offset = 0,
     of_refcount = 1, of_occupied = True\<rparr>]\<rparr>"

lemma file_reader_serves: "disk_serves file_reader (\<lambda>d. d = C) C"
  by (auto simp: disk_serves_def file_reader_def Let_def copy_at_def min_def)

lemma boot_file_7:
  "nodes registry_boot ! 7 = node_with_data (ascii ''/tmp/vfs-self-test'') [] True" "nd_length (nodes registry_boot ! 7) = 0"
  "nd_backing (nodes registry_boot ! 7) = None" "nd_writable (nodes registry_boot ! 7)"
  by (simp_all add: boot_registry_nodes boot_nodes_def boot_names_def nth_append boot_paths node_with_data_def node_empty_def)

lemma test_file:
  "good_path [ascii ''tmp'', ascii ''vfs-self-test'']" "path_of [ascii ''tmp'', ascii ''vfs-self-test''] = ascii ''/tmp/vfs-self-test''"
  "holds (nodes registry_boot) [ascii ''tmp'', ascii ''vfs-self-test''] 7" "nd_kind (nodes registry_boot ! 7) = File"
  "validate_absolute_path (ascii ''/tmp/vfs-self-test'') = Inr ()"
proof -
  show g: "good_path [ascii ''tmp'', ascii ''vfs-self-test'']" by code_simp
  show p: "path_of [ascii ''tmp'', ascii ''vfs-self-test''] = ascii ''/tmp/vfs-self-test''" by (rule boot_paths)
  show "holds (nodes registry_boot) [ascii ''tmp'', ascii ''vfs-self-test''] 7" using boot_holds [OF g, of 7] by (simp add: boot_names_def)
  show "nd_kind (nodes registry_boot ! 7) = File" by (simp add: boot_file_7(1) node_with_data_fields)
  show "validate_absolute_path (ascii ''/tmp/vfs-self-test'') = Inr ()" using validate_path_of [OF g] p by simp
qed

lemma test_position:
  assumes "\<And>n. P n \<Longrightarrow> node_matches (ascii ''/tmp/vfs-self-test'') n" "P (nodes registry_boot ! 7)"
  shows "position P (nodes registry_boot) = Some 7"
proof (rule position_unique)
  show "j = 7" if "j < length (nodes registry_boot)" "P (nodes registry_boot ! j)" for j
    using tree_unique [OF boot_tree test_file(1) _ test_file(3)] holds_matches [OF that(1)] assms(1) [OF that(2)] unfolding test_file(2) [symmetric] by simp
qed (use assms test_file(3) in \<open>simp_all add: holds_def\<close>)

lemma test_matches: "node_matches (ascii ''/tmp/vfs-self-test'') (nodes registry_boot ! 7)"
  using test_file(3) unfolding test_file(2) [symmetric] by (simp add: holds_def node_matches_def)

lemma open_test_file: "vfs_open (ascii ''/tmp/vfs-self-test'') (vfs_boot no_frames no_files) = (Inr 0, test_state)"
proof -
  have "position (\<lambda>n. node_matches (ascii ''/tmp/vfs-self-test'') n \<and> nd_kind n = File) (nodes registry_boot) = Some 7"
    by (rule test_position) (simp_all add: test_matches test_file(4))
  moreover have "position (\<lambda>e. \<not> of_occupied e) open_table_empty = Some 0"
    by (simp add: open_table_empty_def position_Some_iff open_file_empty_def MAX_OPEN_FILES_def)
  moreover have "generations registry_boot ! 7 = 0" by (simp add: registry_boot_def MAX_VFS_NODES_def)
  ultimately show ?thesis
    using test_file(5) by (simp add: vfs_open_def io_unfold vfs_boot_def on_open_files_def open_alloc_def test_state_def)
qed

lemma test_state_fields:
  "vfs_history file_reader test_state" "disk test_state = no_files" "file_frames test_state = no_frames" "registry test_state = registry_boot"
  "open_get 0 (open_files test_state) = Inr \<lparr>of_node = 7, of_generation = 0, of_offset = 0, of_refcount = 1, of_occupied = True\<rparr>"
  using vfs_history.open_file [OF vfs_history.boot open_test_file]
  by (simp_all add: test_state_def vfs_boot_def open_get_def open_table_empty_def MAX_OPEN_FILES_def)

lemma no_frames_wf: "frames_wf no_frames" "shared_entries j g no_frames = []"
  by (simp_all add: frames_wf_def no_frames_def flatten_def shared_entries_def)

lemma vfs_write_succeeds:
  assumes inv: "vfs_inv s" and e: "open_get i (open_files s) = Inr e" and n: "n = nodes (registry s) ! of_node e" "nd_backing n = None"
    "nd_writable n" "of_offset e \<le> nd_length n" "of_offset e + length buf \<le> NODE_CAPACITY"
  shows "fst (vfs_write rdf i buf s) = Inr (length buf)"
proof -
  note g = open_get_entry [OF inv e]
  have l: "of_node e < length (nodes (registry s))" using g(4) reg_okD(2) [OF vfs_invD(1) [OF inv]] by simp
  have "min (length buf) (NODE_CAPACITY - of_offset e) = length buf" using n(5) by simp
  then show ?thesis
    using e g(5) l n by (simp add: vfs_write_def get_entry_def io_unfold Let_def materialize_def materialize_disk_node_def)
qed


section \<open>Removing an open file\<close>

lemma unnamed_node_fields:
  assumes "j < length (nodes (registry t))"
  shows "nodes (registry (unnamed_node j t)) ! j = (nodes (registry t) ! j)\<lparr>nd_path_length := 0, nd_path := replicate MAX_PATH_SIZE 0\<rparr>"
    "k \<noteq> j \<Longrightarrow> nodes (registry (unnamed_node j t)) ! k = nodes (registry t) ! k" "open_files (unnamed_node j t) = open_files t"
    "disk (unnamed_node j t) = disk t" "file_frames (unnamed_node j t) = file_frames t"
    "length (nodes (registry (unnamed_node j t))) = length (nodes (registry t))" "file_view C j (unnamed_node j t) = file_view C j t"
  using assms by (simp_all add: unnamed_node_def file_view_def stored_def cong: option.case_cong)

text \<open>The path of the node is free afterwards.\<close>

lemma unnamed_open:
  assumes inv: "vfs_inv t" and g: "good_path cs" and h: "holds (nodes (registry t)) cs j"
  shows "fst (vfs_open (path_of cs) (unnamed_node j t)) = Inl NotFound"
proof -
  note r = vfs_invD(1) [OF inv]
  have j: "j < length (nodes (registry t))" using h by (simp add: holds_def)
  have "\<not> holds (nodes (registry (unnamed_node j t))) cs k" for k
    using holds_named [of "nodes (registry (unnamed_node j t))" cs k] unnamed_node_fields [OF j] tree_unique [OF reg_okD(1) [OF r] g _ h, of k]
    by (cases "k = j") (auto simp: holds_def named_def)
  then have "\<not> list_ex (node_matches (path_of cs)) (nodes (registry (unnamed_node j t)))" unfolding list_ex_matches by blast
  then have "position (\<lambda>n. node_matches (path_of cs) n \<and> nd_kind n = File) (nodes (registry (unnamed_node j t))) = None"
    by (auto simp: list_ex_iff)
  then show ?thesis using validate_path_of [OF g] by (simp add: vfs_open_def io_unfold del: position_None)
qed

lemma closed_orphan:
  assumes inv: "vfs_inv s" and e: "open_get i (open_files s) = Inr e" and u: "\<not> named (nodes (registry s) ! of_node e)"
    and run: "close_open_file i s = (q, t)" and o: "nd_occupied (nodes (registry t) ! of_node e)"
  shows "node_open (of_node e) (open_files t) \<or> generations (registry t) ! of_node e = - 1"
proof -
  note g = open_get_entry [OF inv e]
  have l: "of_node e < length (nodes (registry s))" using g(4) reg_okD(2) [OF vfs_invD(1) [OF inv]] by simp
  have "\<not> named (nodes (registry t) ! of_node e)"
    using inv run by (cases rule: close_cases) (use u e o l in \<open>auto simp: freed_def\<close>)
  then show ?thesis using vfs_invD(3) [OF inv_close [OF inv run]] g(4) o by (simp add: orphans_ok_def)
qed

text \<open>
  C38: A file that is removed while open is gone for everyone else and unchanged for its holders. After a
  successful removal the path is free, the descriptor still refers to the file with the same
  contents, now in memory even if they were on the disk, and reads through it cannot fail. The node is
  freed when its last descriptor is closed.
\<close>

theorem vfs_unlink_keeps_open_file:
  assumes "reader_ok rdf" and "vfs_history rdf s" and "disk_serves rdf D C" and "D (disk s)" and "frames_wf (file_frames s)"
    and "open_get i (open_files s) = Inr e" and "good_path cs" and "holds (nodes (registry s)) cs (of_node e)"
    and "vfs_remove rdf (path_of cs) s = (Inr (), s')"
  shows "fst (vfs_open (path_of cs) s') = Inl NotFound \<and> open_get i (open_files s') = Inr e \<and>
    file_view C (of_node e) s' = file_view C (of_node e) s \<and>
    (\<forall>off buffer m. off \<le> length (file_view C (of_node e) s) \<and> m = min (length (file_view C (of_node e) s) - off) (length buffer) \<longrightarrow>
       vfs_read_at rdf i off buffer s' = (Inr m, copy_at buffer 0 (slice (file_view C (of_node e) s) off m), s')) \<and>
    (\<forall>q t. close_open_file i s' = (q, t) \<longrightarrow> nd_occupied (nodes (registry t) ! of_node e) \<longrightarrow>
       node_open (of_node e) (open_files t) \<or> generations (registry t) ! of_node e = - 1)"
proof -
  have inv: "vfs_inv s" using vfs_history_inv [OF assms(1,2)] .
  note g = open_get_entry [OF inv assms(6)]
  have no: "node_open (of_node e) (open_files s)" using g(1-3) by (auto simp: node_open_iff)
  from inv assms(9) obtain t where t: "materialize rdf (of_node e) s = (Inr (), t)" "s' = unnamed_node (of_node e) t"
  proof (cases rule: vfs_remove_cases)
    case (kept bs j a t)
    have "bs = cs" using path_of_inj [OF assms(7) kept(1)] kept(2) by simp
    then have "j = of_node e" using tree_unique [OF reg_okD(1) [OF vfs_invD(1) [OF inv]] assms(7) _ assms(8)] kept(3) by simp
    moreover have "a = Inr ()" using kept(7) by simp
    ultimately show ?thesis using that [of t] kept(6,8) by simp
  next
    case (closed bs j)
    have "bs = cs" using path_of_inj [OF assms(7) closed(1)] closed(2) by simp
    then have "j = of_node e" using tree_unique [OF reg_okD(1) [OF vfs_invD(1) [OF inv]] assms(7) _ assms(8)] closed(3) by simp
    then show ?thesis using closed(4) no by simp
  qed simp
  note m = materialize_view [OF assms(3,4) inv g(4) t(1)]
  from assms(1) inv g(4) t(1) obtain n d where mt: "t = s\<lparr>registry := (registry s)\<lparr>nodes := (nodes (registry s))[of_node e := n]\<rparr>, disk := d\<rparr>"
    "vfs_inv t" "same_name (nodes (registry s) ! of_node e) n" by (rule inv_materialize)
  have l: "of_node e < length (nodes (registry s))" "of_node e < length (nodes (registry t))"
    using g(4) reg_okD(2) [OF vfs_invD(1) [OF inv]] reg_okD(2) [OF vfs_invD(1) [OF mt(2)]] by simp_all
  have ht: "holds (nodes (registry t)) cs (of_node e)" using holds_same_name(1) [OF l(1) mt(3)] assms(8) mt(1) by simp
  note f = unnamed_node_fields [OF l(2)]
  have inv': "vfs_inv s'" by (rule inv_remove [OF assms(1) inv assms(9)])
  have e': "open_get i (open_files s') = Inr e" using assms(6) f(3) m(7) t(2) by simp
  have view: "file_view C (of_node e) s' = file_view C (of_node e) s" using f(7) m(1) t(2) by simp
  have "vfs_read_at rdf i off buffer s' = (Inr k, copy_at buffer 0 (slice (file_view C (of_node e) s) off k), s')"
    if "off \<le> length (file_view C (of_node e) s)" "k = min (length (file_view C (of_node e) s) - off) (length buffer)" for off buffer k
    using read_memory_file [OF assms(3) _ inv' _ e' _ _ _, of off k buffer] that f m assms(5) t(2) view by simp
  moreover have "node_open (of_node e) (open_files u) \<or> generations (registry u) ! of_node e = - 1"
    if "close_open_file i s' = (q, u)" "nd_occupied (nodes (registry u) ! of_node e)" for q u
    using closed_orphan [OF inv' e' _ that] f(1) t(2) by (simp add: named_def)
  ultimately show ?thesis using unnamed_open [OF mt(2) assms(7) ht] e' view t(2) by blast
qed

theorem vfs_unlink_keeps_open_file_witness:
  "\<exists>s'. vfs_remove file_reader (ascii ''/tmp/vfs-self-test'') test_state = (Inr (), s') \<and>
     fst (vfs_open (ascii ''/tmp/vfs-self-test'') s') = Inl NotFound \<and>
     vfs_read_at file_reader 0 0 (replicate 4 1) s' = (Inr 0, replicate 4 1, s')"
proof -
  define s' where "s' = snd (vfs_remove file_reader (ascii ''/tmp/vfs-self-test'') test_state)"
  have "position (node_matches (ascii ''/tmp/vfs-self-test'')) (nodes registry_boot) = Some 7"
    by (rule test_position) (simp_all add: test_matches)
  moreover have "node_open 7 (open_files test_state)"
    using open_get_entry(1,2) [OF vfs_history_inv [OF file_reader_ok test_state_fields(1)] test_state_fields(5)]
    unfolding node_open_iff by (intro exI [of _ 0]) simp
  ultimately have "fst (vfs_remove file_reader (ascii ''/tmp/vfs-self-test'') test_state) = Inr ()"
    using test_file(4,5) boot_file_7(3) test_state_fields(4)
    by (simp add: vfs_remove_def io_unfold materialize_def materialize_disk_node_def on_registry_def)
  then have w: "vfs_remove file_reader (path_of [ascii ''tmp'', ascii ''vfs-self-test'']) test_state = (Inr (), s')"
    unfolding s'_def test_file(2) by (metis prod.collapse)
  have st: "file_view no_files 7 test_state = []"
    by (simp add: file_view_def test_state_fields(3,4) stored_def boot_file_7(2) overlay_eq [OF no_frames_wf(1)])
  note u = vfs_unlink_keeps_open_file [OF file_reader_ok test_state_fields(1) file_reader_serves test_state_fields(2) _ test_state_fields(5) test_file(1) _ w,
      unfolded test_state_fields(3,4)]
  have "fst (vfs_open (ascii ''/tmp/vfs-self-test'') s') = Inl NotFound" "vfs_read_at file_reader 0 0 (replicate 4 1) s' = (Inr 0, replicate 4 1, s')"
    using u no_frames_wf(1) test_file(2,3) st by (simp_all add: slice_def)
  then show ?thesis using w test_file(2) by auto
qed

section \<open>Where shared mappings lose bytes\<close>

lemma overlay_none: "shared_entries j g fs = [] \<Longrightarrow> overlay j g off data fs = data"
  by (simp add: overlay_def shared_entries_def)


definition disk_test_state :: "(bytes \<Rightarrow> bytes) Vfs" where
  "disk_test_state = test_state\<lparr>disk := \<lambda>p. ascii ''disk'', registry := registry_boot\<lparr>nodes := (nodes registry_boot)[7 := (nodes registry_boot ! 7)\<lparr>
     nd_backing := Some \<lparr>dp_bytes = nd_path (nodes registry_boot ! 7), dp_length = nd_path_length (nodes registry_boot ! 7)\<rparr>, nd_length := 4\<rparr>]\<rparr>\<rparr>"


text \<open>
  C40: A write can corrupt a byte it does not cover. When a shared page holds fewer bytes than the file has
  in that page (it was loaded for a mapping made before the file grew), a write behind them extends
  the page over the gap, and readers then see the bytes of the frame there, which were never loaded,
  instead of the bytes of the file that they saw before.
\<close>

theorem shared_page_gap:
  assumes "frames_wf s" and "shared_entries j g s = [f]" and "off \<le> length st" and "data \<noteq> []"
    and "k_offset (fe_key f) + k_count (fe_key f) \<le> p" and "p < off" and "off < k_offset (fe_key f) + 4096"
  shows "overlay j g 0 st s ! p = st ! p \<and>
    overlay j g 0 (copy_at st off data) (frames_update j g off data s) ! p = frame_bytes s (fe_frame f) ! (p - k_offset (fe_key f))"
proof -
  note u = frames_update_effect [OF assms(1), where node = j and generation = g and off = off and data = data]
  have k: "k_count (fe_key f) \<le> 4096" "length (frame_bytes s (fe_frame f)) = 4096"
    using shared_entries_wf [OF assms(1), of f j g] assms(2) by simp_all
  have nc: "\<not> covers f p" using assms(5) by (simp add: covers_def)
  have "shown (frame_bytes s) [f] p b = b" for b using nc by (simp add: shown_def)
  then have before: "overlay j g 0 st s ! p = st ! p"
    using assms(3,6) unfolding overlay_eq [OF assms(1)] assms(2) by simp
  have c: "covers (grown off (length data) f) p" using assms(4-7) by (cases data) (auto simp: covers_grown)
  have len: "p < length (copy_at st off data)" using assms(3,6) by (simp add: copy_at_def)
  have "written off data f (frame_bytes s (fe_frame f)) ! (p - k_offset (fe_key f)) = frame_bytes s (fe_frame f) ! (p - k_offset (fe_key f))"
    using written_nth(2) [OF k, of "p - k_offset (fe_key f)" off data] assms(5-7) by (simp add: Let_def)
  then have "shown (frame_bytes (frames_update j g off data s)) [grown off (length data) f] p b = frame_bytes s (fe_frame f) ! (p - k_offset (fe_key f))" for b
    using c u(3) [of f] assms(2) by (simp add: shown_def)
  then have "overlay j g 0 (copy_at st off data) (frames_update j g off data s) ! p = frame_bytes s (fe_frame f) ! (p - k_offset (fe_key f))"
    using len u(1) assms(2) unfolding overlay_eq [OF u(2)] by simp
  with before show ?thesis by blast
qed

definition gap_frames :: FrameState where
  "gap_frames = no_frames\<lparr>ff_cache := [Some \<lparr>fe_key = \<lparr>k_node = 7, k_generation = 0, k_version = 0, k_offset = 0, k_count = 2, k_shared = True,
     k_snapshot = 0\<rparr>, fe_frame = 4096, fe_age = 0\<rparr>]\<rparr>"

theorem shared_page_gap_witness:
  "overlay 7 0 0 [1, 2, 3, 4] gap_frames ! 2 = 3 \<and>
   overlay 7 0 0 (copy_at [1, 2, 3, 4] 4 [9]) (frames_update 7 0 4 [9] gap_frames) ! 2 = 0"
proof -
  have wf: "frames_wf gap_frames" by (simp add: frames_wf_def gap_frames_def no_frames_def)
  obtain f where f: "shared_entries 7 0 gap_frames = [f]" "k_offset (fe_key f) = 0" "k_count (fe_key f) = 2"
    by (simp add: shared_entries_def gap_frames_def shows_file_def)
  have z: "frame_bytes gap_frames (fe_frame f) ! 2 = 0" by (simp add: gap_frames_def no_frames_def)
  show ?thesis using shared_page_gap [OF wf f(1), of 4 "[1, 2, 3, 4]" "[9]" 2] f z by simp
qed

end
