(* ===== verification/Page_Cache.thy ===== *)
theory Page_Cache
  imports Block
begin

text \<open>
  The file page cache (\<open>kernel/src/page_cache.rs\<close>): a fixed number of slots holds pages of
  disk files, keyed by path and page number; a read copies page by page and loads what is
  missing. The loader is a parameter that works on a device state of its own, as the closure of
  the storage layer does.

  The lemmas show that the cache cannot be told from reading the file: every valid slot holds
  what the file holds, also after failed loads and evictions.
\<close>

section \<open>The cache\<close>

definition FILE_PAGE_SIZE :: nat where
  "FILE_PAGE_SIZE = 4096"

definition KEY_SIZE :: nat where
  "KEY_SIZE = 128"

record PageSlot =
  sl_key :: bytes
  sl_key_len :: nat
  sl_page :: nat
  sl_data :: bytes
  sl_length :: nat
  sl_valid :: bool
  sl_age :: u64

definition page_slot_empty :: PageSlot where
  "page_slot_empty = \<lparr>sl_key = replicate KEY_SIZE 0, sl_key_len = 0, sl_page = 0, sl_data = replicate FILE_PAGE_SIZE 0,
     sl_length = 0, sl_valid = False, sl_age = 0\<rparr>"

record PageStats =
  ps_hits :: u64
  ps_misses :: u64
  ps_evictions :: u64
  ps_resident :: nat
  ps_capacity :: nat

record PageCache =
  slots :: "PageSlot list"
  pc_hits :: u64
  pc_misses :: u64
  pc_evictions :: u64

definition page_cache_new :: "nat \<Rightarrow> PageCache" where
  "page_cache_new n = \<lparr>slots = replicate n page_slot_empty, pc_hits = 0, pc_misses = 0, pc_evictions = 0\<rparr>"

definition page_cache_stats :: "PageCache \<Rightarrow> PageStats" where
  "page_cache_stats c = \<lparr>ps_hits = pc_hits c, ps_misses = pc_misses c, ps_evictions = pc_evictions c,
     ps_resident = length (filter sl_valid (slots c)), ps_capacity = length (slots c)\<rparr>"

definition page_cache_invalidate :: "PageCache \<Rightarrow> PageCache" where
  "page_cache_invalidate c = c\<lparr>slots := map (\<lambda>s. s\<lparr>sl_valid := False\<rparr>) (slots c)\<rparr>"

definition page_find :: "bytes \<Rightarrow> nat \<Rightarrow> PageCache \<Rightarrow> nat option" where
  "page_find key page c =
     position (\<lambda>s. sl_valid s \<and> sl_page s = page \<and> sl_key_len s = length key \<and> take (sl_key_len s) (sl_key s) = key)
       (slots c)"

definition page_victim :: "PageCache \<Rightarrow> nat" where
  "page_victim c =
     (case position (\<lambda>s. \<not> sl_valid s) (slots c) of
        Some index \<Rightarrow> index
      | None \<Rightarrow> the (max_index sl_age (slots c)))"

text \<open>
  The slot of a page, loaded if it is not there. The loader gets the byte offset of the page and
  the zeroed slot buffer, and returns the number of bytes it has put there.
\<close>

type_synonym 'd loader = "nat \<Rightarrow> bytes \<Rightarrow> 'd \<Rightarrow> (block_error + nat) \<times> bytes \<times> 'd"

definition page_fetch ::
  "bytes \<Rightarrow> nat \<Rightarrow> 'd loader \<Rightarrow> PageCache \<Rightarrow> 'd \<Rightarrow> (block_error + nat) \<times> PageCache \<times> 'd" where
  "page_fetch key page load c d =
     (case page_find key page c of
        Some index \<Rightarrow> (Inr index, c\<lparr>pc_hits := saturating_add (pc_hits c) 1\<rparr>, d)
      | None \<Rightarrow>
          (let c = c\<lparr>pc_misses := saturating_add (pc_misses c) 1\<rparr>;
               index = page_victim c;
               slot = slots c ! index;
               c = (if sl_valid slot then c\<lparr>pc_evictions := saturating_add (pc_evictions c) 1\<rparr> else c);
               (r, data, d) = load (page * FILE_PAGE_SIZE) (replicate FILE_PAGE_SIZE 0) d;
               failed = c\<lparr>slots := (slots c)[index := slot\<lparr>sl_valid := False, sl_data := data\<rparr>]\<rparr>
           in case r of
                Inl e \<Rightarrow> (Inl e, failed, d)
              | Inr len \<Rightarrow>
                  if len > FILE_PAGE_SIZE then (Inl InvalidBuffer, failed, d)
                  else (Inr index,
                    c\<lparr>slots := (slots c)[index := slot\<lparr>sl_key := copy_at (sl_key slot) 0 key, sl_key_len := length key,
                      sl_page := page, sl_data := data, sl_length := len, sl_valid := True\<rparr>]\<rparr>, d)))"

definition page_touch :: "nat \<Rightarrow> PageCache \<Rightarrow> PageCache" where
  "page_touch index c =
     (let older = map (\<lambda>s. if sl_valid s then s\<lparr>sl_age := saturating_add (sl_age s) 1\<rparr> else s) (slots c)
      in c\<lparr>slots := older[index := (older ! index)\<lparr>sl_age := 0\<rparr>]\<rparr>)"

function page_read_loop ::
  "bytes \<Rightarrow> nat \<Rightarrow> 'd loader \<Rightarrow> nat \<Rightarrow> bytes \<Rightarrow> PageCache \<Rightarrow> 'd \<Rightarrow> (block_error + nat) \<times> bytes \<times> PageCache \<times> 'd" where
  "page_read_loop key off load copied out c d =
     (if copied < length out
      then let position = off + copied;
               page = position div FILE_PAGE_SIZE;
               within = position mod FILE_PAGE_SIZE
           in case page_fetch key page load c d of
                (Inl e, c, d) \<Rightarrow> (Inl e, out, c, d)
              | (Inr index, c, d) \<Rightarrow>
                  (let c = page_touch index c;
                       slot = slots c ! index;
                       count = min (sl_length slot - within) (length out - copied)
                   in if count = 0 then (Inr copied, out, c, d)
                      else let out = copy_at out copied (slice (sl_data slot) within count);
                               copied = copied + count
                           in if sl_length slot < FILE_PAGE_SIZE then (Inr copied, out, c, d)
                              else page_read_loop key off load copied out c d)
      else (Inr copied, out, c, d))"
  by pat_completeness auto
termination
  by (relation "measure (\<lambda>(key, off, load, copied, out, c, d). length out - copied)")
    (auto simp: copy_at_def)

declare page_read_loop.simps [simp del]

definition page_cache_read ::
  "bytes \<Rightarrow> nat \<Rightarrow> bytes \<Rightarrow> 'd loader \<Rightarrow> PageCache \<Rightarrow> 'd \<Rightarrow> (block_error + nat) \<times> bytes \<times> PageCache \<times> 'd" where
  "page_cache_read key off out load c d =
     (if key = [] \<or> length key > KEY_SIZE \<or> slots c = [] \<or> checked_add_usize off (length out) = None
      then (Inl InvalidBuffer, out, c, d)
      else page_read_loop key off load 0 out c d)"

section \<open>The cache holds what the files hold\<close>

text \<open>
  \<open>F\<close> gives the contents of the file behind a key. \<open>loads\<close> is what the storage layer promises of a
  loader for one file: from a device on which the files are as \<open>J\<close> says, it fails or delivers the
  page, and leaves such a device.
\<close>

definition loads :: "bytes \<Rightarrow> ('d \<Rightarrow> bool) \<Rightarrow> 'd loader \<Rightarrow> bool" where
  "loads f J load \<longleftrightarrow>
     (\<forall>off d r data d'. J d \<longrightarrow> load off (replicate FILE_PAGE_SIZE 0) d = (r, data, d') \<longrightarrow>
        J d' \<and> length data = FILE_PAGE_SIZE \<and>
        (\<forall>n. r = Inr n \<longrightarrow> n = min FILE_PAGE_SIZE (length f - off) \<and> take n data = slice f off n))"

definition slot_ok :: "(bytes \<Rightarrow> bytes) \<Rightarrow> PageSlot \<Rightarrow> bool" where
  "slot_ok F s \<longleftrightarrow> length (sl_key s) = KEY_SIZE \<and>
     (sl_valid s \<longrightarrow>
        (let f = F (take (sl_key_len s) (sl_key s)); off = sl_page s * FILE_PAGE_SIZE
         in sl_length s = min FILE_PAGE_SIZE (length f - off) \<and> take (sl_length s) (sl_data s) = slice f off (sl_length s)))"

definition pages_ok :: "(bytes \<Rightarrow> bytes) \<Rightarrow> PageCache \<Rightarrow> bool" where
  "pages_ok F c \<longleftrightarrow> (\<forall>s\<in>set (slots c). slot_ok F s)"

lemma pages_ok_new: "pages_ok F (page_cache_new n)"
  by (simp add: pages_ok_def page_cache_new_def slot_ok_def page_slot_empty_def)

text \<open>Invalidation makes the cache right for any new contents.\<close>

lemma pages_ok_invalidate: "pages_ok F c \<Longrightarrow> pages_ok G (page_cache_invalidate c)"
  by (simp add: pages_ok_def page_cache_invalidate_def slot_ok_def)

lemma pages_ok_update:
  "pages_ok F c \<Longrightarrow> slot_ok F s \<Longrightarrow> pages_ok F (c\<lparr>slots := (slots c)[i := s]\<rparr>)"
  using set_update_subset_insert [of "slots c" i s] by (auto simp: pages_ok_def)

lemma pages_ok_touch: "pages_ok F c \<Longrightarrow> i < length (slots c) \<Longrightarrow> pages_ok F (page_touch i c)"
  unfolding page_touch_def Let_def pages_ok_def
  by (auto simp: slot_ok_def dest!: set_update_subset_insert [THEN subsetD])

lemma page_touch_nth:
  "i < length (slots c) \<Longrightarrow> slots (page_touch i c) ! i = (slots c ! i)\<lparr>sl_age := 0\<rparr>"
  by (simp add: page_touch_def Let_def)

lemma length_page_touch [simp]: "length (slots (page_touch i c)) = length (slots c)"
  by (simp add: page_touch_def Let_def)

lemma page_victim_bound: "slots c \<noteq> [] \<Longrightarrow> page_victim c < length (slots c)"
  using max_index_Some [of sl_age "slots c"]
  by (cases "max_index sl_age (slots c)") (auto simp: page_victim_def split: option.splits dest: position_SomeD)

text \<open>A miss loads into one slot and changes no other.\<close>

lemma page_fetch_miss:
  assumes "page_find key page c = None" "load (page * FILE_PAGE_SIZE) (replicate FILE_PAGE_SIZE 0) d = (q, data, d1)"
    and "page_fetch key page load c d = (r, c', d')" and "slots c \<noteq> []"
  obtains i s where "i < length (slots c)" "slots c' = (slots c)[i := s]" "d' = d1"
    "r = Inr i \<and> q = Inr (sl_length s) \<and> sl_length s \<le> FILE_PAGE_SIZE \<and> sl_key s = copy_at (sl_key (slots c ! i)) 0 key \<and>
       sl_key_len s = length key \<and> sl_page s = page \<and> sl_data s = data \<and> sl_valid s \<or>
     (\<exists>e. r = Inl e \<and> (q = Inl e \<or> (\<exists>n. q = Inr n \<and> n > FILE_PAGE_SIZE))) \<and> \<not> sl_valid s \<and> sl_key s = sl_key (slots c ! i)"
proof -
  let ?i = "page_victim (c\<lparr>pc_misses := saturating_add (pc_misses c) 1\<rparr>)"
  let ?s = "slots c ! ?i"
  have i: "?i < length (slots c)" using page_victim_bound [of "c\<lparr>pc_misses := saturating_add (pc_misses c) 1\<rparr>"] assms(4) by simp
  show thesis
  proof (cases "\<exists>n. q = Inr n \<and> n \<le> FILE_PAGE_SIZE")
    case True
    then obtain n where n: "q = Inr n" "n \<le> FILE_PAGE_SIZE" by blast
    show thesis
      by (rule that [of ?i "?s\<lparr>sl_key := copy_at (sl_key ?s) 0 key, sl_key_len := length key,
          sl_page := page, sl_data := data, sl_length := n, sl_valid := True\<rparr>"])
        (use assms i n in \<open>auto simp: page_fetch_def Let_def\<close>)
  next
    case False
    show thesis
      by (rule that [of ?i "?s\<lparr>sl_valid := False, sl_data := data\<rparr>"])
        (use assms i False in \<open>auto simp: page_fetch_def Let_def split: sum.splits\<close>)
  qed
qed

lemma page_fetch_ok:
  assumes ok: "pages_ok F c" and ne: "slots c \<noteq> []" and key: "length key \<le> KEY_SIZE"
    and load: "loads (F key) J load" "J d" and fetch: "page_fetch key page load c d = (r, c', d')"
  shows "pages_ok F c' \<and> J d' \<and> length (slots c') = length (slots c) \<and>
    (\<forall>i. r = Inr i \<longrightarrow> i < length (slots c) \<and> sl_length (slots c' ! i) = min FILE_PAGE_SIZE (length (F key) - page * FILE_PAGE_SIZE) \<and>
       take (sl_length (slots c' ! i)) (sl_data (slots c' ! i)) = slice (F key) (page * FILE_PAGE_SIZE) (sl_length (slots c' ! i))) \<and>
    (\<forall>e. r = Inl e \<longrightarrow> (\<exists>off buf d. fst (load off buf d) = Inl e))"
proof (cases "page_find key page c")
  case (Some j)
  then have j: "j < length (slots c)" "sl_valid (slots c ! j)" "sl_page (slots c ! j) = page"
    "take (sl_key_len (slots c ! j)) (sl_key (slots c ! j)) = key"
    by (auto simp: page_find_def dest: position_SomeD)
  from ok j(1) have "slot_ok F (slots c ! j)" by (simp add: pages_ok_def)
  moreover have "r = Inr j" "slots c' = slots c" "d' = d" using Some fetch by (auto simp: page_fetch_def)
  ultimately show ?thesis using j ok load(2) by (auto simp: slot_ok_def Let_def pages_ok_def)
next
  case None
  obtain q data d1 where q: "load (page * FILE_PAGE_SIZE) (replicate FILE_PAGE_SIZE 0) d = (q, data, d1)" by (metis prod_cases3)
  obtain i s where s: "i < length (slots c)" "slots c' = (slots c)[i := s]" "d' = d1"
    "r = Inr i \<and> q = Inr (sl_length s) \<and> sl_length s \<le> FILE_PAGE_SIZE \<and> sl_key s = copy_at (sl_key (slots c ! i)) 0 key \<and>
       sl_key_len s = length key \<and> sl_page s = page \<and> sl_data s = data \<and> sl_valid s \<or>
     (\<exists>e. r = Inl e \<and> (q = Inl e \<or> (\<exists>n. q = Inr n \<and> n > FILE_PAGE_SIZE))) \<and> \<not> sl_valid s \<and> sl_key s = sl_key (slots c ! i)"
    by (rule page_fetch_miss [OF None q fetch ne])
  from load q have l: "J d1" "\<And>n. q = Inr n \<Longrightarrow> n = min FILE_PAGE_SIZE (length (F key) - page * FILE_PAGE_SIZE) \<and> take n data = slice (F key) (page * FILE_PAGE_SIZE) n"
    unfolding loads_def by blast+
  have old: "length (sl_key (slots c ! i)) = KEY_SIZE" using ok s(1) by (simp add: pages_ok_def slot_ok_def)
  from s(4) show ?thesis
  proof
    assume g: "r = Inr i \<and> q = Inr (sl_length s) \<and> sl_length s \<le> FILE_PAGE_SIZE \<and> sl_key s = copy_at (sl_key (slots c ! i)) 0 key \<and>
       sl_key_len s = length key \<and> sl_page s = page \<and> sl_data s = data \<and> sl_valid s"
    then have n: "sl_length s = min FILE_PAGE_SIZE (length (F key) - page * FILE_PAGE_SIZE)" "take (sl_length s) data = slice (F key) (page * FILE_PAGE_SIZE) (sl_length s)"
      using l(2) [of "sl_length s"] by blast+
    have "take (length key) (sl_key s) = key" using g old key by (simp add: take_copy_at_0)
    then have "slot_ok F s" using g n old key by (simp add: slot_ok_def Let_def)
    then have "pages_ok F c'"
      using ok s(2) set_update_subset_insert [of "slots c" i s] by (auto simp: pages_ok_def)
    with g n s(1,2,3) l(1) show ?thesis by simp
  next
    assume b: "(\<exists>e. r = Inl e \<and> (q = Inl e \<or> (\<exists>n. q = Inr n \<and> n > FILE_PAGE_SIZE))) \<and> \<not> sl_valid s \<and> sl_key s = sl_key (slots c ! i)"
    then have "slot_ok F s" using old by (simp add: slot_ok_def)
    then have "pages_ok F c'"
      using ok s(2) set_update_subset_insert [of "slots c" i s] by (auto simp: pages_ok_def)
    moreover obtain e where e: "r = Inl e" "q = Inl e" using b l(2) by force
    ultimately show ?thesis using s(2,3) l(1) q by (auto intro!: exI [of _ "page * FILE_PAGE_SIZE"] exI [of _ "replicate FILE_PAGE_SIZE 0"] exI [of _ d])
  qed
qed

section \<open>A read through the cache\<close>

text \<open>One page of the copy: what the slot holds is what the file holds at that position.\<close>

lemma page_part:
  assumes len: "L = min FILE_PAGE_SIZE (length f - pos div FILE_PAGE_SIZE * FILE_PAGE_SIZE)"
    and data: "take L data = slice f (pos div FILE_PAGE_SIZE * FILE_PAGE_SIZE) L" and n: "n \<le> L - pos mod FILE_PAGE_SIZE"
  shows "slice data (pos mod FILE_PAGE_SIZE) n = slice f pos n"
proof (cases "n = 0")
  case True
  then show ?thesis by (simp add: slice_def)
next
  case False
  let ?w = "pos mod FILE_PAGE_SIZE"
  from False n have w: "?w + n \<le> L" by simp
  have "slice data ?w n = slice (take L data) ?w n" using w by (simp add: slice_def drop_take min_def)
  also have "\<dots> = slice (slice f (pos div FILE_PAGE_SIZE * FILE_PAGE_SIZE) L) ?w n" by (simp add: data)
  also have "\<dots> = slice f (pos div FILE_PAGE_SIZE * FILE_PAGE_SIZE + ?w) n" using w by (simp add: slice_def drop_take add.commute min_def)
  finally show ?thesis by simp
qed

lemma copy_at_extends:
  assumes "take k out = slice f off k" "k + n \<le> length out" "length (slice f (off + k) n) = n"
  shows "length (copy_at out k (slice f (off + k) n)) = length out"
    "take (k + n) (copy_at out k (slice f (off + k) n)) = slice f off (k + n)"
    "drop (k + n) (copy_at out k (slice f (off + k) n)) = drop (k + n) out"
proof -
  have k: "length (take k out) = k" using assms(2) by simp
  show "length (copy_at out k (slice f (off + k) n)) = length out" using assms(2,3) by (intro length_copy_at) simp
  have "take (k + n) (copy_at out k (slice f (off + k) n)) = take k out @ slice f (off + k) n"
    unfolding copy_at_def using k assms(3) by (simp only: take_append length_append) simp
  also have "\<dots> = slice f off (k + n)" by (simp only: assms(1) slice_append_slice)
  finally show "take (k + n) (copy_at out k (slice f (off + k) n)) = slice f off (k + n)" .
  show "drop (k + n) (copy_at out k (slice f (off + k) n)) = drop (k + n) out"
    unfolding copy_at_def assms(3) using k assms(3) by (simp only: drop_append length_append) simp
qed

lemma page_end:
  assumes "L = min FILE_PAGE_SIZE (length f - pos div FILE_PAGE_SIZE * FILE_PAGE_SIZE)"
  shows "L < FILE_PAGE_SIZE \<Longrightarrow> L - pos mod FILE_PAGE_SIZE = length f - pos" "L - pos mod FILE_PAGE_SIZE = 0 \<Longrightarrow> length f \<le> pos"
    "L - pos mod FILE_PAGE_SIZE \<le> length f - pos"
proof -
  have d: "pos div FILE_PAGE_SIZE * FILE_PAGE_SIZE + pos mod FILE_PAGE_SIZE = pos" by simp
  have m: "pos mod FILE_PAGE_SIZE < FILE_PAGE_SIZE" by (simp add: FILE_PAGE_SIZE_def)
  show "L < FILE_PAGE_SIZE \<Longrightarrow> L - pos mod FILE_PAGE_SIZE = length f - pos" "L - pos mod FILE_PAGE_SIZE = 0 \<Longrightarrow> length f \<le> pos"
    "L - pos mod FILE_PAGE_SIZE \<le> length f - pos"
    using d m assms by linarith+
qed

text \<open>What the loop maintains: the part copied so far is the part of the file.\<close>

definition read_inv :: "(bytes \<Rightarrow> bytes) \<Rightarrow> bytes \<Rightarrow> nat \<Rightarrow> ('d \<Rightarrow> bool) \<Rightarrow> 'd loader \<Rightarrow> nat \<Rightarrow> bytes \<Rightarrow> PageCache \<Rightarrow> 'd \<Rightarrow> bool" where
  "read_inv F key off J load copied out c d \<longleftrightarrow>
     pages_ok F c \<and> slots c \<noteq> [] \<and> length key \<le> KEY_SIZE \<and> loads (F key) J load \<and> J d \<and>
     copied \<le> length out \<and> copied \<le> length (F key) - off \<and> take copied out = slice (F key) off copied"

lemma page_read_step:
  assumes inv: "read_inv F key off J load copied out c d" and more: "copied < length out"
    and q: "page_fetch key ((off + copied) div FILE_PAGE_SIZE) load c d = (Inr i, c1, d1)"
  obtains n out1 L where "read_inv F key off J load (copied + n) out1 (page_touch i c1) d1" "length out1 = length out"
    "drop (copied + n) out1 = drop (copied + n) out" "n = 0 \<longrightarrow> length (F key) \<le> off + copied"
    "L < FILE_PAGE_SIZE \<longrightarrow> copied + n = min (length out) (length (F key) - off)"
    "page_read_loop key off load copied out c d =
       (if n = 0 then (Inr copied, out, page_touch i c1, d1)
        else if L < FILE_PAGE_SIZE then (Inr (copied + n), out1, page_touch i c1, d1)
        else page_read_loop key off load (copied + n) out1 (page_touch i c1) d1)"
proof -
  let ?f = "F key" and ?pos = "off + copied" and ?c = "page_touch i c1"
  let ?s = "slots ?c ! i"
  define n where "n = min (sl_length ?s - ?pos mod FILE_PAGE_SIZE) (length out - copied)"
  define out1 where "out1 = copy_at out copied (slice (sl_data ?s) (?pos mod FILE_PAGE_SIZE) n)"
  have ok0: "pages_ok F c" "slots c \<noteq> []" "length key \<le> KEY_SIZE" "loads (F key) J load" "J d" "copied \<le> length (F key) - off"
    "take copied out = slice (F key) off copied" using inv unfolding read_inv_def by auto
  note fetched = page_fetch_ok [OF ok0(1-5) q]
  then have i: "i < length (slots c1)" by simp
  then have touched: "?s = (slots c1 ! i)\<lparr>sl_age := 0\<rparr>" by (rule page_touch_nth)
  from fetched have s: "sl_length ?s = min FILE_PAGE_SIZE (length ?f - ?pos div FILE_PAGE_SIZE * FILE_PAGE_SIZE)"
    "take (sl_length ?s) (sl_data ?s) = slice ?f (?pos div FILE_PAGE_SIZE * FILE_PAGE_SIZE) (sl_length ?s)"
    unfolding touched PageSlot.select_convs PageSlot.update_convs by auto
  have ok: "pages_ok F ?c" "slots ?c \<noteq> []" "J d1"
    using fetched i pages_ok_touch [of F c1 i] ok0(2) by (auto simp flip: length_greater_0_conv)
  have part: "slice (sl_data ?s) (?pos mod FILE_PAGE_SIZE) n = slice ?f ?pos n" by (rule page_part [OF s]) (simp add: n_def)
  note ends = page_end [OF s(1)]
  have n: "copied + n \<le> length out" "copied + n \<le> length ?f - off" using ends(3) more ok0(6) unfolding n_def by linarith+
  then have "length (slice ?f ?pos n) = n" by simp
  note out = copy_at_extends [OF ok0(7) n(1) this, folded part, folded out1_def]
  show thesis
  proof (rule that [of n out1 "sl_length ?s"])
    show "read_inv F key off J load (copied + n) out1 ?c d1"
      unfolding read_inv_def using ok ok0(3,4) n out(1) by (simp add: out(2) part)
    show "n = 0 \<longrightarrow> length ?f \<le> ?pos" using ends(2) more unfolding n_def by linarith
    show "sl_length ?s < FILE_PAGE_SIZE \<longrightarrow> copied + n = min (length out) (length ?f - off)"
      using ends(1) more ok0(6) unfolding n_def by linarith
    show "page_read_loop key off load copied out c d =
       (if n = 0 then (Inr copied, out, ?c, d1)
        else if sl_length ?s < FILE_PAGE_SIZE then (Inr (copied + n), out1, ?c, d1)
        else page_read_loop key off load (copied + n) out1 ?c d1)"
      unfolding n_def out1_def by (subst page_read_loop.simps) (simp only: more q Let_def prod.case sum.case if_True)
  qed (simp_all only: out)
qed

lemma page_read_loop_ok:
  assumes "page_read_loop key off load copied out c d = (r, out', c', d')" and "read_inv F key off J load copied out c d"
  shows "pages_ok F c' \<and> J d' \<and> length out' = length out \<and>
    (\<forall>n. r = Inr n \<longrightarrow> n = min (length out) (length (F key) - off) \<and> take n out' = slice (F key) off n \<and> drop n out' = drop n out) \<and>
    (\<forall>e. r = Inl e \<longrightarrow> (\<exists>off buf d. fst (load off buf d) = Inl e))"
  using assms
proof (induction "length out - copied" arbitrary: copied out c d rule: less_induct)
  case less
  from less.prems(2) have inv: "pages_ok F c" "slots c \<noteq> []" "length key \<le> KEY_SIZE" "loads (F key) J load" "J d"
    "copied \<le> length out" "copied \<le> length (F key) - off" "take copied out = slice (F key) off copied" by (auto simp: read_inv_def)
  show ?case
  proof (cases "copied < length out")
    case False
    with less.prems(1) have "r = Inr copied" "out' = out" "c' = c" "d' = d" by (simp_all add: page_read_loop.simps [of key])
    with False inv show ?thesis by (auto simp: min_def)
  next
    case more: True
    obtain q c1 d1 where q: "page_fetch key ((off + copied) div FILE_PAGE_SIZE) load c d = (q, c1, d1)" by (metis prod_cases3)
    show ?thesis
    proof (cases q)
      case (Inl e)
      with less.prems(1) more q have "r = Inl e" "out' = out" "c' = c1" "d' = d1" by (simp_all add: page_read_loop.simps [of key] Let_def)
      with page_fetch_ok [OF inv(1-5) q] Inl show ?thesis by simp
    next
      case (Inr i)
      obtain n out1 L where st: "read_inv F key off J load (copied + n) out1 (page_touch i c1) d1" "length out1 = length out"
        "drop (copied + n) out1 = drop (copied + n) out" "n = 0 \<longrightarrow> length (F key) \<le> off + copied"
        "L < FILE_PAGE_SIZE \<longrightarrow> copied + n = min (length out) (length (F key) - off)"
        "page_read_loop key off load copied out c d =
           (if n = 0 then (Inr copied, out, page_touch i c1, d1)
            else if L < FILE_PAGE_SIZE then (Inr (copied + n), out1, page_touch i c1, d1)
            else page_read_loop key off load (copied + n) out1 (page_touch i c1) d1)"
        by (rule page_read_step [OF less.prems(2) more q [unfolded Inr]])
      have ok: "pages_ok F (page_touch i c1)" "J d1" "take (copied + n) out1 = slice (F key) off (copied + n)"
        using st(1) by (auto simp: read_inv_def)
      consider "n = 0" | "n \<noteq> 0" "L < FILE_PAGE_SIZE" | "n \<noteq> 0" "\<not> L < FILE_PAGE_SIZE" by blast
      then show ?thesis
      proof cases
        case 1
        with less.prems(1) st(4,6) ok inv(6-8) more show ?thesis by (auto simp: min_def)
      next
        case 2
        with less.prems(1) st(2,3,5,6) ok show ?thesis by auto
      next
        case 3
        then have run: "page_read_loop key off load (copied + n) out1 (page_touch i c1) d1 = (r, out', c', d')"
          using less.prems(1) st(6) by simp
        have "length out1 - (copied + n) < length out - copied" using st(2) 3(1) more by simp
        note less.hyps [OF this run st(1)]
        moreover have "drop m out1 = drop m out" if "copied + n \<le> m" for m
          using arg_cong [OF st(3), of "drop (m - (copied + n))"] that by simp
        moreover have "copied + n \<le> min (length out) (length (F key) - off)" using st(1,2) by (simp add: read_inv_def)
        ultimately show ?thesis using st(2) by auto
      qed
    qed
  qed
qed

text \<open>
  Histories of a cache: reads of any file with any loader that keeps its promise, whatever they
  return, and changes of the files, each with the invalidation the storage layer performs.
\<close>

inductive page_history :: "((bytes \<Rightarrow> bytes) \<Rightarrow> 'd \<Rightarrow> bool) \<Rightarrow> nat \<Rightarrow> (bytes \<Rightarrow> bytes) \<Rightarrow> PageCache \<Rightarrow> bool" for J n where
  boot: "page_history J n F (page_cache_new n)"
| read: "page_history J n F c \<Longrightarrow> loads (F key) (J F) load \<Longrightarrow> J F d \<Longrightarrow>
    page_cache_read key off out load c d = (r, out', c', d') \<Longrightarrow> page_history J n F c'"
| change: "page_history J n F c \<Longrightarrow> page_history J n G (page_cache_invalidate c)"

lemma page_cache_read_ok:
  assumes ok: "pages_ok F c" and load: "loads (F key) J load" "J d"
    and read: "page_cache_read key off out load c d = (r, out', c', d')"
  shows "pages_ok F c' \<and> J d' \<and> length out' = length out \<and>
    (\<forall>n. r = Inr n \<longrightarrow> n = min (length out) (length (F key) - off) \<and> take n out' = slice (F key) off n \<and> drop n out' = drop n out) \<and>
    (\<forall>e. r = Inl e \<longrightarrow> (\<exists>off buf d. fst (load off buf d) = Inl e) \<or>
       key = [] \<or> length key > KEY_SIZE \<or> slots c = [] \<or> off + length out \<ge> usize_limit)"
proof (cases "key = [] \<or> length key > KEY_SIZE \<or> slots c = [] \<or> checked_add_usize off (length out) = None")
  case True
  then have "r = Inl InvalidBuffer" "out' = out" "c' = c" "d' = d" using read by (auto simp: page_cache_read_def)
  with True ok load(2) show ?thesis by auto
next
  case False
  then have run: "page_read_loop key off load 0 out c d = (r, out', c', d')" using read by (auto simp: page_cache_read_def)
  have "read_inv F key off J load 0 out c d" using False ok load by (auto simp: read_inv_def slice_def)
  from page_read_loop_ok [OF run this] show ?thesis by auto
qed

lemma page_history_ok: "page_history J n F c \<Longrightarrow> pages_ok F c"
proof (induction rule: page_history.induct)
  case (read F c key load d off out r out' c' d')
  from page_cache_read_ok [OF read.IH read.hyps(2-4)] show ?case by blast
qed (auto intro: pages_ok_new pages_ok_invalidate)

text \<open>
  C32: The page cache cannot be told from the file. In every history of reads, failed loads,
  evictions and changes with invalidation, a read that succeeds delivers exactly the bytes the
  file holds at that offset, up to the end of the file or of the buffer, and leaves the rest of
  the buffer alone; a read fails only with an error of the loader or for an unusable request.
\<close>

theorem page_cache_transparent:
  assumes "page_history J n F c" and "loads (F key) (J F) load" and "J F d"
    and "page_cache_read key off out load c d = (r, out', c', d')"
  shows "case r of
      Inr m \<Rightarrow> m = min (length out) (length (F key) - off) \<and> out' = slice (F key) off m @ drop m out
    | Inl e \<Rightarrow> (\<exists>off buf d. fst (load off buf d) = Inl e) \<or>
        key = [] \<or> length key > KEY_SIZE \<or> slots c = [] \<or> off + length out \<ge> usize_limit"
proof -
  note ok = page_cache_read_ok [OF page_history_ok [OF assms(1)] assms(2-4)]
  show ?thesis
  proof (cases r)
    case (Inl e)
    with ok show ?thesis by simp
  next
    case (Inr m)
    with ok have m: "m = min (length out) (length (F key) - off)" "take m out' = slice (F key) off m" "drop m out' = drop m out" by blast+
    have "out' = take m out' @ drop m out'" by simp
    with m have "out' = slice (F key) off m @ drop m out" by (simp only:)
    with Inr m(1) show ?thesis by simp
  qed
qed

definition three_bytes :: "unit loader" where
  "three_bytes off buf d = (Inr (3 - off), copy_at buf 0 (drop off [1, 2, 3]), d)"

theorem page_cache_transparent_witness:
  "\<exists>c'. page_cache_read [47] 1 [0, 0, 0, 0] three_bytes (page_cache_new 2) () = (Inr 2, [2, 3, 0, 0], c', ())"
proof -
  define F :: "bytes \<Rightarrow> bytes" where "F = (\<lambda>k. [1, 2, 3])"
  define J :: "(bytes \<Rightarrow> bytes) \<Rightarrow> unit \<Rightarrow> bool" where "J = (\<lambda>F d. True)"
  obtain r out' c' d' where read: "page_cache_read [47] 1 [0, 0, 0, 0] three_bytes (page_cache_new 2) () = (r, out', c', d')"
    by (metis prod_cases4)
  have "3 \<le> FILE_PAGE_SIZE" by (simp add: FILE_PAGE_SIZE_def)
  then have loads: "loads (F [47]) (J F) three_bytes"
    by (auto simp: loads_def three_bytes_def F_def J_def copy_at_def slice_def simp del: replicate.simps)
  have J: "J F ()" by (simp add: J_def)
  note ok = page_cache_transparent [where J = J and F = F and n = 2, OF page_history.boot loads J read]
  show ?thesis
  proof (cases r)
    case (Inl e)
    with ok show ?thesis by (simp add: three_bytes_def KEY_SIZE_def page_cache_new_def usize_limit_def)
  next
    case (Inr m)
    with ok have "m = 2" "out' = [2, 3, 0, 0]" by (simp_all add: F_def slice_def)
    with read Inr show ?thesis by simp
  qed
qed

end
