(* ===== verification/Slot_Table.thy ===== *)
theory Slot_Table
  imports WH_Prelude
begin

text \<open>
  Most kernel registries are arrays of optional records searched by a key
  (\<open>iter().flatten().find(|e| e.key == k)\<close>). This theory gives the search functions the
  component models use and, as the locale \<open>slot_table\<close>, the map such an array represents when
  its keys are unique.
\<close>

text \<open>\<open>iter_mut().find(Option::is_none)\<close>: the first free slot.\<close>

definition free_slot :: "'v option list \<Rightarrow> nat option" where
  "free_slot xs = position (\<lambda>s. s = None) xs"

text \<open>\<open>position(|s| s.is_some_and(p))\<close> and \<open>iter().flatten().find(p)\<close>.\<close>

definition slot_where :: "('v \<Rightarrow> bool) \<Rightarrow> 'v option list \<Rightarrow> nat option" where
  "slot_where P xs = position (\<lambda>s. case s of None \<Rightarrow> False | Some v \<Rightarrow> P v) xs"

definition slot_find :: "('v \<Rightarrow> bool) \<Rightarrow> 'v option list \<Rightarrow> 'v option" where
  "slot_find P xs = (case slot_where P xs of None \<Rightarrow> None | Some i \<Rightarrow> xs ! i)"

lemma free_slot_None [simp]: "free_slot xs = None \<longleftrightarrow> None \<notin> set xs"
  unfolding free_slot_def position_None by metis

lemma free_slot_Some:
  "free_slot xs = Some i \<Longrightarrow> i < length xs \<and> xs ! i = None"
  by (simp add: free_slot_def position_Some_iff)

lemma slot_where_Some:
  assumes "slot_where P xs = Some i"
  obtains v where "i < length xs" "xs ! i = Some v" "P v"
  using assms by (auto simp: slot_where_def position_Some_iff split: option.splits)

lemma slot_where_None: "slot_where P xs = None \<longleftrightarrow> (\<forall>v. Some v \<in> set xs \<longrightarrow> \<not> P v)"
  by (auto simp: slot_where_def split: option.splits)

lemma slot_find_None: "slot_find P xs = None \<longleftrightarrow> (\<forall>v. Some v \<in> set xs \<longrightarrow> \<not> P v)"
proof (cases "slot_where P xs")
  case None
  then show ?thesis using slot_where_None [of P xs] by (simp add: slot_find_def)
next
  case (Some i)
  then obtain v where "i < length xs" "xs ! i = Some v" "P v" by (rule slot_where_Some)
  moreover from this have "Some v \<in> set xs" by (metis nth_mem)
  ultimately show ?thesis using Some by (auto simp: slot_find_def)
qed

lemma slot_find_where: "slot_where P xs = Some i \<Longrightarrow> slot_find P xs = xs ! i"
  by (simp add: slot_find_def)

lemma slot_where_find_None [simp]: "slot_find P xs = None \<longleftrightarrow> slot_where P xs = None"
  by (simp add: slot_find_None slot_where_None)

text \<open>The number of occupied slots.\<close>

definition slots_used :: "'v option list \<Rightarrow> nat" where
  "slots_used xs = length (filter (\<lambda>s. s \<noteq> None) xs)"

lemma slots_used_le: "slots_used xs \<le> length xs"
  by (simp add: slots_used_def)

lemma slots_used_Nil [simp]: "slots_used [] = 0"
  by (simp add: slots_used_def)

lemma slots_used_Cons [simp]:
  "slots_used (x # xs) = (if x = None then 0 else 1) + slots_used xs"
  by (simp add: slots_used_def)

lemma slots_used_full: "slots_used xs = length xs \<longleftrightarrow> None \<notin> set xs"
proof (induction xs)
  case Nil
  show ?case by simp
next
  case (Cons x xs)
  then show ?case using slots_used_le [of xs] by (cases x) auto
qed

lemma slots_used_occupy:
  "i < length xs \<Longrightarrow> xs ! i = None \<Longrightarrow> slots_used (xs[i := Some v]) = slots_used xs + 1"
proof (induction xs arbitrary: i)
  case Nil
  then show ?case by simp
next
  case (Cons x xs)
  then show ?case by (cases i) auto
qed

lemma slots_used_release:
  "i < length xs \<Longrightarrow> xs ! i = Some v \<Longrightarrow> slots_used (xs[i := None]) + 1 = slots_used xs"
proof (induction xs arbitrary: i)
  case Nil
  then show ?case by simp
next
  case (Cons x xs)
  then show ?case by (cases i) auto
qed

lemma slots_used_replace:
  "i < length xs \<Longrightarrow> xs ! i = Some v \<Longrightarrow> slots_used (xs[i := Some w]) = slots_used xs"
proof (induction xs arbitrary: i)
  case Nil
  then show ?case by simp
next
  case (Cons x xs)
  then show ?case by (cases i) auto
qed

section \<open>A slot table as a map\<close>

locale slot_table =
  fixes key :: "'v \<Rightarrow> 'k"
begin

definition unique :: "'v option list \<Rightarrow> bool" where
  "unique xs \<longleftrightarrow> (\<forall>i j v w. i < length xs \<longrightarrow> j < length xs \<longrightarrow>
     xs ! i = Some v \<longrightarrow> xs ! j = Some w \<longrightarrow> key v = key w \<longrightarrow> i = j)"

definition table :: "'v option list \<Rightarrow> 'k \<Rightarrow> 'v option" where
  "table xs k = slot_find (\<lambda>v. key v = k) xs"

lemma uniqueD:
  "unique xs \<Longrightarrow> i < length xs \<Longrightarrow> j < length xs \<Longrightarrow> xs ! i = Some v \<Longrightarrow> xs ! j = Some w \<Longrightarrow>
   key v = key w \<Longrightarrow> i = j"
  by (auto simp: unique_def)

lemma where_at:
  assumes "unique xs" "i < length xs" "xs ! i = Some v"
  shows "slot_where (\<lambda>w. key w = key v) xs = Some i"
  unfolding slot_where_def
  by (rule position_unique) (use assms in \<open>auto simp: unique_def split: option.splits\<close>)

lemma table_at:
  "unique xs \<Longrightarrow> i < length xs \<Longrightarrow> xs ! i = Some v \<Longrightarrow> table xs (key v) = Some v"
  by (simp add: table_def slot_find_def where_at)

lemma table_SomeD:
  assumes "table xs k = Some v"
  shows "Some v \<in> set xs" and "key v = k"
proof -
  from assms obtain i where i: "slot_where (\<lambda>v. key v = k) xs = Some i" "xs ! i = Some v"
    by (auto simp: table_def slot_find_def split: option.splits)
  from i(1) obtain w where "i < length xs" "xs ! i = Some w" "key w = k" by (rule slot_where_Some)
  with i(2) show "Some v \<in> set xs" and "key v = k" by (auto dest: nth_mem)
qed

lemma table_iff:
  assumes "unique xs"
  shows "table xs k = Some v \<longleftrightarrow> Some v \<in> set xs \<and> key v = k"
  using table_SomeD [of xs k v] table_at [OF assms] by (auto simp: in_set_conv_nth)

lemma table_None_iff: "table xs k = None \<longleftrightarrow> (\<forall>v. Some v \<in> set xs \<longrightarrow> key v \<noteq> k)"
  by (simp add: table_def slot_find_None slot_where_None)

text \<open>One rule covers the three ways a slot is rewritten.\<close>

lemma unique_update:
  assumes "unique xs"
    and new: "\<And>w j x. y = Some w \<Longrightarrow> j < length xs \<Longrightarrow> j \<noteq> i \<Longrightarrow> xs ! j = Some x \<Longrightarrow> key x \<noteq> key w"
  shows "unique (xs[i := y])"
  unfolding unique_def
proof (intro allI impI)
  fix a b v w
  assume a: "a < length (xs[i := y])" "xs[i := y] ! a = Some v"
    and b: "b < length (xs[i := y])" "xs[i := y] ! b = Some w" and k: "key v = key w"
  show "a = b"
  proof (cases "a = i")
    case True
    with a have y: "y = Some v" by simp
    show ?thesis
    proof (rule ccontr)
      assume "a \<noteq> b"
      with b True have "b < length xs" "b \<noteq> i" "xs ! b = Some w" by auto
      from new [OF y this] k show False by simp
    qed
  next
    case False
    with a have xa: "a < length xs" "xs ! a = Some v" by auto
    show ?thesis
    proof (cases "b = i")
      case True
      with b have "y = Some w" by simp
      from new [OF this xa(1) False xa(2)] k show ?thesis by simp
    next
      case False
      with b have "b < length xs" "xs ! b = Some w" by auto
      with xa k show ?thesis using uniqueD [OF assms(1)] by blast
    qed
  qed
qed

lemma unique_occupy:
  assumes "unique xs" "table xs (key v) = None"
  shows "unique (xs[i := Some v])"
proof (rule unique_update [OF assms(1)])
  fix w j x
  assume "Some v = Some w" "j < length xs" "xs ! j = Some x"
  then show "key x \<noteq> key w"
    using assms(2) nth_mem [of j xs] unfolding table_None_iff by auto
qed

lemma unique_replace:
  assumes "unique xs" "i < length xs" "xs ! i = Some v" "key w = key v"
  shows "unique (xs[i := Some w])"
proof (rule unique_update [OF assms(1)])
  fix w' j x
  assume "Some w = Some w'" "j < length xs" "j \<noteq> i" "xs ! j = Some x"
  then show "key x \<noteq> key w'"
    using uniqueD [OF assms(1) _ assms(2) _ assms(3), of j x] assms(4) by auto
qed

lemma unique_release:
  assumes "unique xs"
  shows "unique (xs[i := None])"
  by (rule unique_update [OF assms]) simp

lemma set_update_Some:
  assumes "i < length xs"
  shows "Some v \<in> set (xs[i := y]) \<longleftrightarrow> y = Some v \<or> (\<exists>j<length xs. j \<noteq> i \<and> xs ! j = Some v)"
  using assms by (auto simp: in_set_conv_nth nth_list_update)

lemma table_other:
  assumes "unique xs" "unique (xs[i := y])" "i < length xs"
    and "\<And>v. xs ! i = Some v \<Longrightarrow> key v \<noteq> k" "\<And>v. y = Some v \<Longrightarrow> key v \<noteq> k"
  shows "table (xs[i := y]) k = table xs k"
proof -
  have "table (xs[i := y]) k = Some w \<longleftrightarrow> table xs k = Some w" for w
  proof -
    have "Some w \<in> set xs \<longleftrightarrow> xs ! i = Some w \<or> (\<exists>j<length xs. j \<noteq> i \<and> xs ! j = Some w)"
      using set_update_Some [OF assms(3), of w "xs ! i"] by simp
    then show ?thesis
      unfolding table_iff [OF assms(1)] table_iff [OF assms(2)] set_update_Some [OF assms(3)]
      using assms(4,5) [of w] by blast
  qed
  then show ?thesis by (metis not_None_eq)
qed

lemma table_occupy:
  assumes "unique xs" "i < length xs" "xs ! i = None" "table xs (key v) = None"
  shows "table (xs[i := Some v]) = (table xs)(key v \<mapsto> v)"
proof
  fix k
  note u = unique_occupy [OF assms(1,4), of i]
  show "table (xs[i := Some v]) k = ((table xs)(key v \<mapsto> v)) k"
  proof (cases "k = key v")
    case True
    then show ?thesis using table_at [OF u, of i v] assms(2) by simp
  next
    case False
    then show ?thesis using table_other [OF assms(1) u assms(2), of k] assms(3) by auto
  qed
qed

lemma table_replace:
  assumes "unique xs" "i < length xs" "xs ! i = Some v" "key w = key v"
  shows "table (xs[i := Some w]) = (table xs)(key v \<mapsto> w)"
proof
  fix k
  note u = unique_replace [OF assms]
  show "table (xs[i := Some w]) k = ((table xs)(key v \<mapsto> w)) k"
  proof (cases "k = key v")
    case True
    then show ?thesis using table_at [OF u, of i w] assms(2,4) by simp
  next
    case False
    then show ?thesis using table_other [OF assms(1) u assms(2), of k] assms(3,4) by auto
  qed
qed

lemma table_release:
  assumes "unique xs" "i < length xs" "xs ! i = Some v"
  shows "table (xs[i := None]) = (table xs)(key v := None)"
proof
  fix k
  note u = unique_release [OF assms(1), of i]
  show "table (xs[i := None]) k = ((table xs)(key v := None)) k"
  proof (cases "k = key v")
    case True
    have "key w \<noteq> key v" if "Some w \<in> set (xs[i := None])" for w
      using that uniqueD [OF assms(1) assms(2) _ assms(3), of _ w]
      unfolding set_update_Some [OF assms(2)] by auto
    with True show ?thesis by (auto simp: table_None_iff)
  next
    case False
    then show ?thesis using table_other [OF assms(1) u assms(2), of k] assms(3) by auto
  qed
qed

lemma unique_replicate [simp]: "unique (replicate n None)"
  by (simp add: unique_def)

lemma table_replicate [simp]: "table (replicate n None) = Map.empty"
  by (rule ext) (simp add: table_None_iff)

end

end
