(* ===== verification/Block_Io.thy ===== *)
theory Block_Io
  imports Block Slot_Table
begin

text \<open>
  The block I/O queue (\<open>kernel/src/block_io.rs\<close>): tasks submit sector requests to a table of
  sixteen slots, a worker task executes them on the primary disk, and the submitters collect
  the results. The disk is a parameter: a device dictionary and an optional device, for
  \<open>ata::with_primary_master\<close>. Waiting for a result hands the machine to the other tasks, given as a
  list of what they do to the state.
\<close>

section \<open>The queue\<close>

definition MAX_BLOCK_IO_REQUESTS :: nat where
  "MAX_BLOCK_IO_REQUESTS = 16"

datatype Operation = Read | Write | Flush

datatype RequestState = Pending | InProgress | Complete

record Request =
  rq_id :: u64
  operation :: Operation
  rq_lba :: u64
  rq_data :: bytes
  rq_result :: "block_error + unit"
  rq_state :: RequestState

definition request_pending :: "u64 \<Rightarrow> Operation \<Rightarrow> u64 \<Rightarrow> bytes \<Rightarrow> Request" where
  "request_pending i op lba data =
     \<lparr>rq_id = i, operation = op, rq_lba = lba, rq_data = data, rq_result = Inr (), rq_state = Pending\<rparr>"

record WorkItem =
  wi_slot :: nat
  wi_request :: Request

record Queue =
  entries :: "Request option list"
  next_id :: u64

definition queue_new :: Queue where
  "queue_new = \<lparr>entries = replicate MAX_BLOCK_IO_REQUESTS None, next_id = 1\<rparr>"

definition io_push :: "Operation \<Rightarrow> u64 \<Rightarrow> bytes \<Rightarrow> Queue \<Rightarrow> u64 option \<times> Queue" where
  "io_push op lba data q =
     (case free_slot (entries q) of
        None \<Rightarrow> (None, q)
      | Some slot \<Rightarrow>
          (Some (next_id q),
           q\<lparr>next_id := max (next_id q + 1) 1, entries := (entries q)[slot := Some (request_pending (next_id q) op lba data)]\<rparr>))"

definition take_pending :: "Queue \<Rightarrow> WorkItem option \<times> Queue" where
  "take_pending q =
     (case slot_where (\<lambda>r. rq_state r = Pending) (entries q) of
        None \<Rightarrow> (None, q)
      | Some slot \<Rightarrow>
          (let r = (the (entries q ! slot))\<lparr>rq_state := InProgress\<rparr>
           in (Some \<lparr>wi_slot = slot, wi_request = r\<rparr>, q\<lparr>entries := (entries q)[slot := Some r]\<rparr>)))"

definition finish :: "nat \<Rightarrow> u64 \<Rightarrow> block_error + unit \<Rightarrow> bytes \<Rightarrow> Queue \<Rightarrow> Queue" where
  "finish slot i result data q =
     (if slot < length (entries q)
      then case entries q ! slot of
             None \<Rightarrow> q
           | Some r \<Rightarrow>
               if rq_id r = i \<and> rq_state r = InProgress
               then q\<lparr>entries := (entries q)[slot := Some (r\<lparr>rq_data := data, rq_result := result, rq_state := Complete\<rparr>)]\<rparr>
               else q
      else q)"

text \<open>The result with the buffer of the caller, when it gave one.\<close>

definition take_result ::
  "u64 \<Rightarrow> bytes option \<Rightarrow> Queue \<Rightarrow> ((block_error + unit) \<times> bytes option) option \<times> Queue" where
  "take_result i out q =
     (case slot_where (\<lambda>r. \<not> (rq_id r \<noteq> i \<or> rq_state r \<noteq> Complete)) (entries q) of
        None \<Rightarrow> (None, q)
      | Some slot \<Rightarrow>
          (let r = the (entries q ! slot);
               out' = (if rq_result r = Inr () then map_option (\<lambda>b. rq_data r) out else out)
           in (Some (rq_result r, out'), q\<lparr>entries := (entries q)[slot := None]\<rparr>)))"

definition pending_count :: "Queue \<Rightarrow> nat" where
  "pending_count q = length (filter (\<lambda>e. case e of None \<Rightarrow> False | Some r \<Rightarrow> rq_state r = Pending) (entries q))"

definition active_count :: "Queue \<Rightarrow> nat" where
  "active_count q = length (filter (\<lambda>e. e \<noteq> None) (entries q))"

section \<open>Executing requests\<close>

text \<open>\<open>drive_one\<close> over any device, and the request it performs.\<close>

definition perform ::
  "'d BlockDevice \<Rightarrow> Operation \<Rightarrow> u64 \<Rightarrow> bytes \<Rightarrow> 'd \<Rightarrow> (block_error + unit) \<times> bytes \<times> 'd" where
  "perform ops op lba data d =
     (case op of
        Read \<Rightarrow> dev_read ops d lba data
      | Write \<Rightarrow> (let (r, d') = dev_write ops d lba data in (r, data, d'))
      | Flush \<Rightarrow> (let (r, d') = dev_flush ops d in (r, data, d')))"

definition drive_one :: "'d BlockDevice \<Rightarrow> Queue \<Rightarrow> 'd \<Rightarrow> bool \<times> Queue \<times> 'd" where
  "drive_one ops q d =
     (case take_pending q of
        (None, q) \<Rightarrow> (False, q, d)
      | (Some work, q) \<Rightarrow>
          (let r = wi_request work;
               (result, data, d') = perform ops (operation r) (rq_lba r) (rq_data r) d
           in (True, finish (wi_slot work) (rq_id r) result data q, d')))"

text \<open>The state of the module: the queue, the worker, the counters and the primary disk.\<close>

record 'd IoState =
  queue :: Queue
  worker_task :: "u64 option"
  in_worker :: bool
  queued :: u64
  completed :: u64
  direct :: u64
  disk :: "'d option"

definition direct_primary ::
  "'d BlockDevice \<Rightarrow> Operation \<Rightarrow> u64 \<Rightarrow> bytes option \<Rightarrow> bytes option \<Rightarrow> 'd option \<Rightarrow>
     (block_error + unit) \<times> bytes option \<times> 'd option" where
  "direct_primary ops op lba input output dsk =
     (case dsk of
        None \<Rightarrow> (Inl DeviceFault, output, None)
      | Some d \<Rightarrow>
          (case op of
             Read \<Rightarrow>
               (case output of
                  None \<Rightarrow> (Inl InvalidBuffer, output, Some d)
                | Some out \<Rightarrow> (let (r, out', d') = dev_read ops d lba out in (r, Some out', Some d')))
           | Write \<Rightarrow>
               (case input of
                  None \<Rightarrow> (Inl InvalidBuffer, output, Some d)
                | Some inp \<Rightarrow> (let (r, d') = dev_write ops d lba inp in (r, output, Some d')))
           | Flush \<Rightarrow> (let (r, d') = dev_flush ops d in (r, output, Some d'))))"

definition process_one_primary :: "'d BlockDevice \<Rightarrow> 'd IoState \<Rightarrow> bool \<times> 'd IoState" where
  "process_one_primary ops s =
     (case take_pending (queue s) of
        (None, q) \<Rightarrow> (False, s\<lparr>queue := q\<rparr>)
      | (Some work, q) \<Rightarrow>
          (let r = wi_request work; data = rq_data r;
               s = s\<lparr>queue := q, in_worker := True\<rparr>;
               (result, data, dsk) =
                 (case operation r of
                    Read \<Rightarrow> (let (res, out, dsk) = direct_primary ops Read (rq_lba r) None (Some data) (disk s)
                             in (res, the out, dsk))
                  | Write \<Rightarrow> (let (res, out, dsk) = direct_primary ops Write (rq_lba r) (Some data) None (disk s)
                              in (res, data, dsk))
                  | Flush \<Rightarrow> (let (res, out, dsk) = direct_primary ops Flush (rq_lba r) None None (disk s)
                              in (res, data, dsk)))
           in (True, s\<lparr>disk := dsk, in_worker := False, queue := finish (wi_slot work) (rq_id r) result data q,
                 completed := completed s + 1\<rparr>)))"

text \<open>
  \<open>current\<close> is the running task, if the scheduler runs; \<open>irqs\<close> whether interrupts are enabled.
\<close>

definition should_queue :: "bool \<Rightarrow> u64 option \<Rightarrow> 'd IoState \<Rightarrow> bool" where
  "should_queue irqs current s =
     (if in_worker s \<or> \<not> irqs then False
      else case current of
             None \<Rightarrow> False
           | Some c \<Rightarrow> if c = 0 then False else (case worker_task s of None \<Rightarrow> False | Some w \<Rightarrow> w \<noteq> c))"

text \<open>\<open>spawned\<close> is what \<open>task::spawn_with_priority\<close> returns.\<close>

definition start_worker :: "u64 option \<Rightarrow> 'd IoState \<Rightarrow> bool \<times> 'd IoState" where
  "start_worker spawned s =
     (if worker_task s \<noteq> None then (True, s)
      else case spawned of None \<Rightarrow> (False, s) | Some i \<Rightarrow> (True, s\<lparr>worker_task := Some i\<rparr>))"

fun wait_for_completion ::
  "u64 \<Rightarrow> bytes option \<Rightarrow> ('d IoState \<Rightarrow> 'd IoState) list \<Rightarrow> 'd IoState \<Rightarrow>
     ((block_error + unit) \<times> bytes option \<times> 'd IoState) option" where
  "wait_for_completion i out others s =
     (case take_result i out (queue s) of
        (Some (result, out'), q) \<Rightarrow> Some (result, out', s\<lparr>queue := q\<rparr>)
      | (None, q) \<Rightarrow>
          (case others of [] \<Rightarrow> None
           | other # rest \<Rightarrow> wait_for_completion (max i 1) out rest (other (s\<lparr>queue := q\<rparr>))))"

declare wait_for_completion.simps [simp del]

definition io_submit ::
  "'d BlockDevice \<Rightarrow> bool \<Rightarrow> u64 option \<Rightarrow> ('d IoState \<Rightarrow> 'd IoState) list \<Rightarrow> Operation \<Rightarrow> u64 \<Rightarrow>
     bytes option \<Rightarrow> bytes option \<Rightarrow> 'd IoState \<Rightarrow> ((block_error + unit) \<times> bytes option \<times> 'd IoState) option" where
  "io_submit ops irqs current others op lba input output s =
     (if \<not> should_queue irqs current s
      then let (r, out, dsk) = direct_primary ops op lba input output (disk s)
           in Some (r, out, s\<lparr>direct := direct s + 1, disk := dsk\<rparr>)
      else let data = (case input of None \<Rightarrow> replicate SECTOR_SIZE 0 | Some inp \<Rightarrow> inp) in
        case io_push op lba data (queue s) of
          (None, q) \<Rightarrow> Some (Inl DeviceFault, output, s\<lparr>queue := q\<rparr>)
        | (Some i, q) \<Rightarrow> wait_for_completion i output others (s\<lparr>queue := q, queued := queued s + 1\<rparr>))"

record IoStats =
  ios_queued :: u64
  ios_completed :: u64
  ios_direct :: u64
  ios_pending :: nat
  ios_active :: nat

definition io_stats :: "'d IoState \<Rightarrow> IoStats" where
  "io_stats s = \<lparr>ios_queued = queued s, ios_completed = completed s, ios_direct = direct s,
     ios_pending = pending_count (queue s), ios_active = active_count (queue s)\<rparr>"

text \<open>The methods of \<open>PrimaryAta\<close>.\<close>

definition ata_sector_count :: "'d BlockDevice \<Rightarrow> 'd IoState \<Rightarrow> u64" where
  "ata_sector_count ops s = (case disk s of None \<Rightarrow> 0 | Some d \<Rightarrow> dev_sector_count ops d)"

definition ata_is_read_only :: "'d BlockDevice \<Rightarrow> 'd IoState \<Rightarrow> bool" where
  "ata_is_read_only ops s = (case disk s of None \<Rightarrow> True | Some d \<Rightarrow> dev_is_read_only ops d)"

definition ata_flush where
  "ata_flush ops irqs current others s = io_submit ops irqs current others Flush 0 None None s"

definition ata_read_sector where
  "ata_read_sector ops irqs current others lba sec s =
     (if length sec \<noteq> SECTOR_SIZE then Some (Inl InvalidBuffer, Some sec, s)
      else io_submit ops irqs current others Read lba None (Some sec) s)"

definition ata_write_sector where
  "ata_write_sector ops irqs current others lba sec s =
     (if length sec \<noteq> SECTOR_SIZE then Some (Inl InvalidBuffer, None, s)
      else io_submit ops irqs current others Write lba (Some sec) None s)"

section \<open>Exactly-once execution\<close>

interpretation io_slots: slot_table rq_id .

text \<open>What the worker is doing: it holds a request it took, or one it has executed.\<close>

datatype worker = Idle | Working WorkItem | Executed WorkItem "block_error + unit" bytes

text \<open>
  Histories of the queue and the disk under any interleaving of submitters, the worker's three
  critical sections and collectors. \<open>sub\<close> holds the submitted requests by identifier and \<open>log\<close> the
  executed ones with their results, in order.
\<close>

inductive io_history ::
  "'d BlockDevice \<Rightarrow> 'd \<Rightarrow> Queue \<Rightarrow> 'd \<Rightarrow> worker \<Rightarrow> (u64 \<Rightarrow> (Operation \<times> u64 \<times> bytes) option) \<Rightarrow>
   (u64 \<times> (block_error + unit) \<times> bytes) list \<Rightarrow> bool"
  for ops d0 where
  boot: "io_history ops d0 queue_new d0 Idle Map.empty []"
| push: "io_history ops d0 q d w sub log \<Longrightarrow> next_id q + 1 \<noteq> 0 \<Longrightarrow> io_push op lba data q = (Some i, q') \<Longrightarrow>
    io_history ops d0 q' d w (sub(i \<mapsto> (op, lba, data))) log"
| take: "io_history ops d0 q d Idle sub log \<Longrightarrow> take_pending q = (Some work, q') \<Longrightarrow>
    io_history ops d0 q' d (Working work) sub log"
| exec: "io_history ops d0 q d (Working work) sub log \<Longrightarrow>
    perform ops (operation (wi_request work)) (rq_lba (wi_request work)) (rq_data (wi_request work)) d = (res, x, d') \<Longrightarrow>
    io_history ops d0 q d' (Executed work res x) sub (log @ [(rq_id (wi_request work), res, x)])"
| done_: "io_history ops d0 q d (Executed work res x) sub log \<Longrightarrow>
    io_history ops d0 (finish (wi_slot work) (rq_id (wi_request work)) res x q) d Idle sub log"
| collect: "io_history ops d0 q d w sub log \<Longrightarrow> take_result i out q = (Some (r, out'), q') \<Longrightarrow>
    io_history ops d0 q' d w sub log"

text \<open>The log replayed on the initial disk, if every result is the one the disk gives.\<close>

fun replay ::
  "'d BlockDevice \<Rightarrow> (u64 \<Rightarrow> (Operation \<times> u64 \<times> bytes) option) \<Rightarrow> 'd \<Rightarrow>
   (u64 \<times> (block_error + unit) \<times> bytes) list \<Rightarrow> 'd option" where
  "replay ops sub d [] = Some d"
| "replay ops sub d ((i, res, x) # log) =
     (case sub i of None \<Rightarrow> None
      | Some (op, lba, data) \<Rightarrow>
          (let (res', x', d') = perform ops op lba data d in
           if res' = res \<and> x' = x then replay ops sub d' log else None))"

lemma replay_snoc:
  "replay ops sub d0 log = Some d \<Longrightarrow> sub i = Some (op, lba, data) \<Longrightarrow> perform ops op lba data d = (res, x, d') \<Longrightarrow>
   replay ops sub d0 (log @ [(i, res, x)]) = Some d'"
  by (induction ops sub d0 log rule: replay.induct) (auto split: option.splits prod.splits if_splits)

lemma replay_extend:
  "replay ops sub d0 log = Some d \<Longrightarrow> i \<notin> fst ` set log \<Longrightarrow> replay ops (sub(i \<mapsto> y)) d0 log = Some d"
  by (induction ops sub d0 log rule: replay.induct) (auto split: option.splits prod.splits if_splits)

definition held :: "worker \<Rightarrow> WorkItem option" where
  "held w = (case w of Idle \<Rightarrow> None | Working work \<Rightarrow> Some work | Executed work res x \<Rightarrow> Some work)"

definition entry_ok where
  "entry_ok sub log w j r \<longleftrightarrow>
     (\<exists>data. sub (rq_id r) = Some (operation r, rq_lba r, data) \<and>
       (case rq_state r of
          Pending \<Rightarrow> rq_data r = data \<and> rq_id r \<notin> fst ` set log
        | InProgress \<Rightarrow> held w = Some \<lparr>wi_slot = j, wi_request = r\<rparr>
        | Complete \<Rightarrow> (rq_id r, rq_result r, rq_data r) \<in> set log))"

definition worker_ok where
  "worker_ok sub log q w \<longleftrightarrow>
     (\<forall>work. held w = Some work \<longrightarrow> wi_slot work < length (entries q) \<and>
        entries q ! wi_slot work = Some (wi_request work) \<and> rq_state (wi_request work) = InProgress) \<and>
     (case w of Idle \<Rightarrow> True
      | Working work \<Rightarrow> rq_id (wi_request work) \<notin> fst ` set log \<and>
          sub (rq_id (wi_request work)) =
            Some (operation (wi_request work), rq_lba (wi_request work), rq_data (wi_request work))
      | Executed work res x \<Rightarrow> (rq_id (wi_request work), res, x) \<in> set log)"

definition io_inv where
  "io_inv ops d0 q d w sub log \<longleftrightarrow>
     length (entries q) = MAX_BLOCK_IO_REQUESTS \<and> io_slots.unique (entries q) \<and>
     (\<forall>i. sub i \<noteq> None \<longrightarrow> i < next_id q) \<and> fst ` set log \<subseteq> dom sub \<and>
     (\<forall>j r. j < length (entries q) \<longrightarrow> entries q ! j = Some r \<longrightarrow> entry_ok sub log w j r) \<and>
     worker_ok sub log q w \<and> distinct (map fst log) \<and> replay ops sub d0 log = Some d"

lemma io_invD:
  assumes "io_inv ops d0 q d w sub log"
  shows "length (entries q) = 16" "io_slots.unique (entries q)" "sub i \<noteq> None \<Longrightarrow> i < next_id q"
    "fst ` set log \<subseteq> dom sub" "j < 16 \<Longrightarrow> entries q ! j = Some r \<Longrightarrow> entry_ok sub log w j r"
    "worker_ok sub log q w" "distinct (map fst log)" "replay ops sub d0 log = Some d"
  using assms unfolding io_inv_def MAX_BLOCK_IO_REQUESTS_def by auto

lemma io_inv_push:
  assumes inv0: "io_inv ops d0 q d w sub log" and wrap: "next_id q + 1 \<noteq> 0"
    and push: "io_push op lba data q = (Some i, q')"
  shows "io_inv ops d0 q' d w (sub(i \<mapsto> (op, lba, data))) log"
proof -
  note inv = io_invD [OF inv0]
  obtain slot where slot: "free_slot (entries q) = Some slot" "i = next_id q"
    "q' = q\<lparr>next_id := max (next_id q + 1) 1, entries := (entries q)[slot := Some (request_pending i op lba data)]\<rparr>"
    using push by (auto simp: io_push_def split: option.splits)
  have s: "slot < 16" "entries q ! slot = None" using free_slot_Some [OF slot(1)] inv(1) by auto
  have new: "sub i = None" using inv(3) [of i] slot(2) by (cases "sub i") auto
  have u: "unat (next_id q + 1) = unat (next_id q) + 1" using wrap unatSuc [of "next_id q"] by (simp add: add.commute)
  then have nxt: "max (next_id q + 1) 1 = next_id q + 1" "next_id q < next_id q + 1"
    by (simp_all add: max_def word_le_nat_alt word_less_nat_alt unat_eq_zero)
  have unused: "rq_id r \<noteq> i" if "j < 16" "entries q ! j = Some r" for j r
    using inv(5) [OF that] new by (auto simp: entry_ok_def)
  have fresh: "i \<notin> fst ` set log" using inv(4) new by auto
  have none: "io_slots.table (entries q) (rq_id (request_pending i op lba data)) = None"
    using unused inv(1) by (auto simp: io_slots.table_None_iff request_pending_def in_set_conv_nth)
  have old: "entry_ok (sub(i \<mapsto> (op, lba, data))) log w j r" if "j < 16" "entries q ! j = Some r" for j r
    using inv(5) [OF that] unused [OF that] by (auto simp: entry_ok_def)
  have newe: "entry_ok (sub(i \<mapsto> (op, lba, data))) log w slot (request_pending i op lba data)"
    using fresh by (simp add: entry_ok_def request_pending_def)
  have q': "entries q' = (entries q)[slot := Some (request_pending i op lba data)]" "next_id q' = next_id q + 1"
    using slot(3) nxt(1) by simp_all
  have "worker_ok (sub(i \<mapsto> (op, lba, data))) log q' w"
  proof -
    have "wi_slot work \<noteq> slot" "rq_id (wi_request work) \<noteq> i" if "held w = Some work" for work
      using inv(6) that s(2) unused inv(1) by (auto simp: worker_ok_def)
    then show ?thesis using inv(6) inv(1) by (auto simp: worker_ok_def q'(1) held_def split: worker.splits)
  qed
  moreover have "entry_ok (sub(i \<mapsto> (op, lba, data))) log w j r" if "j < 16" "entries q' ! j = Some r" for j r
    using that old newe inv(1) unfolding q'(1) by (cases "j = slot") auto
  moreover have "k < next_id q'" if "(sub(i \<mapsto> (op, lba, data))) k \<noteq> None" for k
    using that inv(3) [of k] nxt(2) q'(2) slot(2) by (cases "k = i") (auto intro: less_trans)
  moreover have "io_slots.unique (entries q')" unfolding q'(1) by (rule io_slots.unique_occupy [OF inv(2) none])
  ultimately show ?thesis
    using inv(1,4,7) replay_extend [OF inv(8) fresh]
    unfolding io_inv_def MAX_BLOCK_IO_REQUESTS_def q'(1) by auto
qed

lemma io_invI:
  assumes "length (entries q) = 16" "io_slots.unique (entries q)" "\<And>i. sub i \<noteq> None \<Longrightarrow> i < next_id q"
    "fst ` set log \<subseteq> dom sub" "\<And>j r. j < 16 \<Longrightarrow> entries q ! j = Some r \<Longrightarrow> entry_ok sub log w j r"
    "worker_ok sub log q w" "distinct (map fst log)" "replay ops sub d0 log = Some d"
  shows "io_inv ops d0 q d w sub log"
  using assms unfolding io_inv_def MAX_BLOCK_IO_REQUESTS_def by auto

lemma io_inv_take:
  assumes inv0: "io_inv ops d0 q d Idle sub log" and take: "take_pending q = (Some work, q')"
  shows "io_inv ops d0 q' d (Working work) sub log"
proof -
  note inv = io_invD [OF inv0]
  obtain slot r where slot: "slot < 16" "entries q ! slot = Some r" "rq_state r = Pending"
    "work = \<lparr>wi_slot = slot, wi_request = r\<lparr>rq_state := InProgress\<rparr>\<rparr>"
    "q' = q\<lparr>entries := (entries q)[slot := Some (r\<lparr>rq_state := InProgress\<rparr>)]\<rparr>"
    using take inv(1) by (auto simp: take_pending_def Let_def split: option.splits elim!: slot_where_Some)
  have ok: "entry_ok sub log Idle slot r" by (rule inv(5) [OF slot(1,2)])
  show ?thesis
  proof (rule io_invI)
    show "io_slots.unique (entries q')" unfolding slot(5)
      using io_slots.unique_replace [OF inv(2) _ slot(2)] slot(1) inv(1) by simp
    show "entry_ok sub log (Working work) j t" if "j < 16" "entries q' ! j = Some t" for j t
    proof (cases "j = slot")
      case True
      with that slot inv(1) have "t = r\<lparr>rq_state := InProgress\<rparr>" by simp
      with ok slot True show ?thesis by (auto simp: entry_ok_def held_def)
    next
      case False
      with that slot(5) have "entry_ok sub log Idle j t" using inv(5) by simp
      then show ?thesis by (auto simp: entry_ok_def held_def split: RequestState.splits)
    qed
    show "worker_ok sub log q' (Working work)" using ok slot inv(1) by (auto simp: worker_ok_def held_def entry_ok_def)
    show "i < next_id q'" if "sub i \<noteq> None" for i using inv(3) [OF that] slot(5) by simp
  qed (use inv slot(5) in simp_all)
qed

lemma io_inv_exec:
  assumes inv0: "io_inv ops d0 q d (Working work) sub log"
    and exec: "perform ops (operation (wi_request work)) (rq_lba (wi_request work)) (rq_data (wi_request work)) d = (res, x, d')"
  shows "io_inv ops d0 q d' (Executed work res x) sub (log @ [(rq_id (wi_request work), res, x)])"
proof -
  note inv = io_invD [OF inv0]
  let ?i = "rq_id (wi_request work)"
  have w: "wi_slot work < 16" "entries q ! wi_slot work = Some (wi_request work)" "?i \<notin> fst ` set log"
    "sub ?i = Some (operation (wi_request work), rq_lba (wi_request work), rq_data (wi_request work))"
    "rq_state (wi_request work) = InProgress"
    using inv(6) inv(1) by (simp_all add: worker_ok_def held_def)
  show ?thesis
  proof (rule io_invI)
    show "entry_ok sub (log @ [(?i, res, x)]) (Executed work res x) j r" if "j < 16" "entries q ! j = Some r" for j r
    proof (cases "j = wi_slot work")
      case True
      with that w have "r = wi_request work" by simp
      with inv(5) [OF that] w(5) show ?thesis by (auto simp: entry_ok_def held_def)
    next
      case False
      then have "rq_id r \<noteq> ?i"
        using io_slots.uniqueD [OF inv(2), of j "wi_slot work" r "wi_request work"] that w(1,2) inv(1) by auto
      with inv(5) [OF that] show ?thesis by (auto simp: entry_ok_def held_def split: RequestState.splits)
    qed
    show "worker_ok sub (log @ [(?i, res, x)]) q (Executed work res x)"
      using w inv(1) by (simp add: worker_ok_def held_def)
    show "distinct (map fst (log @ [(?i, res, x)]))" using inv(7) w(3) by (simp add: image_image)
    show "replay ops sub d0 (log @ [(?i, res, x)]) = Some d'" by (rule replay_snoc [OF inv(8) w(4) exec])
    show "fst ` set (log @ [(?i, res, x)]) \<subseteq> dom sub" using inv(4) w(4) by auto
  qed (use inv(1,2,3) in simp_all)
qed

lemma io_inv_finish:
  assumes inv0: "io_inv ops d0 q d (Executed work res x) sub log"
  shows "io_inv ops d0 (finish (wi_slot work) (rq_id (wi_request work)) res x q) d Idle sub log"
proof -
  note inv = io_invD [OF inv0]
  let ?r = "wi_request work"
  define r' where "r' = ?r\<lparr>rq_data := x, rq_result := res, rq_state := Complete\<rparr>"
  have w: "wi_slot work < 16" "entries q ! wi_slot work = Some ?r" "rq_state ?r = InProgress"
    "(rq_id ?r, res, x) \<in> set log"
    using inv(6) inv(1) by (simp_all add: worker_ok_def held_def)
  have q': "finish (wi_slot work) (rq_id ?r) res x q = q\<lparr>entries := (entries q)[wi_slot work := Some r']\<rparr>"
    using w inv(1) by (simp add: finish_def r'_def)
  show ?thesis unfolding q'
  proof (rule io_invI)
    show "io_slots.unique (entries (q\<lparr>entries := (entries q)[wi_slot work := Some r']\<rparr>))"
      using io_slots.unique_replace [OF inv(2) _ w(2), of r'] w(1) inv(1) by (simp add: r'_def)
    show "entry_ok sub log Idle j t"
      if "j < 16" "entries (q\<lparr>entries := (entries q)[wi_slot work := Some r']\<rparr>) ! j = Some t" for j t
    proof (cases "j = wi_slot work")
      case True
      with that inv(1) have "t = r'" by simp
      with inv(5) [OF w(1,2)] w(4) show ?thesis by (auto simp: entry_ok_def r'_def)
    next
      case False
      with that have "entry_ok sub log (Executed work res x) j t" using inv(5) by simp
      with False show ?thesis by (auto simp: entry_ok_def held_def split: RequestState.splits)
    qed
    show "worker_ok sub log (q\<lparr>entries := (entries q)[wi_slot work := Some r']\<rparr>) Idle"
      by (simp add: worker_ok_def held_def)
    show "i < next_id (q\<lparr>entries := (entries q)[wi_slot work := Some r']\<rparr>)" if "sub i \<noteq> None" for i
      using inv(3) [OF that] by simp
  qed (use inv in simp_all)
qed

lemma take_result_entry:
  assumes "take_result i out q = (Some (r, out'), q')"
  obtains slot e where "slot < length (entries q)" "entries q ! slot = Some e" "rq_id e = i" "rq_state e = Complete"
    "r = rq_result e" "out' = (if r = Inr () then map_option (\<lambda>b. rq_data e) out else out)"
    "q' = q\<lparr>entries := (entries q)[slot := None]\<rparr>"
  using assms by (auto simp: take_result_def Let_def split: option.splits elim!: slot_where_Some)

lemma io_inv_collect:
  assumes inv0: "io_inv ops d0 q d w sub log" and res: "take_result i out q = (Some (r, out'), q')"
  shows "io_inv ops d0 q' d w sub log"
proof -
  note inv = io_invD [OF inv0]
  obtain slot e where e: "slot < length (entries q)" "entries q ! slot = Some e" "rq_state e = Complete"
    "q' = q\<lparr>entries := (entries q)[slot := None]\<rparr>"
    by (rule take_result_entry [OF res])
  have other: "wi_slot work \<noteq> slot" if "held w = Some work" for work
    using inv(6) that e(2,3) by (auto simp: worker_ok_def)
  show ?thesis
  proof (rule io_invI)
    show "io_slots.unique (entries q')" unfolding e(4) using io_slots.unique_release [OF inv(2)] by simp
    show "entry_ok sub log w j t" if "j < 16" "entries q' ! j = Some t" for j t
      using that e(1,4) inv(1,5) by (cases "j = slot") simp_all
    show "worker_ok sub log q' w"
      using inv(6) other e(4) by (auto simp: worker_ok_def held_def split: worker.splits)
    show "k < next_id q'" if "sub k \<noteq> None" for k using inv(3) [OF that] e(4) by simp
  qed (use inv e(4) in simp_all)
qed

lemma io_history_inv: "io_history ops d0 q d w sub log \<Longrightarrow> io_inv ops d0 q d w sub log"
proof (induction rule: io_history.induct)
  case boot
  show ?case
    by (rule io_invI) (simp_all add: queue_new_def MAX_BLOCK_IO_REQUESTS_def worker_ok_def held_def)
qed (blast intro: io_inv_push io_inv_take io_inv_exec io_inv_finish io_inv_collect)+

text \<open>A history with one completed write.\<close>

lemma one_write_history:
  assumes "length x = 512"
  shows "\<exists>q. io_history ramdisk_ops (ramdisk_new 1) q \<lparr>sectors = [x], rd_read_only = False\<rparr> Idle
    (Map.empty(1 \<mapsto> (Write, 0, x))) [(1, Inr (), x)]"
proof -
  let ?r = "request_pending 1 Write 0 x"
  let ?q = "\<lparr>entries = Some ?r # replicate 15 None, next_id = 2\<rparr>"
  let ?w = "\<lparr>wi_slot = 0, wi_request = ?r\<lparr>rq_state := InProgress\<rparr>\<rparr>"
  have push: "io_push Write 0 x queue_new = (Some 1, ?q)"
    by (simp add: io_push_def queue_new_def MAX_BLOCK_IO_REQUESTS_def free_slot_def numeral_eq_Suc)
  have take: "take_pending ?q = (Some ?w, ?q\<lparr>entries := Some (wi_request ?w) # replicate 15 None\<rparr>)"
    by (simp add: take_pending_def slot_where_def request_pending_def Let_def)
  have exec: "perform ramdisk_ops (operation (wi_request ?w)) (rq_lba (wi_request ?w)) (rq_data (wi_request ?w)) (ramdisk_new 1)
      = (Inr (), x, \<lparr>sectors = [x], rd_read_only = False\<rparr>)"
    using assms by (simp add: perform_def request_pending_def ramdisk_new_def ramdisk_write_sector_def SECTOR_SIZE_def)
  have "io_history ramdisk_ops (ramdisk_new 1) ?q (ramdisk_new 1) Idle (Map.empty(1 \<mapsto> (Write, 0, x))) []"
    by (rule io_history.push [OF io_history.boot _ push]) (simp add: queue_new_def)
  from io_history.done_ [OF io_history.exec [OF io_history.take [OF this take] exec]]
  show ?thesis by (auto simp: request_pending_def)
qed



section \<open>The queued path\<close>

lemma slot_where_only:
  assumes "k < length xs" "xs ! k = Some v" "P v" "\<And>j w. j \<noteq> k \<Longrightarrow> j < length xs \<Longrightarrow> xs ! j = Some w \<Longrightarrow> \<not> P w"
  shows "slot_where P xs = Some k"
proof (cases "slot_where P xs")
  case None
  with assms(1-3) show ?thesis by (metis slot_where_None nth_mem)
next
  case (Some j)
  then show ?thesis using assms(4) by (auto elim!: slot_where_Some)
qed

text \<open>A request alone in the queue is the one the worker takes, and its result the one collected.\<close>

lemma alone_in_queue:
  assumes free: "free_slot xs = Some k" and idle: "\<And>r. Some r \<in> set xs \<Longrightarrow> rq_id r \<noteq> i \<and> rq_state r \<noteq> Pending"
    and r: "rq_id r = i"
  shows "rq_state r = Pending \<Longrightarrow> slot_where (\<lambda>r. rq_state r = Pending) (xs[k := Some r]) = Some k"
    and "rq_state r = Complete \<Longrightarrow> slot_where (\<lambda>r. \<not> (rq_id r \<noteq> i \<or> rq_state r \<noteq> Complete)) (xs[k := Some r]) = Some k"
    and "rq_state r = Pending \<Longrightarrow> slot_where (\<lambda>r. \<not> (rq_id r \<noteq> i \<or> rq_state r \<noteq> Complete)) (xs[k := Some r]) = None"
proof -
  have k: "k < length xs" using free_slot_Some [OF free] by simp
  have other: "rq_id w \<noteq> i \<and> rq_state w \<noteq> Pending" if "j \<noteq> k" "j < length xs" "(xs[k := Some r]) ! j = Some w" for j w
    using that idle [of w] nth_mem [of j xs] by simp
  show "rq_state r = Pending \<Longrightarrow> slot_where (\<lambda>r. rq_state r = Pending) (xs[k := Some r]) = Some k"
    by (rule slot_where_only) (use k other in auto)
  show "rq_state r = Complete \<Longrightarrow> slot_where (\<lambda>r. \<not> (rq_id r \<noteq> i \<or> rq_state r \<noteq> Complete)) (xs[k := Some r]) = Some k"
    by (rule slot_where_only) (use k other r in auto)
  show "slot_where (\<lambda>r. \<not> (rq_id r \<noteq> i \<or> rq_state r \<noteq> Complete)) (xs[k := Some r]) = None" if "rq_state r = Pending"
    unfolding slot_where_None
  proof (intro allI impI)
    fix w assume "Some w \<in> set (xs[k := Some r])"
    then consider "w = r" | "Some w \<in> set xs" using set_update_subset_insert [of xs k "Some r"] by auto
    then show "\<not> \<not> (rq_id w \<noteq> i \<or> rq_state w \<noteq> Complete)" using idle that by cases auto
  qed
qed

definition worker_turn :: "'d BlockDevice \<Rightarrow> 'd IoState \<Rightarrow> 'd IoState" where
  "worker_turn ops s = snd (process_one_primary ops s)"

text \<open>What the worker does with a request it has taken, by its kind.\<close>

definition primary_result ::
  "'d BlockDevice \<Rightarrow> Operation \<Rightarrow> u64 \<Rightarrow> bytes \<Rightarrow> 'd option \<Rightarrow> (block_error + unit) \<times> bytes \<times> 'd option" where
  "primary_result ops op lba data dsk =
     (case dsk of None \<Rightarrow> (Inl DeviceFault, data, None)
      | Some d \<Rightarrow> (let (r, x, d') = perform ops op lba data d in (r, x, Some d')))"

lemma process_one_alone:
  assumes "free_slot (entries q) = Some k" "\<And>r. Some r \<in> set (entries q) \<Longrightarrow> rq_id r \<noteq> i \<and> rq_state r \<noteq> Pending"
    and "primary_result ops op lba data (disk s) = (res, x, dsk)"
    and "queue s = q\<lparr>next_id := n, entries := (entries q)[k := Some (request_pending i op lba data)]\<rparr>"
  shows "worker_turn ops s = s\<lparr>disk := dsk, in_worker := False, completed := completed s + 1,
     queue := q\<lparr>next_id := n, entries := (entries q)[k := Some ((request_pending i op lba data)\<lparr>rq_data := x, rq_result := res, rq_state := Complete\<rparr>)]\<rparr>\<rparr>"
proof -
  have k: "k < length (entries q)" using free_slot_Some [OF assms(1)] by simp
  have t: "take_pending (queue s) = (Some \<lparr>wi_slot = k, wi_request = (request_pending i op lba data)\<lparr>rq_state := InProgress\<rparr>\<rparr>,
      q\<lparr>next_id := n, entries := (entries q)[k := Some ((request_pending i op lba data)\<lparr>rq_state := InProgress\<rparr>)]\<rparr>)"
    using alone_in_queue(1) [OF assms(1,2), of "request_pending i op lba data"] k assms(4)
    by (simp add: take_pending_def request_pending_def Let_def)
  show ?thesis
    using assms(3) k
    by (cases op; cases "disk s")
      (auto simp: worker_turn_def process_one_primary_def t finish_def request_pending_def primary_result_def
        direct_primary_def perform_def Let_def split: prod.splits)
qed

definition after_queued :: "'d IoState \<Rightarrow> 'd option \<Rightarrow> 'd IoState" where
  "after_queued s dsk = s\<lparr>queue := (queue s)\<lparr>next_id := max (next_id (queue s) + 1) 1\<rparr>,
     queued := queued s + 1, completed := completed s + 1, disk := dsk\<rparr>"

lemma submit_alone:
  assumes queued: "should_queue irqs current s" and free: "None \<in> set (entries (queue s))"
    and idle: "\<And>r. Some r \<in> set (entries (queue s)) \<Longrightarrow> rq_id r \<noteq> next_id (queue s) \<and> rq_state r \<noteq> Pending"
    and started: "next_id (queue s) \<noteq> 0"
    and res: "primary_result ops op a (case inp of None \<Rightarrow> replicate SECTOR_SIZE 0 | Some v \<Rightarrow> v) (disk s) = (res, x, dsk)"
  shows "io_submit ops irqs current [worker_turn ops] op a inp out s =
    Some (res, if res = Inr () then map_option (\<lambda>b. x) out else out, after_queued s dsk)"
proof -
  let ?q = "queue s" and ?i = "next_id (queue s)"
  let ?data = "case inp of None \<Rightarrow> replicate SECTOR_SIZE 0 | Some v \<Rightarrow> v"
  let ?out = "if res = Inr () then map_option (\<lambda>b. x) out else out"
  let ?r = "request_pending ?i op a ?data"
  let ?n = "max (?i + 1) 1"
  obtain k where k: "free_slot (entries ?q) = Some k" using free by (cases "free_slot (entries ?q)") auto
  have k': "k < length (entries ?q)" "entries ?q ! k = None" using free_slot_Some [OF k] by simp_all
  have "0 < unat ?i" using started by (simp add: unat_gt_0)
  then have mx: "max ?i 1 = ?i" by (intro max_absorb1) (simp add: word_le_nat_alt)
  have nw: "\<not> in_worker s" using queued by (auto simp: should_queue_def)
  define s1 where "s1 = s\<lparr>queue := ?q\<lparr>next_id := ?n, entries := (entries ?q)[k := Some ?r]\<rparr>, queued := queued s + 1\<rparr>"
  have turn: "worker_turn ops s1 = s1\<lparr>disk := dsk, in_worker := False, completed := completed s1 + 1,
     queue := ?q\<lparr>next_id := ?n, entries := (entries ?q)[k := Some (?r\<lparr>rq_data := x, rq_result := res, rq_state := Complete\<rparr>)]\<rparr>\<rparr>"
    by (rule process_one_alone [OF k idle]) (use res in \<open>simp_all add: s1_def\<close>)
  have t1: "take_result ?i out (queue s1) = (None, queue s1)"
    using alone_in_queue(3) [OF k idle, of ?r] by (simp add: take_result_def s1_def request_pending_def)
  have t2: "take_result ?i out (queue (worker_turn ops s1)) = (Some (res, ?out), ?q\<lparr>next_id := ?n\<rparr>)"
    using alone_in_queue(2) [OF k idle, of "?r\<lparr>rq_data := x, rq_result := res, rq_state := Complete\<rparr>"] k'
    by (simp add: take_result_def turn request_pending_def Let_def list_update_same_conv [THEN iffD2])
  have w: "wait_for_completion ?i out [] (worker_turn ops s1) =
      Some (res, ?out, (worker_turn ops s1)\<lparr>queue := ?q\<lparr>next_id := ?n\<rparr>\<rparr>)"
    by (subst wait_for_completion.simps) (simp add: t2)
  have w: "wait_for_completion ?i out [worker_turn ops] s1 =
      Some (res, ?out, (worker_turn ops s1)\<lparr>queue := ?q\<lparr>next_id := ?n\<rparr>\<rparr>)"
    by (subst wait_for_completion.simps) (simp add: t1 mx w)
  have sub1: "io_submit ops irqs current [worker_turn ops] op a inp out s = wait_for_completion ?i out [worker_turn ops] s1"
    using queued by (simp add: io_submit_def io_push_def k s1_def Let_def)
  have "(worker_turn ops s1)\<lparr>queue := ?q\<lparr>next_id := ?n\<rparr>\<rparr> = after_queued s dsk"
    unfolding turn by (simp add: s1_def after_queued_def nw)
  then show ?thesis by (simp add: sub1 w)
qed

text \<open>
  C31: The queue changes nothing but who runs the request. When the queue has a free slot and
  nothing else to do, a sector operation that goes through the queue and one turn of the worker
  gives the result that a direct one gives (a read into a zeroed buffer, copied out on success
  only), leaves the disk as the direct one does, and leaves the slot table as it was.
\<close>

theorem block_io_queued_equals_direct:
  assumes "should_queue irqs current s" and "None \<in> set (entries (queue s))"
    and "\<And>r. Some r \<in> set (entries (queue s)) \<Longrightarrow> rq_id r \<noteq> next_id (queue s) \<and> rq_state r \<noteq> Pending"
    and "next_id (queue s) \<noteq> 0" and "length buf = SECTOR_SIZE"
  shows "ata_read_sector ops irqs current [worker_turn ops] lba buf s =
       (let (r, x, dsk) = direct_primary ops Read lba None (Some (replicate SECTOR_SIZE 0)) (disk s)
        in Some (r, Some (if r = Inr () then the x else buf), after_queued s dsk)) \<and>
     ata_write_sector ops irqs current [worker_turn ops] lba buf s =
       (let (r, x, dsk) = direct_primary ops Write lba (Some buf) None (disk s) in Some (r, None, after_queued s dsk)) \<and>
     ata_flush ops irqs current [worker_turn ops] s =
       (let (r, x, dsk) = direct_primary ops Flush 0 None None (disk s) in Some (r, None, after_queued s dsk))"
proof -
  have sub: "io_submit ops irqs current [worker_turn ops] op a inp out s =
      (let (r, x, dsk) = primary_result ops op a (case inp of None \<Rightarrow> replicate SECTOR_SIZE 0 | Some v \<Rightarrow> v) (disk s)
       in Some (r, if r = Inr () then map_option (\<lambda>b. x) out else out, after_queued s dsk))" for op a inp out
    using submit_alone [OF assms(1-4)] by (auto split: prod.splits)
  show ?thesis unfolding ata_read_sector_def ata_write_sector_def ata_flush_def sub
    using assms(5) by (auto simp: direct_primary_def primary_result_def perform_def Let_def split: prod.splits option.splits)
qed

definition idle_io :: "RamDisk IoState" where
  "idle_io = \<lparr>queue = queue_new, worker_task = Some 1, in_worker = False, queued = 0, completed = 0, direct = 0,
     disk = Some (ramdisk_new 1)\<rparr>"

theorem block_io_queued_equals_direct_witness:
  "should_queue True (Some 2) idle_io \<and>
   ata_write_sector ramdisk_ops True (Some 2) [worker_turn ramdisk_ops] 0 (replicate 512 7) idle_io =
     Some (Inr (), None, after_queued idle_io (Some \<lparr>sectors = [replicate 512 7], rd_read_only = False\<rparr>))"
proof -
  have "should_queue True (Some 2) idle_io" by (simp add: should_queue_def idle_io_def)
  moreover have "direct_primary ramdisk_ops Write 0 (Some (replicate 512 7)) None (disk idle_io) =
      (Inr (), None, Some \<lparr>sectors = [replicate 512 7], rd_read_only = False\<rparr>)"
    by (simp add: direct_primary_def idle_io_def ramdisk_new_def ramdisk_write_sector_def SECTOR_SIZE_def)
  ultimately show ?thesis
    using block_io_queued_equals_direct [of True "Some 2" idle_io "replicate 512 7" ramdisk_ops 0]
    by (simp add: idle_io_def queue_new_def MAX_BLOCK_IO_REQUESTS_def SECTOR_SIZE_def)
qed

end
