(* ===== verification/Swap.thy ===== *)
theory Swap
  imports Block
begin

text \<open>
  Swap storage (\<open>kernel/src/swap.rs\<close>): a table of page slots named by generation-checked
  handles, kept in memory or on a region of the primary disk. Slots are reserved, written and
  published under separate lock acquisitions, so that other tasks may run in between; the
  refinement below covers these interleavings.
\<close>

section \<open>Model\<close>

definition SWAP_PAGE_SIZE :: nat where
  "SWAP_PAGE_SIZE = 4096"

definition SECTORS_PER_PAGE :: nat where
  "SECTORS_PER_PAGE = SWAP_PAGE_SIZE div SECTOR_SIZE"

definition MAX_SWAP_SLOTS :: nat where
  "MAX_SWAP_SLOTS = 32"

record Handle =
  h_index :: u16
  h_generation :: u16

definition handle_index :: "Handle \<Rightarrow> nat" where
  "handle_index h = unat (h_index h)"

datatype Backing = Ram | Disk

record Slot =
  sl_data :: bytes
  refcount :: u16
  generation :: u16
  sl_occupied :: bool
  backing :: Backing

definition slot_empty :: Slot where
  "slot_empty = \<lparr>sl_data = replicate SWAP_PAGE_SIZE 0, refcount = 0, generation = 0, sl_occupied = False, backing = Ram\<rparr>"

definition slot_clear :: "Slot \<Rightarrow> Slot" where
  "slot_clear s = slot_empty\<lparr>generation := generation s\<rparr>"

record DiskBacking =
  db_start_lba :: u64
  db_slots :: nat

record SwapState =
  sw_slots :: "Slot list"
  sw_disk :: "DiskBacking option"

definition swap_new :: SwapState where
  "swap_new = \<lparr>sw_slots = replicate MAX_SWAP_SLOTS slot_empty, sw_disk = None\<rparr>"

definition slot_live :: "Slot \<Rightarrow> bool" where
  "slot_live s \<longleftrightarrow> sl_occupied s \<and> 0 < refcount s"

definition swap_used :: "SwapState \<Rightarrow> nat" where
  "swap_used s = length (filter slot_live (sw_slots s))"

definition configure_disk :: "u64 \<Rightarrow> u64 \<Rightarrow> SwapState \<Rightarrow> nat option \<times> SwapState" where
  "configure_disk start_lba n s =
     (if swap_used s \<noteq> 0 \<or> n < word_of_nat SECTORS_PER_PAGE then (None, s)
      else let slots = min MAX_SWAP_SLOTS (unat (n div word_of_nat SECTORS_PER_PAGE)) in
        if slots = 0 then (None, s)
        else (Some slots, s\<lparr>sw_disk := Some \<lparr>db_start_lba = start_lba, db_slots = slots\<rparr>\<rparr>))"

definition swap_free_slot :: "SwapState \<Rightarrow> nat option" where
  "swap_free_slot s = position (\<lambda>sl. \<not> sl_occupied sl) (sw_slots s)"

definition disk_lba :: "SwapState \<Rightarrow> nat \<Rightarrow> u64 option" where
  "disk_lba s index =
     (case sw_disk s of None \<Rightarrow> None
      | Some disk \<Rightarrow>
          if db_slots disk \<le> index then None
          else case checked_mul (word_of_nat index) (word_of_nat SECTORS_PER_PAGE) of
                 None \<Rightarrow> None | Some off \<Rightarrow> checked_add (db_start_lba disk) off)"

definition next_generation :: "SwapState \<Rightarrow> nat \<Rightarrow> u16" where
  "next_generation s index =
     (let g = generation (sw_slots s ! index) + 1 in if g = 0 then 1 else g)"

definition set_slot :: "nat \<Rightarrow> Slot \<Rightarrow> SwapState \<Rightarrow> SwapState" where
  "set_slot i sl s = s\<lparr>sw_slots := (sw_slots s)[i := sl]\<rparr>"

definition occupy :: "nat \<Rightarrow> Backing \<Rightarrow> bytes option \<Rightarrow> SwapState \<Rightarrow> Handle \<times> SwapState" where
  "occupy index b data s =
     (let g = next_generation s index;
          sl = slot_clear (sw_slots s ! index);
          sl = (case data of None \<Rightarrow> sl | Some d \<Rightarrow> sl\<lparr>sl_data := d\<rparr>);
          sl = sl\<lparr>generation := g, refcount := 1, sl_occupied := True, backing := b\<rparr>
      in (\<lparr>h_index = word_of_nat index, h_generation = g\<rparr>, set_slot index sl s))"

definition reserve_disk :: "SwapState \<Rightarrow> (nat \<times> u16 \<times> u64) option \<times> SwapState" where
  "reserve_disk s =
     (case swap_free_slot s of None \<Rightarrow> (None, s)
      | Some index \<Rightarrow>
          (case disk_lba s index of None \<Rightarrow> (None, s)
           | Some lba \<Rightarrow>
               (let g = next_generation s index;
                    sl = (slot_clear (sw_slots s ! index))\<lparr>generation := g, sl_occupied := True, refcount := 0, backing := Disk\<rparr>
                in (Some (index, g, lba), set_slot index sl s))))"

definition publish_reserved_disk :: "nat \<Rightarrow> u16 \<Rightarrow> SwapState \<Rightarrow> Handle option \<times> SwapState" where
  "publish_reserved_disk index g s =
     (if index < length (sw_slots s)
      then let sl = sw_slots s ! index in
        if \<not> sl_occupied sl \<or> refcount sl \<noteq> 0 \<or> generation sl \<noteq> g then (None, s)
        else (Some \<lparr>h_index = word_of_nat index, h_generation = g\<rparr>,
              set_slot index (sl\<lparr>refcount := 1, backing := Disk\<rparr>) s)
      else (None, s))"

definition cancel_reserved :: "nat \<Rightarrow> u16 \<Rightarrow> SwapState \<Rightarrow> SwapState" where
  "cancel_reserved index g s =
     (if index < length (sw_slots s)
      then let sl = sw_slots s ! index in
        if sl_occupied sl \<and> refcount sl = 0 \<and> generation sl = g then set_slot index (slot_clear sl) s else s
      else s)"

definition allocate_ram :: "bytes \<Rightarrow> SwapState \<Rightarrow> Handle option \<times> SwapState" where
  "allocate_ram data s =
     (case swap_free_slot s of None \<Rightarrow> (None, s)
      | Some index \<Rightarrow> (let (h, s') = occupy index Ram (Some data) s in (Some h, s')))"

text \<open>The sector loops of a page.\<close>

fun write_page_loop :: "'d BlockDevice \<Rightarrow> u64 \<Rightarrow> bytes \<Rightarrow> nat list \<Rightarrow> ('d, block_error, unit) io" where
  "write_page_loop ops start data [] = retS ()"
| "write_page_loop ops start data (k # ks) =
     (case checked_add start (word_of_nat k) of
        None \<Rightarrow> liftS (Inl OutOfBounds)
      | Some lba \<Rightarrow> thenS (\<lambda>d. dev_write ops d lba (slice data (k * SECTOR_SIZE) SECTOR_SIZE))
                     (write_page_loop ops start data ks))"

definition write_page_to_device :: "'d BlockDevice \<Rightarrow> u64 \<Rightarrow> bytes \<Rightarrow> ('d, block_error, unit) io" where
  "write_page_to_device ops start data = write_page_loop ops start data [0..<SECTORS_PER_PAGE]"

definition read_part :: "'d BlockDevice \<Rightarrow> u64 \<Rightarrow> nat \<Rightarrow> bytes \<Rightarrow> ('d, block_error, bytes) io" where
  "read_part ops lba off data =
     (\<lambda>d. case dev_read ops d lba (slice data off SECTOR_SIZE) of
        (Inl e, _, d') \<Rightarrow> (Inl e, d')
      | (Inr _, sec, d') \<Rightarrow> (Inr (copy_at data off sec), d'))"

fun read_page_loop :: "'d BlockDevice \<Rightarrow> u64 \<Rightarrow> bytes \<Rightarrow> nat list \<Rightarrow> ('d, block_error, bytes) io" where
  "read_page_loop ops start data [] = retS data"
| "read_page_loop ops start data (k # ks) =
     (case checked_add start (word_of_nat k) of
        None \<Rightarrow> liftS (Inl OutOfBounds)
      | Some lba \<Rightarrow> bindS (read_part ops lba (k * SECTOR_SIZE) data) (\<lambda>data. read_page_loop ops start data ks))"

definition read_page_from_device :: "'d BlockDevice \<Rightarrow> u64 \<Rightarrow> bytes \<Rightarrow> ('d, block_error, bytes) io" where
  "read_page_from_device ops start data = read_page_loop ops start data [0..<SECTORS_PER_PAGE]"

definition swap_get :: "SwapState \<Rightarrow> Handle \<Rightarrow> Slot option" where
  "swap_get s h =
     (if handle_index h < length (sw_slots s)
      then let sl = sw_slots s ! handle_index h in
        if sl_occupied sl \<and> 0 < refcount sl \<and> generation sl = h_generation h then Some sl else None
      else None)"

definition read_ram :: "SwapState \<Rightarrow> Handle \<Rightarrow> bytes option" where
  "read_ram s h =
     (case swap_get s h of None \<Rightarrow> None
      | Some sl \<Rightarrow> if backing sl \<noteq> Ram then None else Some (sl_data sl))"

definition disk_read_lba :: "SwapState \<Rightarrow> Handle \<Rightarrow> u64 option" where
  "disk_read_lba s h =
     (case swap_get s h of None \<Rightarrow> None
      | Some sl \<Rightarrow> if backing sl \<noteq> Disk then None else disk_lba s (handle_index h))"

definition share :: "Handle \<Rightarrow> SwapState \<Rightarrow> bool \<times> SwapState" where
  "share h s =
     (case swap_get s h of None \<Rightarrow> (False, s)
      | Some sl \<Rightarrow>
          (case checked_add (refcount sl) 1 of None \<Rightarrow> (False, s)
           | Some n \<Rightarrow> (True, set_slot (handle_index h) (sl\<lparr>refcount := n\<rparr>) s)))"

definition release :: "Handle \<Rightarrow> SwapState \<Rightarrow> bool \<times> SwapState" where
  "release h s =
     (case swap_get s h of None \<Rightarrow> (False, s)
      | Some sl \<Rightarrow>
          (let sl = sl\<lparr>refcount := saturating_sub (refcount sl) 1\<rparr>;
               sl = (if refcount sl = 0 then slot_clear sl else sl)
           in (True, set_slot (handle_index h) sl s)))"

record SwapStats =
  st_used :: nat
  st_ram_used :: nat
  st_disk_used :: nat
  st_disk_slots :: nat

definition swap_stats :: "SwapState \<Rightarrow> SwapStats" where
  "swap_stats s = fold (\<lambda>sl st. if slot_live sl
       then (case backing sl of
               Ram \<Rightarrow> st\<lparr>st_used := st_used st + 1, st_ram_used := st_ram_used st + 1\<rparr>
             | Disk \<Rightarrow> st\<lparr>st_used := st_used st + 1, st_disk_used := st_disk_used st + 1\<rparr>)
       else st) (sw_slots s)
     \<lparr>st_used = 0, st_ram_used = 0, st_disk_used = 0,
      st_disk_slots = (case sw_disk s of None \<Rightarrow> 0 | Some disk \<Rightarrow> db_slots disk)\<rparr>"

text \<open>
  The public operations on the swap state and the primary disk; \<open>present\<close> says whether that disk
  exists.
\<close>

definition store_page :: "'d BlockDevice \<Rightarrow> bool \<Rightarrow> u64 \<Rightarrow> bytes \<Rightarrow> 'd \<Rightarrow> bool \<times> 'd" where
  "store_page ops present lba data d =
     (if present
      then case write_page_to_device ops lba data d of
             (Inl _, d') \<Rightarrow> (False, d')
           | (Inr _, d') \<Rightarrow> (case dev_flush ops d' of (Inl _, d'') \<Rightarrow> (False, d'') | (Inr _, d'') \<Rightarrow> (True, d''))
      else (False, d))"

definition allocate_page ::
  "'d BlockDevice \<Rightarrow> bool \<Rightarrow> bytes \<Rightarrow> SwapState \<times> 'd \<Rightarrow> Handle option \<times> SwapState \<times> 'd" where
  "allocate_page ops present data sd =
     (case sd of (s, d) \<Rightarrow>
       (case reserve_disk s of
          (None, s) \<Rightarrow> (let (r, s) = allocate_ram data s in (r, s, d))
        | (Some (index, g, lba), s) \<Rightarrow>
            (let (wrote, d) = store_page ops present lba data d;
                 (r, s) = (if wrote then publish_reserved_disk index g s else (None, s))
             in case r of
                  Some h \<Rightarrow> (Some h, s, d)
                | None \<Rightarrow> (let s = cancel_reserved index g s; (r, s) = allocate_ram data s in (r, s, d)))))"

definition swap_read_page ::
  "'d BlockDevice \<Rightarrow> bool \<Rightarrow> Handle \<Rightarrow> bytes \<Rightarrow> SwapState \<times> 'd \<Rightarrow> bytes option \<times> 'd" where
  "swap_read_page ops present h buf sd =
     (case sd of (s, d) \<Rightarrow>
       (case read_ram s h of
          Some data \<Rightarrow> (Some data, d)
        | None \<Rightarrow>
            (case disk_read_lba s h of None \<Rightarrow> (None, d)
             | Some lba \<Rightarrow>
                 if \<not> present then (None, d)
                 else case read_page_from_device ops lba buf d of
                        (Inl _, d') \<Rightarrow> (None, d')
                      | (Inr data, d') \<Rightarrow> (Some data, d'))))"

definition allocate_disk ::
  "'d BlockDevice \<Rightarrow> bytes \<Rightarrow> SwapState \<times> 'd \<Rightarrow> Handle option \<times> SwapState \<times> 'd" where
  "allocate_disk ops data sd =
     (case sd of (s, d) \<Rightarrow>
       (case reserve_disk s of
          (None, s) \<Rightarrow> (None, s, d)
        | (Some (index, g, lba), s) \<Rightarrow>
            (let (wrote, d) = store_page ops True lba data d
             in if wrote then (let (r, s) = publish_reserved_disk index g s in (r, s, d))
                else (None, cancel_reserved index g s, d))))"

definition read_disk :: "'d BlockDevice \<Rightarrow> Handle \<Rightarrow> bytes \<Rightarrow> SwapState \<times> 'd \<Rightarrow> bytes option \<times> 'd" where
  "read_disk ops h buf sd =
     (case sd of (s, d) \<Rightarrow>
       (case disk_read_lba s h of None \<Rightarrow> (None, d)
        | Some lba \<Rightarrow>
            (case read_page_from_device ops lba buf d of
               (Inl _, d') \<Rightarrow> (None, d')
             | (Inr data, d') \<Rightarrow> (Some data, d'))))"

section \<open>Pages on a device\<close>

definition page_at :: "(u64 \<Rightarrow> bytes) \<Rightarrow> u64 \<Rightarrow> bytes" where
  "page_at sct lba = concat (map (\<lambda>k. sct (lba + word_of_nat k)) [0..<8])"

text \<open>The sectors of a page; \<open>fits\<close> says that their addresses do not wrap.\<close>

definition in_page :: "u64 \<Rightarrow> u64 \<Rightarrow> bool" where
  "in_page lba l \<longleftrightarrow> (\<exists>k<8. unat lba + k < 2 ^ 64 \<and> l = lba + word_of_nat k)"

definition page_fits :: "u64 \<Rightarrow> bool" where
  "page_fits lba \<longleftrightarrow> unat lba + 8 \<le> 2 ^ 64"

lemma SECTORS_PER_PAGE_8 [simp]: "SECTORS_PER_PAGE = 8"
  by (simp add: SECTORS_PER_PAGE_def SWAP_PAGE_SIZE_def SECTOR_SIZE_def)

lemma checked_add_of_nat:
  fixes a :: u64
  assumes "n < 2 ^ 64"
  shows "checked_add a (word_of_nat n) = (if unat a + n < 2 ^ 64 then Some (a + word_of_nat n) else None)"
  using assms by (simp add: checked_add_def unat_of_nat)

lemma add_of_nat_inj:
  fixes a :: u64
  assumes "a + word_of_nat j = a + word_of_nat k" "j < 2 ^ 64" "k < 2 ^ 64"
  shows "j = k"
proof -
  have "unat (word_of_nat j :: u64) = unat (word_of_nat k :: u64)" using assms(1) by simp
  with assms(2,3) show ?thesis by (simp add: unat_of_nat)
qed

lemma in_page_member: "page_fits lba \<Longrightarrow> k < 8 \<Longrightarrow> in_page lba (lba + word_of_nat k)"
  by (auto simp: in_page_def page_fits_def)

lemma page_at_cong: "(\<And>l. in_page lba l \<Longrightarrow> f l = g l) \<Longrightarrow> page_fits lba \<Longrightarrow> page_at f lba = page_at g lba"
  unfolding page_at_def by (intro arg_cong [where f = concat] map_cong) (simp_all add: in_page_member)

lemma page_slices:
  assumes "length data = 4096"
  shows "concat (map (\<lambda>k. slice data (k * 512) 512) [0..<8]) = data"
proof -
  have "[0..<8] = [0, 1, 2, 3, 4, 5, 6, 7 :: nat]" by (simp add: upt_rec)
  moreover have "slice data 0 512 @ slice data 512 512 @ slice data 1024 512 @ slice data 1536 512 @
      slice data 2048 512 @ slice data 2560 512 @ slice data 3072 512 @ slice data 3584 512 = slice data 0 4096"
    using slice_append_slice [of data 0 512 3584] slice_append_slice [of data 512 512 3072]
      slice_append_slice [of data 1024 512 2560] slice_append_slice [of data 1536 512 2048]
      slice_append_slice [of data 2048 512 1536] slice_append_slice [of data 2560 512 1024]
      slice_append_slice [of data 3072 512 512] by simp
  ultimately show ?thesis using assms by (simp add: slice_def)
qed

context block_device
begin

lemma write_page_loop_ok:
  assumes "inv d" "write_page_loop ops lba data ks d = (r, d')" "distinct ks" "set ks \<subseteq> {..<8}"
  shows "inv d' \<and> same_shape ops d d' \<and> (\<forall>l. \<not> in_page lba l \<longrightarrow> sector d' l = sector d l) \<and>
    (\<forall>k<8. k \<notin> set ks \<longrightarrow> sector d' (lba + word_of_nat k) = sector d (lba + word_of_nat k)) \<and>
    (\<forall>u. r = Inr u \<longrightarrow> (\<forall>k\<in>set ks. unat lba + k < 2 ^ 64 \<and>
       sector d' (lba + word_of_nat k) = slice data (k * 512) 512))"
  using assms
proof (induction ks arbitrary: d)
  case Nil
  then show ?case by simp
next
  case (Cons k ks)
  then have k: "k < 8" by simp
  show ?case
  proof (cases "unat lba + k < 2 ^ 64")
    case False
    with k have "checked_add lba (word_of_nat k) = None" by (simp add: checked_add_of_nat)
    with Cons.prems show ?thesis by auto
  next
    case True
    with k have ca: "checked_add lba (word_of_nat k) = Some (lba + word_of_nat k)" by (simp add: checked_add_of_nat)
    obtain q d1 where q: "dev_write ops d (lba + word_of_nat k) (slice data (k * 512) 512) = (q, d1)" by force
    from write_keeps [OF Cons.prems(1) q] have w: "inv d1" "same_shape ops d d1"
      "\<And>l. l \<noteq> lba + word_of_nat k \<Longrightarrow> sector d1 l = sector d l" by simp_all
    have inp: "in_page lba (lba + word_of_nat k)" using True k by (auto simp: in_page_def)
    have neq: "lba + word_of_nat j \<noteq> lba + word_of_nat k" if "j < 8" "j \<noteq> k" for j
      using add_of_nat_inj [of lba j k] that k by auto
    show ?thesis
    proof (cases q)
      case (Inl e)
      with Cons.prems(2) ca q have "d' = d1" "r = Inl e" by (simp_all add: thenS_def bindS_def SECTOR_SIZE_def)
      moreover have "sector d1 l = sector d l" if "\<not> in_page lba l" for l
        using w(3) [of l] inp that by auto
      ultimately show ?thesis using w neq by auto
    next
      case (Inr u)
      with Cons.prems(2) ca q have rest: "write_page_loop ops lba data ks d1 = (r, d')"
        by (simp add: thenS_def bindS_def SECTOR_SIZE_def)
      have ok: "sector d1 (lba + word_of_nat k) = slice data (k * 512) 512"
        using write_ok [OF Cons.prems(1)] q Inr by blast
      from Cons.IH [OF w(1) rest] Cons.prems(3,4)
      have IH: "inv d'" "same_shape ops d1 d'" "\<And>l. \<not> in_page lba l \<Longrightarrow> sector d' l = sector d1 l"
        "\<And>j. j < 8 \<Longrightarrow> j \<notin> set ks \<Longrightarrow> sector d' (lba + word_of_nat j) = sector d1 (lba + word_of_nat j)"
        "\<And>u. r = Inr u \<Longrightarrow> \<forall>j\<in>set ks. unat lba + j < 2 ^ 64 \<and>
          sector d' (lba + word_of_nat j) = slice data (j * 512) 512" by auto
      have "k \<notin> set ks" using Cons.prems(3) by simp
      from IH(4) [OF k this] ok have keep: "sector d' (lba + word_of_nat k) = slice data (k * 512) 512" by simp
      show ?thesis
      proof (intro conjI allI impI)
        show "inv d'" by (rule IH(1))
        show "same_shape ops d d'" by (rule same_shape_trans [OF w(2) IH(2)])
        show "sector d' l = sector d l" if l: "\<not> in_page lba l" for l
        proof -
          have "l \<noteq> lba + word_of_nat k" using l inp by auto
          with w(3) [of l] IH(3) [OF l] show ?thesis by simp
        qed
        show "sector d' (lba + word_of_nat j) = sector d (lba + word_of_nat j)" if "j < 8" "j \<notin> set (k # ks)" for j
          using IH(4) [of j] w(3) neq [of j] that by simp
        show "\<forall>j\<in>set (k # ks). unat lba + j < 2 ^ 64 \<and> sector d' (lba + word_of_nat j) = slice data (j * 512) 512"
          if "r = Inr u" for u using IH(5) [OF that] True keep by simp
      qed
    qed
  qed
qed

lemma write_page_ok:
  assumes "inv d" "length data = 4096" "write_page_to_device ops lba data d = (r, d')"
  shows "inv d'" "same_shape ops d d'" "\<not> in_page lba l \<Longrightarrow> sector d' l = sector d l"
    "r = Inr u \<Longrightarrow> page_fits lba \<and> page_at (sector d') lba = data"
proof -
  have loop: "write_page_loop ops lba data [0..<8] d = (r, d')" using assms(3) by (simp add: write_page_to_device_def)
  have "set [0..<8] \<subseteq> {..<8 :: nat}" by auto
  note ok = write_page_loop_ok [OF assms(1) loop distinct_upt this]
  then show "inv d'" "same_shape ops d d'" "\<not> in_page lba l \<Longrightarrow> sector d' l = sector d l" by blast+
  assume "r = Inr u"
  with ok have w: "\<forall>k\<in>set [0..<8]. unat lba + k < 2 ^ 64 \<and> sector d' (lba + word_of_nat k) = slice data (k * 512) 512"
    by blast
  have "page_at (sector d') lba = concat (map (\<lambda>k. slice data (k * 512) 512) [0..<8])"
    unfolding page_at_def using w by (intro arg_cong [where f = concat] map_cong) auto
  moreover have "page_fits lba" using w by (auto simp: page_fits_def dest: bspec [of _ _ 7])
  ultimately show "page_fits lba \<and> page_at (sector d') lba = data" using page_slices [OF assms(2)] by simp
qed

lemma read_part_ok:
  assumes "inv d" "read_part ops lba off data d = (r, d')"
  shows "inv d' \<and> same_shape ops d d' \<and> sector d' = sector d"
    "r = Inr out \<Longrightarrow> out = copy_at data off (sector d lba) \<and> length (sector d lba) = 512"
proof -
  obtain q buf' where q: "dev_read ops d lba (slice data off SECTOR_SIZE) = (q, buf', d')"
    using assms(2) by (auto simp: read_part_def split: prod.splits sum.splits)
  show "inv d' \<and> same_shape ops d d' \<and> sector d' = sector d" using read_keeps [OF assms(1) q] .
  assume "r = Inr out"
  with assms(2) q obtain u where "q = Inr u" "out = copy_at data off buf'"
    by (auto simp: read_part_def split: sum.splits)
  with read_ok [OF assms(1)] q sector_size [OF assms(1), of lba]
  show "out = copy_at data off (sector d lba) \<and> length (sector d lba) = 512"
    by (simp add: SECTOR_SIZE_def)
qed

lemma slice_copy_at_sector:
  assumes "length data = 4096" "length sec = 512" "j < 8" "k < 8"
  shows "slice (copy_at data (k * 512) sec) (j * 512) 512 = (if j = k then sec else slice data (j * 512) 512)"
proof (rule nth_equalityI)
  have b: "k * 512 + 512 \<le> 4096" "j * 512 + 512 \<le> 4096" using assms(3,4) by auto
  show "length (slice (copy_at data (k * 512) sec) (j * 512) 512) =
      length (if j = k then sec else slice data (j * 512) 512)"
    using assms(1,2) b by simp
  fix i assume "i < length (slice (copy_at data (k * 512) sec) (j * 512) 512)"
  then have i: "i < 512" using assms(1,2) b by simp
  have "k * 512 \<le> j * 512 + i \<and> j * 512 + i < k * 512 + 512 \<longleftrightarrow> j = k" using i by linarith
  then show "slice (copy_at data (k * 512) sec) (j * 512) 512 ! i =
      (if j = k then sec else slice data (j * 512) 512) ! i"
    using i assms(1,2) b by (auto simp: slice_def nth_copy_at)
qed

lemma read_page_loop_ok:
  assumes "inv d" "read_page_loop ops lba data ks d = (r, d')" "length data = 4096" "set ks \<subseteq> {..<8}"
  shows "inv d' \<and> same_shape ops d d' \<and> sector d' = sector d \<and>
    (\<forall>out. r = Inr out \<longrightarrow> length out = 4096 \<and>
       (\<forall>j<8. slice out (j * 512) 512 = (if j \<in> set ks then sector d (lba + word_of_nat j) else slice data (j * 512) 512)))"
  using assms
proof (induction ks arbitrary: d data)
  case Nil
  then show ?case by auto
next
  case (Cons k ks)
  then have k: "k < 8" "set ks \<subseteq> {..<8}" by auto
  show ?case
  proof (cases "unat lba + k < 2 ^ 64")
    case False
    with k have "checked_add lba (word_of_nat k) = None" by (simp add: checked_add_of_nat)
    with Cons.prems show ?thesis by auto
  next
    case True
    with k have ca: "checked_add lba (word_of_nat k) = Some (lba + word_of_nat k)" by (simp add: checked_add_of_nat)
    obtain q d1 where q: "read_part ops (lba + word_of_nat k) (k * 512) data d = (q, d1)" by force
    note part = read_part_ok [OF Cons.prems(1) q]
    show ?thesis
    proof (cases q)
      case (Inl e)
      with Cons.prems(2) ca q part(1) show ?thesis by (auto simp: bindS_def SECTOR_SIZE_def)
    next
      case (Inr dat)
      with Cons.prems(2) ca q have rest: "read_page_loop ops lba dat ks d1 = (r, d')"
        by (simp add: bindS_def SECTOR_SIZE_def)
      have dat: "dat = copy_at data (k * 512) (sector d (lba + word_of_nat k))" "length (sector d (lba + word_of_nat k)) = 512"
        using part(2) Inr by auto
      have "length dat = 4096" using dat Cons.prems(3) k by simp
      note IH = Cons.IH [OF _ rest this k(2)]
      have sl: "slice dat (j * 512) 512 = (if j = k then sector d (lba + word_of_nat k) else slice data (j * 512) 512)"
        if "j < 8" for j using slice_copy_at_sector [OF Cons.prems(3) dat(2) that k(1)] dat(1) by simp
      from IH part(1) sl show ?thesis using same_shape_trans by auto
    qed
  qed
qed

lemma read_page_ok:
  assumes "inv d" "length buf = 4096" "read_page_from_device ops lba buf d = (r, d')"
  shows "inv d'" "sector d' = sector d" "r = Inr out \<Longrightarrow> out = page_at (sector d) lba"
proof -
  have "set [0..<8] \<subseteq> {..<8 :: nat}" by auto
  note ok = read_page_loop_ok [OF assms(1) _ assms(2) this, of lba r d'] assms(3)
  then show "inv d'" "sector d' = sector d" by (simp_all add: read_page_from_device_def)
  assume "r = Inr out"
  with ok have "length out = 4096" "\<forall>j<8. slice out (j * 512) 512 = sector d (lba + word_of_nat j)"
    by (simp_all add: read_page_from_device_def)
  then show "out = page_at (sector d) lba"
    using page_slices [of out] unfolding page_at_def by (metis (mono_tags, lifting) atLeastLessThan_iff map_eq_conv set_upt)
qed

end

section \<open>Handles as references to pages\<close>

text \<open>The page a slot holds, and the pages and reference counts the handles of a state name.\<close>

definition slot_page :: "(u64 \<Rightarrow> bytes) \<Rightarrow> SwapState \<Rightarrow> nat \<Rightarrow> Slot \<Rightarrow> bytes" where
  "slot_page sct s i sl =
     (case backing sl of Ram \<Rightarrow> sl_data sl
      | Disk \<Rightarrow> (case disk_lba s i of None \<Rightarrow> [] | Some lba \<Rightarrow> page_at sct lba))"

definition swap_view :: "(u64 \<Rightarrow> bytes) \<Rightarrow> SwapState \<Rightarrow> Handle \<Rightarrow> (bytes \<times> nat) option" where
  "swap_view sct s h =
     (case swap_get s h of None \<Rightarrow> None
      | Some sl \<Rightarrow> Some (slot_page sct s (handle_index h) sl, unat (refcount sl)))"

lemma disk_lba_set [simp]: "disk_lba (set_slot i sl s) = disk_lba s"
  by (simp add: disk_lba_def set_slot_def fun_eq_iff)

lemma slot_page_set [simp]: "slot_page sct (set_slot i sl s) = slot_page sct s"
  unfolding slot_page_def disk_lba_set ..

lemma length_set_slot [simp]: "length (sw_slots (set_slot i sl s)) = length (sw_slots s)"
  by (simp add: set_slot_def)

lemma slots_set_slot: "sw_slots (set_slot i sl s) = (sw_slots s)[i := sl]"
  by (simp add: set_slot_def)

lemma swap_get_set:
  assumes "i < length (sw_slots s)"
  shows "swap_get (set_slot i sl s) h =
    (if handle_index h = i then if slot_live sl \<and> generation sl = h_generation h then Some sl else None
     else swap_get s h)"
  using assms by (auto simp: swap_get_def slots_set_slot slot_live_def Let_def)

lemma swap_get_at:
  "swap_get s h = Some sl \<longleftrightarrow> handle_index h < length (sw_slots s) \<and> sl = sw_slots s ! handle_index h \<and>
     slot_live sl \<and> generation sl = h_generation h"
  by (auto simp: swap_get_def slot_live_def Let_def)

lemma swap_view_set:
  assumes "i < length (sw_slots s)"
  shows "swap_view sct (set_slot i sl s) h =
    (if handle_index h = i
     then if slot_live sl \<and> generation sl = h_generation h then Some (slot_page sct s i sl, unat (refcount sl)) else None
     else swap_view sct s h)"
  using assms by (auto simp: swap_view_def swap_get_set split: option.splits)

text \<open>The handle of slot \<open>i\<close> at a generation.\<close>

abbreviation handle_of :: "nat \<Rightarrow> u16 \<Rightarrow> Handle" where
  "handle_of i g \<equiv> \<lparr>h_index = word_of_nat i, h_generation = g\<rparr>"

lemma handle_eq: "i < 32 \<Longrightarrow> h = handle_of i g \<longleftrightarrow> handle_index h = i \<and> h_generation h = g"
proof -
  assume "i < 32"
  then have "unat (word_of_nat i :: u16) = i" by (simp add: unat_of_nat)
  then have "h_index h = word_of_nat i \<longleftrightarrow> unat (h_index h) = i" by (metis word_unat_eq_iff)
  then show ?thesis by (cases h) (simp add: handle_index_def)
qed

text \<open>
  Histories of the swap state \<open>s\<close> over a disk \<open>d\<close>, with the map \<open>G\<close> from handles to the page they
  were given for and their number of references, and the reservations \<open>R\<close> in flight: slot,
  generation, address and, once it has been stored and flushed, the page. Other users of the disk
  may change every sector outside the configured region at any time.
\<close>

definition swap_region :: "SwapState \<Rightarrow> u64 \<Rightarrow> bool" where
  "swap_region s l \<longleftrightarrow> (\<exists>i lba. disk_lba s i = Some lba \<and> in_page lba l)"

inductive swap_history ::
  "'d BlockDevice \<Rightarrow> ('d \<Rightarrow> bool) \<Rightarrow> ('d \<Rightarrow> u64 \<Rightarrow> bytes) \<Rightarrow> SwapState \<Rightarrow> 'd \<Rightarrow>
   (Handle \<Rightarrow> (bytes \<times> nat) option) \<Rightarrow> (nat \<Rightarrow> (u16 \<times> u64 \<times> bytes option) option) \<Rightarrow> bool"
  for ops I sct where
  boot: "I d \<Longrightarrow> swap_history ops I sct swap_new d Map.empty Map.empty"
| configure: "swap_history ops I sct s d G Map.empty \<Longrightarrow> configure_disk start n s = (r, s') \<Longrightarrow>
    swap_history ops I sct s' d G Map.empty"
| reserve: "swap_history ops I sct s d G R \<Longrightarrow> reserve_disk s = (Some (i, g, lba), s') \<Longrightarrow>
    swap_history ops I sct s' d G (R(i \<mapsto> (g, lba, None)))"
| store: "swap_history ops I sct s d G R \<Longrightarrow> R i = Some (g, lba, x) \<Longrightarrow> length data = SWAP_PAGE_SIZE \<Longrightarrow>
    store_page ops present lba data d = (ok, d') \<Longrightarrow>
    swap_history ops I sct s d' G (R(i \<mapsto> (g, lba, if ok then Some data else None)))"
| publish: "swap_history ops I sct s d G R \<Longrightarrow> R i = Some (g, lba, Some data) \<Longrightarrow>
    publish_reserved_disk i g s = (Some h, s') \<Longrightarrow>
    swap_history ops I sct s' d (G(h \<mapsto> (data, 1))) (R(i := None))"
| cancel: "swap_history ops I sct s d G R \<Longrightarrow> R i = Some (g, lba, x) \<Longrightarrow>
    swap_history ops I sct (cancel_reserved i g s) d G (R(i := None))"
| ram: "swap_history ops I sct s d G R \<Longrightarrow> length data = SWAP_PAGE_SIZE \<Longrightarrow> allocate_ram data s = (Some h, s') \<Longrightarrow>
    swap_history ops I sct s' d (G(h \<mapsto> (data, 1))) R"
| share: "swap_history ops I sct s d G R \<Longrightarrow> share h s = (True, s') \<Longrightarrow>
    swap_history ops I sct s' d (G(h := map_option (\<lambda>(pg, n). (pg, n + 1)) (G h))) R"
| release: "swap_history ops I sct s d G R \<Longrightarrow> release h s = (True, s') \<Longrightarrow>
    swap_history ops I sct s' d
      (G(h := (case G h of Some (pg, n) \<Rightarrow> if n = 1 then None else Some (pg, n - 1) | None \<Rightarrow> None))) R"
| other: "swap_history ops I sct s d G R \<Longrightarrow> I d' \<Longrightarrow> (\<And>l. swap_region s l \<Longrightarrow> sct d' l = sct d l) \<Longrightarrow>
    swap_history ops I sct s d' G R"

definition reservation_ok ::
  "(u64 \<Rightarrow> bytes) \<Rightarrow> SwapState \<Rightarrow> nat \<Rightarrow> u16 \<times> u64 \<times> bytes option \<Rightarrow> bool" where
  "reservation_ok sct s i r \<longleftrightarrow>
     (case r of (g, lba, x) \<Rightarrow> i < 32 \<and> sl_occupied (sw_slots s ! i) \<and> refcount (sw_slots s ! i) = 0 \<and>
        generation (sw_slots s ! i) = g \<and> disk_lba s i = Some lba \<and>
        (\<forall>pg. x = Some pg \<longrightarrow> page_fits lba \<and> page_at sct lba = pg))"

definition slot_stored :: "SwapState \<Rightarrow> nat \<Rightarrow> bool" where
  "slot_stored s i \<longleftrightarrow> (slot_live (sw_slots s ! i) \<longrightarrow> backing (sw_slots s ! i) = Disk \<longrightarrow>
     (\<exists>lba. disk_lba s i = Some lba \<and> page_fits lba))"

definition swap_inv where
  "swap_inv I sct s d G R \<longleftrightarrow> I d \<and> length (sw_slots s) = 32 \<and> G = swap_view (sct d) s \<and>
     (\<forall>i<32. slot_stored s i) \<and> (\<forall>i r. R i = Some r \<longrightarrow> reservation_ok (sct d) s i r)"

lemma swap_inv_res: "swap_inv I sct s d G R \<Longrightarrow> R i = Some r \<Longrightarrow> reservation_ok (sct d) s i r"
  unfolding swap_inv_def by blast

lemma swap_invD:
  assumes "swap_inv I sct s d G R"
  shows "I d" "length (sw_slots s) = 32" "G = swap_view (sct d) s" "i < 32 \<Longrightarrow> slot_stored s i"
  using assms unfolding swap_inv_def by blast+

lemma swap_invI:
  assumes "I d" "length (sw_slots s) = 32" "G = swap_view (sct d) s" "\<And>i. i < 32 \<Longrightarrow> slot_stored s i"
    "\<And>i r. R i = Some r \<Longrightarrow> reservation_ok (sct d) s i r"
  shows "swap_inv I sct s d G R"
  using assms unfolding swap_inv_def by blast

lemma disk_lba_eq:
  assumes "disk_lba s i = Some lba" "i < 32"
  obtains disk where "sw_disk s = Some disk" "unat lba = unat (db_start_lba disk) + i * 8"
proof -
  obtain disk off where "sw_disk s = Some disk" "checked_mul (word_of_nat i) (8 :: u64) = Some off"
      "checked_add (db_start_lba disk) off = Some lba"
    using assms(1) by (auto simp: disk_lba_def split: option.splits if_splits)
  with checked_mul_Some [of "word_of_nat i :: u64" 8 off] checked_add_Some [of "db_start_lba disk" off lba] assms(2)
  show thesis by (intro that) (simp_all add: unat_of_nat)
qed

lemma pages_disjoint:
  assumes "disk_lba s i = Some a" "disk_lba s j = Some b" "i < 32" "j < 32" "i \<noteq> j"
  shows "\<not> (in_page a l \<and> in_page b l)"
proof
  assume "in_page a l \<and> in_page b l"
  then obtain m n where m: "m < 8" "unat a + m < 2 ^ 64" "l = a + word_of_nat m"
    and n: "n < 8" "unat b + n < 2 ^ 64" "l = b + word_of_nat n" by (auto simp: in_page_def)
  have "unat l = unat a + m" "unat l = unat b + n"
    unfolding m(3) [symmetric] using unat_add_of_nat [OF m(2)] unat_add_of_nat [OF n(2)] m(3) n(3) by simp_all
  moreover obtain disk where "sw_disk s = Some disk" "unat a = unat (db_start_lba disk) + i * 8"
    by (rule disk_lba_eq [OF assms(1,3)])
  moreover obtain disk' where "sw_disk s = Some disk'" "unat b = unat (db_start_lba disk') + j * 8"
    by (rule disk_lba_eq [OF assms(2,4)])
  ultimately have "i * 8 + m = j * 8 + n" by simp
  with m(1) n(1) assms(5) show False by linarith
qed

lemma swap_free_slotD: "swap_free_slot s = Some i \<Longrightarrow> i < length (sw_slots s) \<and> \<not> sl_occupied (sw_slots s ! i)"
  using position_SomeD unfolding swap_free_slot_def by blast

text \<open>Rewriting one slot.\<close>

lemma swap_inv_set:
  assumes inv: "swap_inv I sct s d G R" and i: "i < 32"
    and stored: "slot_live sl \<Longrightarrow> backing sl = Disk \<Longrightarrow> \<exists>lba. disk_lba s i = Some lba \<and> page_fits lba"
    and other: "\<And>j. j \<noteq> i \<Longrightarrow> R' j = R j"
    and here: "\<And>r. R' i = Some r \<Longrightarrow> reservation_ok (sct d) (set_slot i sl s) i r"
    and view: "G' = swap_view (sct d) (set_slot i sl s)"
  shows "swap_inv I sct (set_slot i sl s) d G' R'"
proof -
  note len = swap_invD(2) [OF inv]
  have same: "sw_slots (set_slot i sl s) ! j = sw_slots s ! j" if "j \<noteq> i" for j
    using that by (simp add: slots_set_slot)
  have "slot_stored (set_slot i sl s) j" if "j < 32" for j
  proof (cases "j = i")
    case True
    then show ?thesis using stored i len by (simp add: slot_stored_def slots_set_slot)
  next
    case False
    with swap_invD(4) [OF inv that] same show ?thesis by (simp add: slot_stored_def)
  qed
  moreover have "reservation_ok (sct d) (set_slot i sl s) j r" if "R' j = Some r" for j r
  proof (cases "j = i")
    case False
    with that other swap_inv_res [OF inv] have "reservation_ok (sct d) s j r" by simp
    with False same show ?thesis by (simp add: reservation_ok_def split: prod.splits)
  qed (use here that in simp)
  ultimately show ?thesis using swap_invD(1) [OF inv] view len by (intro swap_invI) simp_all
qed

text \<open>A slot that is live neither before nor after is invisible.\<close>

lemma swap_view_dead:
  assumes "i < length (sw_slots s)" "\<not> slot_live (sw_slots s ! i)" "\<not> slot_live sl"
  shows "swap_view sct (set_slot i sl s) = swap_view sct s"
proof
  fix h
  have "swap_view sct s h = None" if "handle_index h = i"
    using that assms(2) by (auto simp: swap_view_def swap_get_def slot_live_def Let_def)
  then show "swap_view sct (set_slot i sl s) h = swap_view sct s h"
    using assms by (simp add: swap_view_set)
qed

lemma swap_view_born:
  assumes "i < length (sw_slots s)" "length (sw_slots s) = 32" "\<not> slot_live (sw_slots s ! i)" "slot_live sl"
  shows "swap_view sct (set_slot i sl s) =
    (swap_view sct s)(handle_of i (generation sl) \<mapsto> (slot_page sct s i sl, unat (refcount sl)))"
    and "swap_view sct s (handle_of i g) = None"
proof -
  have dead: "swap_view sct s h = None" if "handle_index h = i" for h
    using that assms(3) by (auto simp: swap_view_def swap_get_def slot_live_def Let_def)
  have i: "i < 32" using assms by simp
  have "handle_index (handle_of i g) = i" using handle_eq [OF i, of "handle_of i g" g] by simp
  with dead show "swap_view sct s (handle_of i g) = None" by simp
  show "swap_view sct (set_slot i sl s) =
    (swap_view sct s)(handle_of i (generation sl) \<mapsto> (slot_page sct s i sl, unat (refcount sl)))"
  proof
    fix h
    show "swap_view sct (set_slot i sl s) h =
      ((swap_view sct s)(handle_of i (generation sl) \<mapsto> (slot_page sct s i sl, unat (refcount sl)))) h"
      using handle_eq [OF i, of h "generation sl"] dead [of h] assms(1,4) by (auto simp: swap_view_set)
  qed
qed

lemma swap_view_changed:
  assumes "length (sw_slots s) = 32" "swap_get s h = Some old" "generation sl = generation old"
    "slot_live sl" "slot_page sct s (handle_index h) sl = slot_page sct s (handle_index h) old"
  shows "swap_view sct (set_slot (handle_index h) sl s) =
    (swap_view sct s)(h \<mapsto> (slot_page sct s (handle_index h) old, unat (refcount sl)))"
proof
  fix k
  have h: "handle_index h < length (sw_slots s)" "old = sw_slots s ! handle_index h" "generation old = h_generation h"
    using assms(2) by (auto simp: swap_get_at)
  have "k = h \<longleftrightarrow> handle_index k = handle_index h \<and> h_generation k = h_generation h"
    using handle_eq [of "handle_index h" k "h_generation h"] handle_eq [of "handle_index h" h "h_generation h"] h assms(1)
    by auto
  moreover have "swap_view sct s k = None" if "handle_index k = handle_index h" "h_generation k \<noteq> h_generation h"
    using that h by (auto simp: swap_view_def swap_get_def Let_def)
  ultimately show "swap_view sct (set_slot (handle_index h) sl s) k =
    ((swap_view sct s)(h \<mapsto> (slot_page sct s (handle_index h) old, unat (refcount sl)))) k"
    using h assms(3-5) by (auto simp: swap_view_set)
qed

lemma swap_view_killed:
  assumes "length (sw_slots s) = 32" "swap_get s h = Some old" "\<not> slot_live sl"
  shows "swap_view sct (set_slot (handle_index h) sl s) = (swap_view sct s)(h := None)"
proof
  fix k
  have h: "handle_index h < length (sw_slots s)" "old = sw_slots s ! handle_index h" "generation old = h_generation h"
    using assms(2) by (auto simp: swap_get_at)
  have "k = h \<longleftrightarrow> handle_index k = handle_index h \<and> h_generation k = h_generation h"
    using handle_eq [of "handle_index h" k "h_generation h"] handle_eq [of "handle_index h" h "h_generation h"] h assms(1)
    by auto
  moreover have "swap_view sct s k = None" if "handle_index k = handle_index h" "h_generation k \<noteq> h_generation h"
    using that h by (auto simp: swap_view_def swap_get_def Let_def)
  ultimately show "swap_view sct (set_slot (handle_index h) sl s) k = ((swap_view sct s)(h := None)) k"
    using h assms(3) by (auto simp: swap_view_set)
qed

text \<open>Changing the disk outside the stored pages.\<close>

lemma swap_inv_disk:
  assumes inv: "swap_inv I sct s d G R" and d': "I d'"
    and live: "\<And>j lba. j < 32 \<Longrightarrow> disk_lba s j = Some lba \<Longrightarrow> page_fits lba \<Longrightarrow> R j = None \<Longrightarrow>
      page_at (sct d') lba = page_at (sct d) lba"
    and res: "\<And>j r. R' j = Some r \<Longrightarrow> reservation_ok (sct d') s j r"
  shows "swap_inv I sct s d' G R'"
proof -
  have dead: "R j = None" if "j < 32" "slot_live (sw_slots s ! j)" for j
  proof (rule ccontr)
    assume "R j \<noteq> None"
    then obtain r where "reservation_ok (sct d) s j r" using swap_inv_res [OF inv] by blast
    with that(2) show False by (auto simp: reservation_ok_def slot_live_def split: prod.splits)
  qed
  have "swap_view (sct d') s h = swap_view (sct d) s h" for h
  proof (cases "swap_get s h")
    case None
    then show ?thesis by (simp add: swap_view_def)
  next
    case (Some sl)
    then have h: "handle_index h < 32" "sl = sw_slots s ! handle_index h" "slot_live sl"
      using swap_invD(2) [OF inv] by (auto simp: swap_get_at)
    have "slot_page (sct d') s (handle_index h) sl = slot_page (sct d) s (handle_index h) sl"
    proof (cases "backing sl")
      case Disk
      then obtain lba where "disk_lba s (handle_index h) = Some lba" "page_fits lba"
        using swap_invD(4) [OF inv h(1)] h by (auto simp: slot_stored_def)
      with live [OF h(1) this] dead [OF h(1)] h Disk show ?thesis by (simp add: slot_page_def)
    qed (simp add: slot_page_def)
    with Some show ?thesis by (simp add: swap_view_def)
  qed
  then have "swap_view (sct d') s = swap_view (sct d) s" by (rule ext)
  with swap_invD [OF inv] d' res show ?thesis by (intro swap_invI) simp_all
qed

lemma store_page_ok:
  assumes dev: "block_device ops I sct" and d: "I d" "length data = 4096"
    and st: "store_page ops present lba data d = (ok, d')"
  shows "I d'" "\<not> in_page lba l \<Longrightarrow> sct d' l = sct d l"
    "ok \<Longrightarrow> page_fits lba \<and> page_at (sct d') lba = data"
proof -
  show "I d'" "\<not> in_page lba l \<Longrightarrow> sct d' l = sct d l" "ok \<Longrightarrow> page_fits lba \<and> page_at (sct d') lba = data"
  proof (atomize (full), cases present)
    case False
    with st d(1) show "I d' \<and> (\<not> in_page lba l \<longrightarrow> sct d' l = sct d l) \<and> (ok \<longrightarrow> page_fits lba \<and> page_at (sct d') lba = data)"
      by (simp add: store_page_def)
  next
    case True
    obtain r d1 where w: "write_page_to_device ops lba data d = (r, d1)" by force
    note wp = block_device.write_page_ok [OF dev d w]
    obtain q d2 where f: "dev_flush ops d1 = (q, d2)" by force
    note fl = block_device.flush_keeps [OF dev wp(1) f]
    show "I d' \<and> (\<not> in_page lba l \<longrightarrow> sct d' l = sct d l) \<and> (ok \<longrightarrow> page_fits lba \<and> page_at (sct d') lba = data)"
      using st True w f wp fl by (cases r; cases q) (auto simp: store_page_def)
  qed
qed

lemma view_get:
  "swap_get s h = Some sl \<Longrightarrow> swap_view sct s h = Some (slot_page sct s (handle_index h) sl, unat (refcount sl))"
  by (simp add: swap_view_def)

lemma swap_inv_configure:
  assumes inv0: "swap_inv I sct s d G Map.empty"
    and prem: "configure_disk start n s = (r, s')"
  shows "swap_inv I sct s' d G Map.empty"
proof -
  note inv = swap_invD [OF inv0]
  show ?thesis
  proof (cases "s' = s")
    case False
    with prem have used: "swap_used s = 0" and slots: "sw_slots s' = sw_slots s"
      by (auto simp: configure_disk_def Let_def split: if_splits)
    then have dead: "\<not> slot_live sl" if "sl \<in> set (sw_slots s)" for sl
      using that by (auto simp: swap_used_def filter_empty_conv)
    then have none: "swap_view f t = Map.empty" if "sw_slots t = sw_slots s" for f t
      using that nth_mem by (intro ext) (auto simp: swap_view_def swap_get_at not_None_eq split: option.splits)
    have "G = swap_view (sct d) s'" using inv(3) none [of s] none [of s'] slots by simp
    moreover have "slot_stored s' i" if "i < 32" for i
      using dead [of "sw_slots s ! i"] that inv(2) slots by (simp add: slot_stored_def)
    ultimately show ?thesis using inv slots by (intro swap_invI) simp_all
  qed (use inv0 in simp)
qed

lemma swap_inv_reserve:
  assumes inv0: "swap_inv I sct s d G R"
    and prem: "reserve_disk s = (Some (i, g, lba), s')"
  shows "swap_inv I sct s' d G (R(i \<mapsto> (g, lba, None)))"
proof -
  define sl where "sl = (slot_clear (sw_slots s ! i))\<lparr>generation := g, sl_occupied := True, refcount := 0, backing := Disk\<rparr>"
  have i: "swap_free_slot s = Some i" "disk_lba s i = Some lba" "s' = set_slot i sl s"
    using prem by (auto simp: reserve_disk_def sl_def Let_def split: option.splits)
  note fr = swap_free_slotD [OF i(1)] and inv = swap_invD [OF inv0]
  have dead: "\<not> slot_live (sw_slots s ! i)" "\<not> slot_live sl" using fr by (simp_all add: slot_live_def sl_def)
  show ?thesis unfolding i(3)
  proof (rule swap_inv_set [OF inv0])
    show "reservation_ok (sct d) (set_slot i sl s) i r" if "(R(i \<mapsto> (g, lba, None))) i = Some r" for r
      using that fr inv(2) i(2) by (auto simp: reservation_ok_def slots_set_slot sl_def)
    show "G = swap_view (sct d) (set_slot i sl s)" using swap_view_dead [OF _ dead] fr inv(3) by simp
  qed (use fr inv(2) dead in auto)
qed

lemma swap_inv_store:
  assumes dev: "block_device ops I sct" and inv0: "swap_inv I sct s d G R"
    and prem: "R i = Some (g, lba, x)" "length data = SWAP_PAGE_SIZE" "store_page ops present lba data d = (ok, d')"
  shows "swap_inv I sct s d' G (R(i \<mapsto> (g, lba, if ok then Some data else None)))"
proof -
  note inv = swap_invD [OF inv0] and res = swap_inv_res [OF inv0]
  have data: "length data = 4096" using prem by (simp add: SWAP_PAGE_SIZE_def)
  note st = store_page_ok [OF dev inv(1) data prem(3)]
  have i: "i < 32" "disk_lba s i = Some lba" using res [OF prem(1)] by (simp_all add: reservation_ok_def)
  have keep: "page_at (sct d') b = page_at (sct d) b" if "j < 32" "j \<noteq> i" "disk_lba s j = Some b" "page_fits b" for j b
    using page_at_cong [of b "sct d'" "sct d"] that st(2) pages_disjoint [OF that(3) i(2) that(1) i(1) that(2)] by blast
  show ?thesis
  proof (rule swap_inv_disk [OF inv0 st(1)])
    show "page_at (sct d') b = page_at (sct d) b" if "j < 32" "disk_lba s j = Some b" "page_fits b" "R j = None" for j b
      using keep [of j b] that prem(1) by (cases "j = i") auto
    show "reservation_ok (sct d') s j r" if r: "(R(i \<mapsto> (g, lba, if ok then Some data else None))) j = Some r" for j r
    proof (cases "j = i")
      case True
      then show ?thesis using r res [OF prem(1)] st(3) by (auto simp: reservation_ok_def split: if_splits)
    next
      case False
      then have "reservation_ok (sct d) s j r" using r res by simp
      with keep False show ?thesis by (auto simp: reservation_ok_def split: prod.splits)
    qed
  qed
qed

lemma swap_inv_publish:
  assumes inv0: "swap_inv I sct s d G R"
    and prem: "R i = Some (g, lba, Some data)" "publish_reserved_disk i g s = (Some h, s')"
  shows "swap_inv I sct s' d (G(h \<mapsto> (data, 1))) (R(i := None))"
proof -
  note inv = swap_invD [OF inv0]
  have res: "i < 32" "refcount (sw_slots s ! i) = 0" "generation (sw_slots s ! i) = g" "disk_lba s i = Some lba"
    "page_fits lba" "page_at (sct d) lba = data" "sl_occupied (sw_slots s ! i)"
    using swap_inv_res [OF inv0 prem(1)] by (simp_all add: reservation_ok_def)
  define sl where "sl = (sw_slots s ! i)\<lparr>refcount := 1, backing := Disk\<rparr>"
  have h: "h = handle_of i g" "s' = set_slot i sl s"
    using prem(2) by (auto simp: publish_reserved_disk_def sl_def Let_def split: if_splits)
  have live: "\<not> slot_live (sw_slots s ! i)" "slot_live sl" "generation sl = g" using res by (simp_all add: slot_live_def sl_def)
  have pg: "slot_page (sct d) s i sl = data" "unat (refcount sl) = 1" using res by (simp_all add: slot_page_def sl_def)
  show ?thesis unfolding h(2)
  proof (rule swap_inv_set [OF inv0 res(1)])
    show "G(h \<mapsto> (data, 1)) = swap_view (sct d) (set_slot i sl s)"
      using swap_view_born(1) [OF _ inv(2) live(1,2), of "sct d"] res(1) inv(2,3) live(3) pg h(1) by simp
  qed (use res in auto)
qed

lemma swap_inv_cancel:
  assumes inv0: "swap_inv I sct s d G R"
    and prem: "R i = Some (g, lba, x)"
  shows "swap_inv I sct (cancel_reserved i g s) d G (R(i := None))"
proof -
  note inv = swap_invD [OF inv0]
  have res: "i < 32" "refcount (sw_slots s ! i) = 0" "generation (sw_slots s ! i) = g" "sl_occupied (sw_slots s ! i)"
    using swap_inv_res [OF inv0 prem] by (simp_all add: reservation_ok_def)
  have c: "cancel_reserved i g s = set_slot i (slot_clear (sw_slots s ! i)) s"
    using res inv(2) by (simp add: cancel_reserved_def)
  have dead: "\<not> slot_live (sw_slots s ! i)" "\<not> slot_live (slot_clear (sw_slots s ! i))"
    using res by (simp_all add: slot_live_def slot_clear_def slot_empty_def)
  show ?thesis unfolding c
  proof (rule swap_inv_set [OF inv0 res(1)])
    show "G = swap_view (sct d) (set_slot i (slot_clear (sw_slots s ! i)) s)"
      using swap_view_dead [OF _ dead] res(1) inv(2,3) by simp
  qed (use dead in auto)
qed

lemma swap_inv_ram:
  assumes inv0: "swap_inv I sct s d G R"
    and prem: "length data = SWAP_PAGE_SIZE" "allocate_ram data s = (Some h, s')"
  shows "swap_inv I sct s' d (G(h \<mapsto> (data, 1))) R"
proof -
  note inv = swap_invD [OF inv0]
  obtain i where i: "swap_free_slot s = Some i" using prem by (auto simp: allocate_ram_def split: option.splits)
  define sl where "sl = (slot_clear (sw_slots s ! i))\<lparr>sl_data := data, generation := next_generation s i, refcount := 1,
    sl_occupied := True, backing := Ram\<rparr>"
  have h: "h = handle_of i (next_generation s i)" "s' = set_slot i sl s"
    using prem i by (auto simp: allocate_ram_def occupy_def sl_def Let_def)
  note fr = swap_free_slotD [OF i]
  have live: "\<not> slot_live (sw_slots s ! i)" "slot_live sl" using fr by (simp_all add: slot_live_def sl_def)
  have pg: "slot_page (sct d) s i sl = data" "unat (refcount sl) = 1" "generation sl = next_generation s i"
    by (simp_all add: slot_page_def sl_def)
  have none: "R i = None"
    using swap_inv_res [OF inv0, of i] fr by (cases "R i") (auto simp: reservation_ok_def)
  show ?thesis unfolding h(2)
  proof (rule swap_inv_set [OF inv0])
    show "G(h \<mapsto> (data, 1)) = swap_view (sct d) (set_slot i sl s)"
      using swap_view_born(1) [OF _ inv(2) live, of "sct d"] fr inv(3) pg h(1) by simp
  qed (use fr inv(2) none in \<open>auto simp: sl_def\<close>)
qed

lemma swap_inv_share:
  assumes inv0: "swap_inv I sct s d G R"
    and prem: "share h s = (True, s')"
  shows "swap_inv I sct s' d (G(h := map_option (\<lambda>(pg, n). (pg, n + 1)) (G h))) R"
proof -
  note inv = swap_invD [OF inv0]
  obtain sl n where sl: "swap_get s h = Some sl" "checked_add (refcount sl) 1 = Some n"
    "s' = set_slot (handle_index h) (sl\<lparr>refcount := n\<rparr>) s"
    using prem by (auto simp: share_def split: option.splits)
  have at: "handle_index h < 32" "sl = sw_slots s ! handle_index h" "slot_live sl"
    using sl(1) inv(2) by (auto simp: swap_get_at)
  have n: "unat n = unat (refcount sl) + 1" using checked_add_Some [OF sl(2)] by simp
  then have live: "slot_live (sl\<lparr>refcount := n\<rparr>)" using at(3) by (auto simp: slot_live_def word_less_nat_alt)
  have pg: "slot_page (sct d) s (handle_index h) (sl\<lparr>refcount := n\<rparr>) = slot_page (sct d) s (handle_index h) sl"
    by (simp add: slot_page_def split: Backing.split)
  have none: "R (handle_index h) = None"
    using swap_inv_res [OF inv0, of "handle_index h"] at
    by (cases "R (handle_index h)") (auto simp: reservation_ok_def slot_live_def)
  show ?thesis unfolding sl(3)
  proof (rule swap_inv_set [OF inv0 at(1)])
    show "G(h := map_option (\<lambda>(pg, n). (pg, n + 1)) (G h)) =
        swap_view (sct d) (set_slot (handle_index h) (sl\<lparr>refcount := n\<rparr>) s)"
      using swap_view_changed [OF inv(2) sl(1) _ live pg] view_get [OF sl(1), of "sct d"] inv(3) n by simp
  qed (use swap_invD(4) [OF inv0 at(1)] at none in \<open>auto simp: slot_stored_def slot_live_def\<close>)
qed

lemma swap_inv_release:
  assumes inv0: "swap_inv I sct s d G R"
    and prem: "release h s = (True, s')"
  shows "swap_inv I sct s' d
      (G(h := (case G h of Some (pg, n) \<Rightarrow> if n = 1 then None else Some (pg, n - 1) | None \<Rightarrow> None))) R"
proof -
  note inv = swap_invD [OF inv0]
  obtain sl where sl: "swap_get s h = Some sl" using prem by (auto simp: release_def split: option.splits)
  have at: "handle_index h < 32" "sl = sw_slots s ! handle_index h" "slot_live sl"
    using sl inv(2) by (auto simp: swap_get_at)
  define m where "m = saturating_sub (refcount sl) 1"
  have m: "unat m = unat (refcount sl) - 1" by (simp add: m_def unat_saturating_sub)
  have pos: "0 < unat (refcount sl)" using at(3) by (simp add: slot_live_def word_less_nat_alt)
  have none: "R (handle_index h) = None"
    using swap_inv_res [OF inv0, of "handle_index h"] at
    by (cases "R (handle_index h)") (auto simp: reservation_ok_def slot_live_def)
  have view: "swap_view (sct d) s h = Some (slot_page (sct d) s (handle_index h) sl, unat (refcount sl))"
    by (rule view_get [OF sl])
  show ?thesis
  proof (cases "m = 0")
    case True
    define cl where "cl = slot_clear (sl\<lparr>refcount := m\<rparr>)"
    have s': "s' = set_slot (handle_index h) cl s"
      using prem sl True by (simp add: release_def m_def [symmetric] cl_def Let_def)
    have dead: "\<not> slot_live cl" by (simp add: cl_def slot_live_def slot_clear_def slot_empty_def)
    have "unat (refcount sl) = 1" using True m pos by simp
    then show ?thesis unfolding s' using swap_view_killed [OF inv(2) sl dead, of "sct d"] view inv(3) none dead
      by (intro swap_inv_set [OF inv0 at(1)]) auto
  next
    case False
    define cl where "cl = sl\<lparr>refcount := m\<rparr>"
    have s': "s' = set_slot (handle_index h) cl s"
      using prem sl False by (simp add: release_def m_def [symmetric] cl_def Let_def)
    have live: "slot_live cl" using False at(3) by (simp add: cl_def slot_live_def word_neq_0_conv)
    have pg: "slot_page (sct d) s (handle_index h) cl = slot_page (sct d) s (handle_index h) sl" "generation cl = generation sl"
      by (simp_all add: slot_page_def cl_def split: Backing.split)
    have "unat (refcount sl) \<noteq> 1" using False m by (metis diff_self_eq_0 unat_eq_zero)
    then have "G(h := (case G h of Some (pg, n) \<Rightarrow> if n = 1 then None else Some (pg, n - 1) | None \<Rightarrow> None)) =
        swap_view (sct d) (set_slot (handle_index h) cl s)"
      using swap_view_changed [OF inv(2) sl pg(2) live pg(1)] view inv(3) m by (simp add: cl_def)
    then show ?thesis unfolding s' using swap_invD(4) [OF inv0 at(1)] at none
      by (intro swap_inv_set [OF inv0 at(1)]) (auto simp: slot_stored_def cl_def)
  qed
qed

lemma swap_inv_other:
  assumes inv0: "swap_inv I sct s d G R"
    and prem: "I d'" "\<And>l. swap_region s l \<Longrightarrow> sct d' l = sct d l"
  shows "swap_inv I sct s d' G R"
proof -
  have keep: "page_at (sct d') lba = page_at (sct d) lba" if "disk_lba s j = Some lba" "page_fits lba" for j lba
    using that prem by (intro page_at_cong) (auto simp: swap_region_def)
  show ?thesis
  proof (rule swap_inv_disk [OF inv0])
    show "I d'" by fact
    show "reservation_ok (sct d') s j r" if "R j = Some r" for j r
      using swap_inv_res [OF inv0 that] keep by (auto simp: reservation_ok_def split: prod.splits)
  qed (rule keep)
qed

lemma swap_history_inv:
  assumes dev: "block_device ops I sct" and hist: "swap_history ops I sct s d G R"
  shows "swap_inv I sct s d G R"
  using hist
proof induction
  case (boot d)
  have "swap_view (sct d) swap_new = Map.empty"
    by (rule ext) (simp add: swap_view_def swap_get_def swap_new_def MAX_SWAP_SLOTS_def slot_empty_def)
  with boot show ?case
    by (intro swap_invI) (simp_all add: swap_new_def MAX_SWAP_SLOTS_def slot_stored_def slot_live_def slot_empty_def)
next
  case (configure s d G start n r s')
  show ?case by (rule swap_inv_configure [OF configure.IH configure.hyps(2-)])
next
  case (reserve s d G R i g lba s')
  show ?case by (rule swap_inv_reserve [OF reserve.IH reserve.hyps(2-)])
next
  case (store s d G R i g lba x data present ok d')
  show ?case by (rule swap_inv_store [OF dev store.IH store.hyps(2-)])
next
  case (publish s d G R i g lba data h s')
  show ?case by (rule swap_inv_publish [OF publish.IH publish.hyps(2-)])
next
  case (cancel s d G R i g lba x)
  show ?case by (rule swap_inv_cancel [OF cancel.IH cancel.hyps(2-)])
next
  case (ram s d G R data h s')
  show ?case by (rule swap_inv_ram [OF ram.IH ram.hyps(2-)])
next
  case (share s d G R h s')
  show ?case by (rule swap_inv_share [OF share.IH share.hyps(2-)])
next
  case (release s d G R h s')
  show ?case by (rule swap_inv_release [OF release.IH release.hyps(2-)])
next
  case (other s d G R d')
  show ?case by (rule swap_inv_other [OF other.IH other.hyps(2-)])
qed


text \<open>Instance: a page kept in memory.\<close>

definition test_page :: bytes where
  "test_page = replicate SWAP_PAGE_SIZE 7"

lemma test_page_history:
  "swap_history ramdisk_ops ramdisk_inv ramdisk_sector (snd (allocate_ram test_page swap_new)) (ramdisk_new 8)
     [handle_of 0 1 \<mapsto> (test_page, 1)] Map.empty"
proof -
  have "allocate_ram test_page swap_new = (Some (handle_of 0 1), snd (allocate_ram test_page swap_new))"
    by (simp add: allocate_ram_def swap_free_slot_def swap_new_def MAX_SWAP_SLOTS_def slot_empty_def numeral_eq_Suc
        occupy_def next_generation_def Let_def)
  from swap_history.ram [OF swap_history.boot _ this, of ramdisk_inv "ramdisk_new 8"] show ?thesis
    by (simp add: test_page_def ramdisk_inv_new usize_limit_def)
qed


lemma allocate_ram_history:
  assumes dev: "block_device ops I sct" and h: "swap_history ops I sct s d G R" and data: "length data = SWAP_PAGE_SIZE"
    and a: "allocate_ram data s = (r, s')"
  shows "(case r of Some h \<Rightarrow> G h = None \<and> swap_history ops I sct s' d (G(h \<mapsto> (data, 1))) R
      | None \<Rightarrow> (\<forall>sl\<in>set (sw_slots s'). sl_occupied sl) \<and> swap_history ops I sct s' d G R)"
proof (cases r)
  case None
  then have "s' = s" "swap_free_slot s = None" using a by (auto simp: allocate_ram_def split: option.splits prod.splits)
  with h None show ?thesis by (simp add: swap_free_slot_def)
next
  case (Some k)
  then obtain i where i: "swap_free_slot s = Some i" "k = handle_of i (next_generation s i)"
    using a by (auto simp: allocate_ram_def occupy_def Let_def split: option.splits)
  note inv = swap_invD [OF swap_history_inv [OF dev h]]
  have "G k = None"
    using swap_view_born(2) [of i s "slot_empty\<lparr>sl_occupied := True, refcount := 1\<rparr>"] swap_free_slotD [OF i(1)] inv(2,3) i(2)
    by (simp add: slot_live_def)
  with swap_history.ram [OF h data, of k s'] a Some show ?thesis by simp
qed



section \<open>Generations\<close>

definition next_gen :: "u16 \<Rightarrow> u16" where
  "next_gen g = (let g' = g + 1 in if g' = 0 then 1 else g')"

lemma next_generation_eq: "next_generation s i = next_gen (generation (sw_slots s ! i))"
  by (simp add: next_generation_def next_gen_def)

lemma unat_next_gen:
  assumes "g \<noteq> 0"
  shows "unat (next_gen g) = unat g mod 65535 + 1"
proof (cases "g + 1 = 0")
  case True
  then have "g = - 1" by (simp add: eq_neg_iff_add_eq_0)
  then have "unat g = 65535" by (simp add: unsigned_minus_1_eq_mask mask_eq_exp_minus_1)
  with True show ?thesis by (simp add: next_gen_def)
next
  case False
  then have "unat (g + 1) = unat g + 1" by (metis unatSuc add.commute Suc_eq_plus1)
  moreover have "unat g < 65535"
    using False unsigned_less [of g, where 'a = nat] calculation unsigned_less [of "g + 1", where 'a = nat] by simp
  ultimately show ?thesis using False by (simp add: next_gen_def)
qed

lemma unat_next_gen_iter:
  assumes "g \<noteq> 0"
  shows "unat ((next_gen ^^ n) g) = (unat g - 1 + n) mod 65535 + 1"
proof (induction n)
  case 0
  have "unat g < 65536" "0 < unat g" using unsigned_less [of g, where 'a = nat] assms by (simp_all add: unat_gt_0)
  then show ?case by simp
next
  case (Suc n)
  have "(next_gen ^^ n) g \<noteq> 0" using Suc by (metis Suc_eq_plus1 nat.distinct(1) unat_0)
  from unat_next_gen [OF this] Suc show ?case by (simp add: mod_Suc_eq)
qed



end
