(* ===== verification/Bounded_Fifo.thy ===== *)
theory Bounded_Fifo
  imports WH_Prelude
begin

text \<open>
  The interface of the kernel's bounded first-in first-out queues. The IPC endpoints
  (\<open>kernel/src/ipc.rs\<close>), the pipe buffers (\<open>kernel/src/pipe.rs\<close>) and the keyboard
  scancode queue (\<open>kernel/src/keyboard.rs\<close>) implement it with different layouts; each of
  those theories interprets the locale on its own operations and takes the order-preservation
  facts proved here.
\<close>

locale bounded_fifo =
  fixes fresh :: "'q"
    and push :: "'a \<Rightarrow> 'q \<Rightarrow> 'q option"
    and pop :: "'q \<Rightarrow> ('a \<times> 'q) option"
    and contents :: "'q \<Rightarrow> 'a list"
    and wf :: "'q \<Rightarrow> bool"
    and capacity :: nat
  assumes wf_fresh: "wf fresh"
    and contents_fresh: "contents fresh = []"
    and wf_bound: "wf q \<Longrightarrow> length (contents q) \<le> capacity"
    and push_full: "wf q \<Longrightarrow> length (contents q) = capacity \<Longrightarrow> push x q = None"
    and push_room: "wf q \<Longrightarrow> length (contents q) < capacity \<Longrightarrow>
      \<exists>q'. push x q = Some q' \<and> wf q' \<and> contents q' = contents q @ [x]"
    and pop_none: "wf q \<Longrightarrow> contents q = [] \<Longrightarrow> pop q = None"
    and pop_some: "wf q \<Longrightarrow> contents q = x # xs \<Longrightarrow>
      \<exists>q'. pop q = Some (x, q') \<and> wf q' \<and> contents q' = xs"
begin

lemma push_Some:
  assumes "wf q" "push x q = Some q'"
  shows "wf q'" and "contents q' = contents q @ [x]"
proof -
  have "length (contents q) < capacity"
    using wf_bound [OF assms(1)] push_full [OF assms(1), of x] assms(2)
    by (cases "length (contents q) = capacity") auto
  from push_room [OF assms(1) this, of x] assms(2)
  show "wf q'" and "contents q' = contents q @ [x]" by auto
qed

lemma push_None_iff:
  assumes "wf q"
  shows "push x q = None \<longleftrightarrow> length (contents q) = capacity"
  using push_full [OF assms, of x] push_room [OF assms, of x] wf_bound [OF assms]
  by (metis le_neq_implies_less option.discI)

lemma pop_Some:
  assumes "wf q" "pop q = Some (x, q')"
  shows "wf q'" and "contents q = x # contents q'"
proof -
  obtain y ys where ys: "contents q = y # ys"
    using pop_none [OF assms(1)] assms(2) by (cases "contents q") auto
  from pop_some [OF assms(1) ys] assms(2) ys
  show "wf q'" and "contents q = x # contents q'" by auto
qed

text \<open>
  A run of pushes and pops, recording what was accepted and what came out. A push that finds
  the queue full is dropped by its caller.
\<close>

fun run :: "'a option list \<Rightarrow> 'q \<Rightarrow> 'a list \<times> 'a list \<times> 'q" where
  "run [] q = ([], [], q)"
| "run (Some x # ops) q =
     (case push x q of
        None \<Rightarrow> run ops q
      | Some q' \<Rightarrow> (let (ins, outs, q'') = run ops q' in (x # ins, outs, q'')))"
| "run (None # ops) q =
     (case pop q of
        None \<Rightarrow> run ops q
      | Some (x, q') \<Rightarrow> (let (ins, outs, q'') = run ops q' in (ins, x # outs, q'')))"

text \<open>What was in the queue and what went in equals what came out and what is left, in order.\<close>

lemma run_fifo:
  assumes "wf q" "run ops q = (ins, outs, q')"
  shows "wf q' \<and> contents q @ ins = outs @ contents q'"
  using assms
proof (induction ops q arbitrary: ins outs q' rule: run.induct)
  case (1 q)
  then show ?case by simp
next
  case (2 x ops q)
  show ?case
  proof (cases "push x q")
    case None
    with 2 show ?thesis by simp
  next
    case (Some r)
    obtain ins' outs' r' where r': "run ops r = (ins', outs', r')"
      by (metis surj_pair)
    with 2(4) Some have "ins = x # ins'" "outs = outs'" "q' = r'" by auto
    moreover from push_Some [OF 2(3) Some] have "wf r" "contents r = contents q @ [x]" by auto
    ultimately show ?thesis using 2(2) [OF Some \<open>wf r\<close> r'] by simp
  qed
next
  case (3 ops q)
  show ?case
  proof (cases "pop q")
    case None
    with 3 show ?thesis by simp
  next
    case (Some p)
    obtain x r where p: "p = (x, r)" by (cases p)
    obtain ins' outs' r' where r': "run ops r = (ins', outs', r')"
      by (metis surj_pair)
    with 3(4) Some p have "ins = ins'" "outs = x # outs'" "q' = r'" by auto
    moreover from pop_Some [OF 3(3)] Some p have "wf r" "contents q = x # contents r" by auto
    ultimately show ?thesis using 3(2) [OF Some p [symmetric] \<open>wf r\<close> r'] by simp
  qed
qed

corollary run_fresh_prefix:
  assumes "run ops fresh = (ins, outs, q')"
  shows "ins = outs @ contents q'" and "length (contents q') \<le> capacity"
  using run_fifo [OF wf_fresh assms] wf_bound [of q'] by (simp_all add: contents_fresh)

text \<open>Pushing a whole sequence until the queue is full, and popping up to \<open>n\<close> elements.\<close>

fun push_list :: "'a list \<Rightarrow> 'q \<Rightarrow> nat \<times> 'q" where
  "push_list [] q = (0, q)"
| "push_list (x # xs) q =
     (case push x q of None \<Rightarrow> (0, q) | Some q' \<Rightarrow> (let (n, q'') = push_list xs q' in (Suc n, q'')))"

fun pop_list :: "nat \<Rightarrow> 'q \<Rightarrow> 'a list \<times> 'q" where
  "pop_list 0 q = ([], q)"
| "pop_list (Suc n) q =
     (case pop q of None \<Rightarrow> ([], q) | Some (x, q') \<Rightarrow> (let (xs, q'') = pop_list n q' in (x # xs, q'')))"

lemma push_list_ok:
  assumes "wf q" "push_list xs q = (n, q')"
  shows "wf q' \<and> n = min (length xs) (capacity - length (contents q)) \<and> contents q' = contents q @ take n xs"
  using assms
proof (induction xs arbitrary: q n q')
  case Nil
  then show ?case by simp
next
  case (Cons x xs)
  show ?case
  proof (cases "push x q")
    case None
    with Cons.prems show ?thesis using push_None_iff [of q x] by simp
  next
    case (Some r)
    obtain m r' where r': "push_list xs r = (m, r')" by force
    with Cons.prems(2) Some have n: "n = Suc m" "q' = r'" by auto
    from push_Some [OF Cons.prems(1) Some] have r: "wf r" "contents r = contents q @ [x]" by auto
    have "length (contents q) < capacity" using wf_bound [OF r(1)] r(2) by simp
    with Cons.IH [OF r(1) r'] r(2) n show ?thesis by auto
  qed
qed

lemma pop_list_ok:
  assumes "wf q" "pop_list n q = (xs, q')"
  shows "wf q' \<and> xs = take n (contents q) \<and> contents q' = drop n (contents q)"
  using assms
proof (induction n arbitrary: q xs q')
  case 0
  then show ?case by simp
next
  case (Suc n)
  show ?case
  proof (cases "contents q")
    case Nil
    with Suc.prems show ?thesis using pop_none [of q] by simp
  next
    case (Cons y ys)
    then obtain r where r: "pop q = Some (y, r)" "wf r" "contents r = ys"
      using pop_some [OF Suc.prems(1) Cons] by blast
    obtain zs r' where r': "pop_list n r = (zs, r')" by force
    with Suc.prems(2) r(1) have "xs = y # zs" "q' = r'" by auto
    with Suc.IH [OF r(2) r'] r(3) Cons show ?thesis by auto
  qed
qed

end

end
