(* ===== verification/Pipe.thy ===== *)
theory Pipe
  imports Bounded_Fifo Slot_Table
begin

text \<open>
  Anonymous pipes (\<open>kernel/src/pipe.rs\<close>): the table of pipes, their byte rings, the reference
  counts of their ends, the waiter lists, and the blocking \<open>read\<close> and \<open>write\<close>.

  The state is the table together with the tasks passed to \<open>task::wake_task\<close> so far. A call of
  \<open>task::block_current\<close> hands the machine to other tasks: the blocking operations take a list
  of what those tasks do to the state, one function for each time the caller blocks, and have
  no result when the caller is never resumed.
\<close>

section \<open>Model\<close>

definition PIPE_BUFFER :: nat where
  "PIPE_BUFFER = 2048"

definition MAX_PIPES :: nat where
  "MAX_PIPES = 32"

definition MAX_WAITERS :: nat where
  "MAX_WAITERS = 32"

type_synonym TaskId = u64

datatype pipe_error = Full | Invalid | Closed

record Pipe =
  pdata :: bytes
  phead :: nat
  ptail :: nat
  plen :: nat
  readers :: u32
  writers :: u32
  occupied :: bool
  read_waiters :: "TaskId option list"
  write_waiters :: "TaskId option list"

definition pipe_empty :: Pipe where
  "pipe_empty =
     \<lparr>pdata = replicate PIPE_BUFFER 0, phead = 0, ptail = 0, plen = 0, readers = 0, writers = 0,
      occupied = False, read_waiters = replicate MAX_WAITERS None, write_waiters = replicate MAX_WAITERS None\<rparr>"

record PipeState =
  pipes :: "Pipe list"
  woken :: "TaskId list"

definition table_new :: PipeState where
  "table_new = \<lparr>pipes = replicate MAX_PIPES pipe_empty, woken = []\<rparr>"

definition set_pipe :: "nat \<Rightarrow> Pipe \<Rightarrow> PipeState \<Rightarrow> PipeState" where
  "set_pipe i p s = s\<lparr>pipes := (pipes s)[i := p]\<rparr>"

text \<open>\<open>table.pipes.get_mut(id)\<close> and its filter on occupied pipes.\<close>

definition get_pipe :: "nat \<Rightarrow> PipeState \<Rightarrow> Pipe option" where
  "get_pipe i s = (if i < length (pipes s) then Some (pipes s ! i) else None)"

definition live_pipe :: "nat \<Rightarrow> PipeState \<Rightarrow> Pipe option" where
  "live_pipe i s = (case get_pipe i s of None \<Rightarrow> None | Some p \<Rightarrow> if occupied p then Some p else None)"

definition pipe_alloc :: "(PipeState, pipe_error, nat) io" where
  "pipe_alloc s =
     (case position (\<lambda>p. \<not> occupied p) (pipes s) of
        None \<Rightarrow> (Inl Full, s)
      | Some slot \<Rightarrow> (Inr slot, set_pipe slot (pipe_empty\<lparr>readers := 1, writers := 1, occupied := True\<rparr>) s))"

fun push_waiter :: "TaskId \<Rightarrow> TaskId option list \<Rightarrow> TaskId option list" where
  "push_waiter me [] = []"
| "push_waiter me (slot # rest) =
     (if slot = None then Some me # rest
      else if slot = Some me then slot # rest
      else slot # push_waiter me rest)"

text \<open>\<open>take_waiters\<close> followed by \<open>wake_list\<close>.\<close>

definition wake_list :: "TaskId option list \<Rightarrow> PipeState \<Rightarrow> PipeState" where
  "wake_list waiters s = s\<lparr>woken := woken s @ map the (filter (\<lambda>w. w \<noteq> None) waiters)\<rparr>"

text \<open>The byte loops of \<open>try_write\<close> and \<open>try_read\<close>.\<close>

fun write_bytes :: "bytes \<Rightarrow> Pipe \<Rightarrow> nat \<times> Pipe" where
  "write_bytes [] p = (0, p)"
| "write_bytes (b # bs) p =
     (if plen p < PIPE_BUFFER
      then let (n, p') = write_bytes bs (p\<lparr>pdata := (pdata p)[ptail p := b],
             ptail := (ptail p + 1) mod PIPE_BUFFER, plen := plen p + 1\<rparr>) in (n + 1, p')
      else (0, p))"

fun read_out :: "nat \<Rightarrow> Pipe \<Rightarrow> bytes \<times> Pipe" where
  "read_out 0 p = ([], p)"
| "read_out (Suc n) p =
     (if 0 < plen p
      then let (bs, p') = read_out n (p\<lparr>phead := (phead p + 1) mod PIPE_BUFFER, plen := plen p - 1\<rparr>)
           in (pdata p ! phead p # bs, p')
      else ([], p))"

definition try_write :: "nat \<Rightarrow> bytes \<Rightarrow> (PipeState, pipe_error, nat \<times> bool) io" where
  "try_write i buf s =
     (case get_pipe i s of
        None \<Rightarrow> (Inl Invalid, s)
      | Some p \<Rightarrow>
          if \<not> occupied p then (Inl Invalid, s)
          else if readers p = 0 then (Inl Closed, s)
          else let (written, p') = write_bytes buf p;
                   need_block = written < length buf \<and> 0 < readers p'
               in (Inr (written, need_block \<and> written = 0), set_pipe i p' s))"

text \<open>The result is the triple of the source with the bytes stored in front of the buffer.\<close>

definition try_read :: "nat \<Rightarrow> nat \<Rightarrow> (PipeState, pipe_error, bytes \<times> bool \<times> bool) io" where
  "try_read i len s =
     (case get_pipe i s of
        None \<Rightarrow> (Inl Invalid, s)
      | Some p \<Rightarrow>
          if \<not> occupied p then (Inl Invalid, s)
          else if plen p = 0
               then (if writers p = 0 then (Inr ([], False, True), s) else (Inr ([], True, False), s))
          else let (bs, p') = read_out len p in (Inr (bs, False, False), set_pipe i p' s))"

definition wait_to_write :: "TaskId \<Rightarrow> nat \<Rightarrow> PipeState \<Rightarrow> PipeState" where
  "wait_to_write me i s =
     (case get_pipe i s of None \<Rightarrow> s
      | Some p \<Rightarrow> set_pipe i (p\<lparr>write_waiters := push_waiter me (write_waiters p)\<rparr>) s)"

definition wait_to_read :: "TaskId \<Rightarrow> nat \<Rightarrow> PipeState \<Rightarrow> PipeState" where
  "wait_to_read me i s =
     (case get_pipe i s of None \<Rightarrow> s
      | Some p \<Rightarrow> set_pipe i (p\<lparr>read_waiters := push_waiter me (read_waiters p)\<rparr>) s)"

definition wake_readers :: "nat \<Rightarrow> PipeState \<Rightarrow> PipeState" where
  "wake_readers i s =
     (case get_pipe i s of None \<Rightarrow> s
      | Some p \<Rightarrow> wake_list (read_waiters p) (set_pipe i (p\<lparr>read_waiters := replicate MAX_WAITERS None\<rparr>) s))"

definition wake_writers :: "nat \<Rightarrow> PipeState \<Rightarrow> PipeState" where
  "wake_writers i s =
     (case get_pipe i s of None \<Rightarrow> s
      | Some p \<Rightarrow> wake_list (write_waiters p) (set_pipe i (p\<lparr>write_waiters := replicate MAX_WAITERS None\<rparr>) s))"

definition write_still_blocks :: "nat \<Rightarrow> PipeState \<Rightarrow> bool" where
  "write_still_blocks i s =
     (case get_pipe i s of None \<Rightarrow> False | Some p \<Rightarrow> occupied p \<and> 0 < readers p \<and> PIPE_BUFFER \<le> plen p)"

definition read_still_blocks :: "nat \<Rightarrow> PipeState \<Rightarrow> bool" where
  "read_still_blocks i s =
     (case get_pipe i s of None \<Rightarrow> False | Some p \<Rightarrow> occupied p \<and> plen p = 0 \<and> 0 < writers p)"

definition pipe_create :: "(PipeState, pipe_error, nat) io" where
  "pipe_create = pipe_alloc"

partial_function (option) pipe_write_loop ::
  "TaskId \<Rightarrow> nat \<Rightarrow> bytes \<Rightarrow> nat \<Rightarrow> (PipeState \<Rightarrow> PipeState) list \<Rightarrow> PipeState \<Rightarrow>
     ((pipe_error + nat) \<times> PipeState) option" where
  "pipe_write_loop me i buf sent others s =
     (if sent < length buf
      then case try_write i (drop sent buf) s of
             (Inl e, s) \<Rightarrow> Some (Inl e, s)
           | (Inr (written, block), s) \<Rightarrow>
               let s = (if block then wait_to_write me i s else s);
                   s = (if 0 < written then wake_readers i s else s);
                   sent = sent + written
               in if sent = length buf then Some (Inr sent, s)
                  else if block
                  then if \<not> write_still_blocks i s then pipe_write_loop me i buf sent others s
                       else (case others of [] \<Rightarrow> None
                             | other # rest \<Rightarrow> pipe_write_loop me i buf sent rest (other s))
                  else if written = 0 then Some (if 0 < sent then Inr sent else Inl Closed, s)
                  else pipe_write_loop me i buf sent others s
      else Some (Inr sent, s))"

definition pipe_write ::
  "TaskId \<Rightarrow> nat \<Rightarrow> bytes \<Rightarrow> (PipeState \<Rightarrow> PipeState) list \<Rightarrow> PipeState \<Rightarrow>
     ((pipe_error + nat) \<times> PipeState) option" where
  "pipe_write me i buf others s =
     (if buf = [] then Some (Inr 0, s) else pipe_write_loop me i buf 0 others s)"

partial_function (option) pipe_read_loop ::
  "TaskId \<Rightarrow> nat \<Rightarrow> nat \<Rightarrow> (PipeState \<Rightarrow> PipeState) list \<Rightarrow> PipeState \<Rightarrow>
     ((pipe_error + bytes) \<times> PipeState) option" where
  "pipe_read_loop me i len others s =
     (case try_read i len s of
        (Inl e, s) \<Rightarrow> Some (Inl e, s)
      | (Inr (bs, block, eof), s) \<Rightarrow>
          let s = (if block then wait_to_read me i s else s) in
          if bs \<noteq> [] then Some (Inr bs, wake_writers i s)
          else if eof then Some (Inr [], s)
          else if block
          then if \<not> read_still_blocks i s then pipe_read_loop me i len others s
               else (case others of [] \<Rightarrow> None
                     | other # rest \<Rightarrow> pipe_read_loop me i len rest (other s))
          else Some (Inr [], s))"

definition pipe_read ::
  "TaskId \<Rightarrow> nat \<Rightarrow> nat \<Rightarrow> (PipeState \<Rightarrow> PipeState) list \<Rightarrow> PipeState \<Rightarrow>
     ((pipe_error + bytes) \<times> PipeState) option" where
  "pipe_read me i len others s = (if len = 0 then Some (Inr [], s) else pipe_read_loop me i len others s)"

definition clone_reader :: "nat \<Rightarrow> (PipeState, pipe_error, unit) io" where
  "clone_reader i s =
     (case live_pipe i s of None \<Rightarrow> (Inl Invalid, s)
      | Some p \<Rightarrow> (Inr (), set_pipe i (p\<lparr>readers := saturating_add (readers p) 1\<rparr>) s))"

definition clone_writer :: "nat \<Rightarrow> (PipeState, pipe_error, unit) io" where
  "clone_writer i s =
     (case live_pipe i s of None \<Rightarrow> (Inl Invalid, s)
      | Some p \<Rightarrow> (Inr (), set_pipe i (p\<lparr>writers := saturating_add (writers p) 1\<rparr>) s))"

definition drop_if_unused :: "Pipe \<Rightarrow> Pipe" where
  "drop_if_unused p = (if readers p = 0 \<and> writers p = 0 then pipe_empty else p)"

definition close_reader :: "nat \<Rightarrow> PipeState \<Rightarrow> PipeState" where
  "close_reader i s =
     (case live_pipe i s of None \<Rightarrow> s
      | Some p \<Rightarrow> wake_list (write_waiters p) (set_pipe i (drop_if_unused
          (p\<lparr>readers := saturating_sub (readers p) 1, write_waiters := replicate MAX_WAITERS None\<rparr>)) s))"

definition close_writer :: "nat \<Rightarrow> PipeState \<Rightarrow> PipeState" where
  "close_writer i s =
     (case live_pipe i s of None \<Rightarrow> s
      | Some p \<Rightarrow> wake_list (read_waiters p) (set_pipe i (drop_if_unused
          (p\<lparr>writers := saturating_sub (writers p) 1, read_waiters := replicate MAX_WAITERS None\<rparr>)) s))"

definition pipe_self_test :: "TaskId \<Rightarrow> PipeState \<Rightarrow> (bool \<times> PipeState) option" where
  "pipe_self_test me s =
     (case pipe_create s of
        (Inl _, s) \<Rightarrow> Some (False, s)
      | (Inr i, s) \<Rightarrow>
          (let payload = ascii ''blocking-pipe-test'' in
           case pipe_write me i payload [] s of
             None \<Rightarrow> None
           | Some (w, s) \<Rightarrow>
               if w \<noteq> Inr (length payload) then Some (False, close_reader i (close_writer i s))
               else case pipe_read me i 32 [] s of
                      None \<Rightarrow> None
                    | Some (r, s) \<Rightarrow>
                        (case pipe_read me i 32 [] (close_writer i s) of
                           None \<Rightarrow> None
                         | Some (r', s) \<Rightarrow> Some (r = Inr payload \<and> r' = Inr [], close_reader i s))))"

section \<open>The byte ring\<close>

definition pipe_wf :: "Pipe \<Rightarrow> bool" where
  [wf_simps]: "pipe_wf p \<longleftrightarrow> length (pdata p) = PIPE_BUFFER \<and> phead p < PIPE_BUFFER \<and>
     plen p \<le> PIPE_BUFFER \<and> ptail p = (phead p + plen p) mod PIPE_BUFFER"

definition pipe_contents :: "Pipe \<Rightarrow> bytes" where
  "pipe_contents p = ring (pdata p) (phead p) (plen p)"

definition pipe_push :: "u8 \<Rightarrow> Pipe \<Rightarrow> Pipe option" where
  "pipe_push b p =
     (if plen p < PIPE_BUFFER
      then Some (p\<lparr>pdata := (pdata p)[ptail p := b], ptail := (ptail p + 1) mod PIPE_BUFFER, plen := plen p + 1\<rparr>)
      else None)"

definition pipe_pop :: "Pipe \<Rightarrow> (u8 \<times> Pipe) option" where
  "pipe_pop p =
     (if 0 < plen p
      then Some (pdata p ! phead p, p\<lparr>phead := (phead p + 1) mod PIPE_BUFFER, plen := plen p - 1\<rparr>)
      else None)"

lemma length_pipe_contents [simp]: "length (pipe_contents p) = plen p"
  by (simp add: pipe_contents_def)

interpretation pipe: bounded_fifo pipe_empty pipe_push pipe_pop pipe_contents pipe_wf PIPE_BUFFER
proof unfold_locales
  show "pipe_wf pipe_empty" by (simp add: pipe_empty_def wf_simps PIPE_BUFFER_def)
  show "pipe_contents pipe_empty = []" by (simp add: pipe_contents_def pipe_empty_def)
next
  fix p :: Pipe and x xs assume p: "pipe_wf p"
  then have len: "length (pdata p) = PIPE_BUFFER" and tail: "ptail p = (phead p + plen p) mod PIPE_BUFFER"
    by (simp_all add: wf_simps)
  show "length (pipe_contents p) \<le> PIPE_BUFFER" using p by (simp add: wf_simps)
  show "pipe_push x p = None" if "length (pipe_contents p) = PIPE_BUFFER" using that by (simp add: pipe_push_def)
  show "\<exists>q. pipe_push x p = Some q \<and> pipe_wf q \<and> pipe_contents q = pipe_contents p @ [x]"
    if "length (pipe_contents p) < PIPE_BUFFER"
    using that p ring_push [of "plen p" "pdata p" "phead p" x]
    by (simp add: pipe_push_def wf_simps pipe_contents_def tail mod_Suc_eq)
  show "pipe_pop p = None" if "pipe_contents p = []"
    using that length_pipe_contents [of p] by (simp add: pipe_pop_def)
  show "\<exists>q. pipe_pop p = Some (x, q) \<and> pipe_wf q \<and> pipe_contents q = xs" if c: "pipe_contents p = x # xs"
  proof -
    obtain n where n: "plen p = Suc n" using c length_pipe_contents [of p] by (cases "plen p") auto
    have "phead p < length (pdata p)" using p by (simp add: wf_simps)
    from ring_pop [OF this, of n] c n p show ?thesis
      by (simp add: pipe_pop_def wf_simps pipe_contents_def PIPE_BUFFER_def mod_add_left_eq)
  qed
qed

lemma write_bytes_eq: "write_bytes bs p = pipe.push_list bs p"
  by (induction bs arbitrary: p) (simp_all add: pipe_push_def split: prod.splits)

lemma read_out_eq: "read_out n p = pipe.pop_list n p"
  by (induction n arbitrary: p) (simp_all add: pipe_pop_def split: prod.splits)

lemma write_bytes_ok:
  assumes "pipe_wf p" "write_bytes bs p = (n, p')"
  shows "pipe_wf p'" "n = min (length bs) (PIPE_BUFFER - plen p)" "pipe_contents p' = pipe_contents p @ take n bs"
  using pipe.push_list_ok [OF assms(1), of bs n p'] assms(2) by (simp_all add: write_bytes_eq)

lemma read_out_ok:
  assumes "pipe_wf p" "read_out n p = (bs, p')"
  shows "pipe_wf p'" "bs = take n (pipe_contents p)" "pipe_contents p' = drop n (pipe_contents p)"
  using pipe.pop_list_ok [OF assms(1), of n bs p'] assms(2) by (simp_all add: read_out_eq)

text \<open>The byte loops leave the ends, the waiters and the occupancy alone.\<close>

definition same_ends :: "Pipe \<Rightarrow> Pipe \<Rightarrow> bool" where
  "same_ends p q \<longleftrightarrow> readers q = readers p \<and> writers q = writers p \<and> occupied q = occupied p \<and>
     read_waiters q = read_waiters p \<and> write_waiters q = write_waiters p"

lemma write_bytes_ends: "write_bytes bs p = (n, p') \<Longrightarrow> same_ends p p'"
  by (induction bs arbitrary: p n p') (fastforce simp: same_ends_def split: if_splits prod.splits)+

lemma read_out_ends: "read_out n p = (bs, p') \<Longrightarrow> same_ends p p'"
  by (induction n arbitrary: p bs p') (fastforce simp: same_ends_def split: if_splits prod.splits)+

section \<open>Histories\<close>

lemma get_pipe_set [simp]: "get_pipe i (set_pipe i p s) = (if i < length (pipes s) then Some p else None)"
  by (simp add: get_pipe_def set_pipe_def)

lemma get_pipe_other [simp]: "i \<noteq> j \<Longrightarrow> get_pipe j (set_pipe i p s) = get_pipe j s"
  by (simp add: get_pipe_def set_pipe_def)

lemma get_pipe_woken [simp]: "get_pipe i (wake_list ws s) = get_pipe i s"
  by (simp add: get_pipe_def wake_list_def)

lemma length_set_pipe [simp]: "length (pipes (set_pipe i p s)) = length (pipes s)"
  by (simp add: set_pipe_def)

lemma length_wake_list [simp]: "length (pipes (wake_list ws s)) = length (pipes s)"
  by (simp add: wake_list_def)

lemma get_pipe_bound: "get_pipe i s = Some p \<Longrightarrow> i < length (pipes s)"
  by (simp add: get_pipe_def split: if_splits)

text \<open>What a step of the table may do to pipe \<open>i\<close>, from \<open>p\<close> to \<open>p'\<close>, without moving data.\<close>

inductive end_step :: "nat \<Rightarrow> PipeState \<Rightarrow> PipeState \<Rightarrow> bool" where
  "end_step i s (wait_to_write me i s)"
| "end_step i s (wait_to_read me i s)"
| "end_step i s (wake_readers i s)"
| "end_step i s (wake_writers i s)"
| "clone_reader i s = (r, s') \<Longrightarrow> end_step i s s'"
| "clone_writer i s = (r, s') \<Longrightarrow> end_step i s s'"
| "end_step i s (close_reader i s)"
| "end_step i s (close_writer i s)"

text \<open>
  Histories of the table with, for every pipe, the bytes accepted from writers and returned to
  readers since it was created.
\<close>

inductive pipe_history :: "PipeState \<Rightarrow> (nat \<Rightarrow> bytes) \<Rightarrow> (nat \<Rightarrow> bytes) \<Rightarrow> bool" where
  boot: "pipe_history table_new (\<lambda>i. []) (\<lambda>i. [])"
| create: "pipe_history s sent got \<Longrightarrow> pipe_create s = (Inr i, s') \<Longrightarrow>
    pipe_history s' (sent(i := [])) (got(i := []))"
| put: "pipe_history s sent got \<Longrightarrow> try_write i buf s = (Inr (n, block), s') \<Longrightarrow>
    pipe_history s' (sent(i := sent i @ take n buf)) got"
| get: "pipe_history s sent got \<Longrightarrow> try_read i len s = (Inr (bs, block, eof), s') \<Longrightarrow>
    pipe_history s' sent (got(i := got i @ bs))"
| ends: "pipe_history s sent got \<Longrightarrow> end_step i s s' \<Longrightarrow> pipe_history s' sent got"

definition pipe_ok :: "Pipe \<Rightarrow> bytes \<Rightarrow> bytes \<Rightarrow> bool" where
  "pipe_ok p sent got \<longleftrightarrow> pipe_wf p \<and>
     (occupied p \<longrightarrow> sent = got @ pipe_contents p \<and> (readers p \<noteq> 0 \<or> writers p \<noteq> 0))"

definition table_ok :: "PipeState \<Rightarrow> (nat \<Rightarrow> bytes) \<Rightarrow> (nat \<Rightarrow> bytes) \<Rightarrow> bool" where
  "table_ok s sent got \<longleftrightarrow> length (pipes s) = MAX_PIPES \<and>
     (\<forall>i p. get_pipe i s = Some p \<longrightarrow> pipe_ok p (sent i) (got i))"

lemma table_ok_set:
  assumes "table_ok s sent got" "pipe_ok p (sent' i) (got' i)"
    and "\<And>j. j \<noteq> i \<Longrightarrow> sent' j = sent j \<and> got' j = got j"
  shows "table_ok (set_pipe i p s) sent' got'"
  unfolding table_ok_def
proof (intro conjI allI impI)
  show "length (pipes (set_pipe i p s)) = MAX_PIPES" using assms(1) by (simp add: table_ok_def)
  fix j q assume j: "get_pipe j (set_pipe i p s) = Some q"
  show "pipe_ok q (sent' j) (got' j)"
    using j assms by (cases "j = i") (auto simp: table_ok_def split: if_splits)
qed

lemma table_ok_wake: "table_ok (wake_list ws s) sent got = table_ok s sent got"
  by (simp add: table_ok_def)

lemma pipe_ok_waiters:
  "pipe_ok (p\<lparr>read_waiters := w\<rparr>) x y = pipe_ok p x y" "pipe_ok (p\<lparr>write_waiters := w\<rparr>) x y = pipe_ok p x y"
  by (simp_all add: pipe_ok_def wf_simps pipe_contents_def)

lemma pipe_ok_same_ends:
  "pipe_ok p x y \<Longrightarrow> same_ends p p' \<Longrightarrow> pipe_wf p' \<Longrightarrow> (occupied p \<Longrightarrow> x' = y' @ pipe_contents p') \<Longrightarrow> pipe_ok p' x' y'"
  by (simp add: pipe_ok_def same_ends_def)

lemma pipe_ok_empty: "pipe_ok pipe_empty x y"
  using pipe.wf_fresh by (simp add: pipe_ok_def pipe_empty_def)

lemma saturating_add_1_neq_0: "saturating_add (x :: u32) 1 \<noteq> 0"
proof
  assume "saturating_add x 1 = 0"
  then have "unat (saturating_add x 1) = 0" by simp
  then show False unfolding unat_saturating_add by simp
qed

lemma end_step_ok:
  assumes "end_step i s s'" "table_ok s sent got"
  shows "table_ok s' sent got"
proof (cases "get_pipe i s")
  case None
  with assms show ?thesis
    by (auto elim!: end_step.cases simp: wait_to_write_def wait_to_read_def wake_readers_def wake_writers_def
        clone_reader_def clone_writer_def close_reader_def close_writer_def live_pipe_def)
next
  case (Some p)
  with assms(2) have p: "pipe_ok p (sent i) (got i)" by (simp add: table_ok_def)
  have set: "table_ok (set_pipe i q s) sent got" if "pipe_ok q (sent i) (got i)" for q
    using table_ok_set [where sent' = sent and got' = got, OF assms(2) that] by simp
  have cl: "pipe_ok (p\<lparr>readers := saturating_add (readers p) 1\<rparr>) (sent i) (got i)"
      "pipe_ok (p\<lparr>writers := saturating_add (writers p) 1\<rparr>) (sent i) (got i)"
    using p by (simp_all add: pipe_ok_def wf_simps pipe_contents_def saturating_add_1_neq_0)
  have dr: "pipe_ok (drop_if_unused (p\<lparr>readers := r, write_waiters := w\<rparr>)) (sent i) (got i)"
      "pipe_ok (drop_if_unused (p\<lparr>writers := r, read_waiters := w\<rparr>)) (sent i) (got i)" for r w
    using p pipe_ok_empty by (auto simp: drop_if_unused_def pipe_ok_def wf_simps pipe_contents_def)
  from assms(1) show ?thesis
  proof cases
    case (5 r)
    with Some assms(2) set cl(1) show ?thesis by (auto simp: clone_reader_def live_pipe_def split: if_splits)
  next
    case (6 r)
    with Some assms(2) set cl(2) show ?thesis by (auto simp: clone_writer_def live_pipe_def split: if_splits)
  qed (use Some assms(2) p set dr in \<open>auto simp: wait_to_write_def wait_to_read_def wake_readers_def
      wake_writers_def close_reader_def close_writer_def live_pipe_def table_ok_wake pipe_ok_waiters\<close>)
qed

lemma history_ok: "pipe_history s sent got \<Longrightarrow> table_ok s sent got"
proof (induction rule: pipe_history.induct)
  case boot
  then show ?case by (auto simp: table_ok_def table_new_def get_pipe_def pipe_ok_empty split: if_splits)
next
  case (create s sent got i s')
  then have "s' = set_pipe i (pipe_empty\<lparr>readers := 1, writers := 1, occupied := True\<rparr>) s"
    by (auto simp: pipe_create_def pipe_alloc_def split: option.splits)
  moreover have "pipe_ok (pipe_empty\<lparr>readers := 1, writers := 1, occupied := True\<rparr>) [] []"
    using pipe.wf_fresh pipe.contents_fresh by (simp add: pipe_ok_def wf_simps pipe_contents_def)
  ultimately show ?case using table_ok_set [OF create.IH] by simp
next
  case (put s sent got i buf n block s')
  then obtain p p' where p: "get_pipe i s = Some p" "write_bytes buf p = (n, p')" "s' = set_pipe i p' s"
    by (auto simp: try_write_def Let_def split: option.splits if_splits prod.splits)
  then have ok: "pipe_ok p (sent i) (got i)" using put.IH by (simp add: table_ok_def)
  then have "pipe_wf p" by (simp add: pipe_ok_def)
  note w = write_bytes_ok [OF this p(2)]
  have "pipe_ok p' (sent i @ take n buf) (got i)"
    by (rule pipe_ok_same_ends [OF ok write_bytes_ends [OF p(2)] w(1)]) (use ok w(3) in \<open>simp add: pipe_ok_def\<close>)
  then show ?case unfolding p(3) using table_ok_set [OF put.IH] by simp
next
  case (get s sent got i len bs block eof s')
  then obtain p where p: "get_pipe i s = Some p" by (auto simp: try_read_def split: option.splits)
  then have ok: "pipe_ok p (sent i) (got i)" using get.IH by (simp add: table_ok_def)
  show ?case
  proof (cases "plen p = 0")
    case True
    with get p have "s' = s" "bs = []" by (auto simp: try_read_def split: if_splits)
    with get.IH show ?thesis by simp
  next
    case False
    with get p obtain p' where p': "read_out len p = (bs, p')" "s' = set_pipe i p' s"
      by (auto simp: try_read_def split: if_splits prod.splits)
    have "pipe_wf p" using ok by (simp add: pipe_ok_def)
    note r = read_out_ok [OF this p'(1)]
    have "pipe_ok p' (sent i) (got i @ bs)"
      by (rule pipe_ok_same_ends [OF ok read_out_ends [OF p'(1)] r(1)]) (use ok r(2,3) in \<open>simp add: pipe_ok_def\<close>)
    then show ?thesis unfolding p'(2) using table_ok_set [OF get.IH] by simp
  qed
next
  case (ends s sent got i s')
  then show ?case using end_step_ok by blast
qed

text \<open>
  C22: Pipe data. In every history of the table, whatever tasks create, read, write, duplicate
  and close, the bytes accepted into a live pipe are exactly those its readers got, in order,
  followed by those in its buffer, at most 2048 of them; and a pipe is live only while one of
  its ends is open.
\<close>

theorem pipe_delivery_fifo:
  assumes "pipe_history s sent got" "live_pipe i s = Some p"
  shows "sent i = got i @ pipe_contents p \<and> length (pipe_contents p) \<le> PIPE_BUFFER \<and>
    (readers p \<noteq> 0 \<or> writers p \<noteq> 0)"
proof -
  have "pipe_ok p (sent i) (got i)" "occupied p"
    using history_ok [OF assms(1)] assms(2) by (auto simp: table_ok_def live_pipe_def split: option.splits if_splits)
  then show ?thesis using pipe.wf_bound [of p] by (simp add: pipe_ok_def)
qed

section \<open>Blocking operations\<close>

lemma live_pipe_get: "live_pipe i s = Some p \<longleftrightarrow> get_pipe i s = Some p \<and> occupied p"
  by (auto simp: live_pipe_def split: option.splits)

text \<open>A pipe that can take data: live, with an open read end.\<close>

definition writable :: "nat \<Rightarrow> PipeState \<Rightarrow> Pipe \<Rightarrow> bool" where
  "writable i s p \<longleftrightarrow> live_pipe i s = Some p \<and> pipe_wf p \<and> readers p \<noteq> 0"

lemma try_write_writable:
  fixes buf :: bytes
  assumes w: "writable i s p"
  defines "n \<equiv> min (length buf) (PIPE_BUFFER - plen p)"
  shows "\<exists>p'. try_write i buf s = (Inr (n, n = 0 \<and> buf \<noteq> []), set_pipe i p' s) \<and>
    writable i (set_pipe i p' s) p' \<and> pipe_contents p' = pipe_contents p @ take n buf \<and> same_ends p p'"
proof -
  have p: "get_pipe i s = Some p" "occupied p" "pipe_wf p" "readers p \<noteq> 0"
    using w by (simp_all add: writable_def live_pipe_get)
  obtain m p' where wb: "write_bytes buf p = (m, p')" by force
  note ok = write_bytes_ok [OF p(3) wb] and ends = write_bytes_ends [OF wb]
  have m: "m = n" using ok(2) by (simp add: n_def)
  have "try_write i buf s = (Inr (n, n = 0 \<and> buf \<noteq> []), set_pipe i p' s)"
    using p wb m ends by (auto simp: try_write_def same_ends_def word_neq_0_conv n_def)
  moreover have "writable i (set_pipe i p' s) p'"
    using p ends ok(1) get_pipe_bound [OF p(1)] by (simp add: writable_def live_pipe_get same_ends_def)
  ultimately show ?thesis using ok(3) ends m by blast
qed

lemma wake_readers_writable:
  assumes "writable i s p"
  shows "writable i (wake_readers i s) (p\<lparr>read_waiters := replicate MAX_WAITERS None\<rparr>)"
  using assms get_pipe_bound [of i s p]
  by (auto simp: writable_def wake_readers_def live_pipe_get wf_simps)

lemma wait_to_write_writable:
  assumes "writable i s p"
  shows "writable i (wait_to_write me i s) (p\<lparr>write_waiters := push_waiter me (write_waiters p)\<rparr>)"
  using assms get_pipe_bound [of i s p]
  by (auto simp: writable_def wait_to_write_def live_pipe_get wf_simps)

text \<open>One round of the write loop when there is room, and when there is none.\<close>

lemma write_loop_room:
  assumes w: "writable i s p" "plen p < PIPE_BUFFER" "sent < length buf"
  obtains s' p' n where "0 < n" "sent + n \<le> length buf" "writable i s' p'"
    "n = min (length buf - sent) (PIPE_BUFFER - plen p)" "plen p' = plen p + n"
    "pipe_contents p' = pipe_contents p @ take n (drop sent buf)" "writers p' = writers p" "readers p' = readers p"
    "pipe_write_loop me i buf sent others s =
       (if sent + n = length buf then Some (Inr (length buf), s') else pipe_write_loop me i buf (sent + n) others s')"
proof -
  define n where "n = min (length buf - sent) (PIPE_BUFFER - plen p)"
  obtain p1 where t: "try_write i (drop sent buf) s = (Inr (n, False), set_pipe i p1 s)"
    "writable i (set_pipe i p1 s) p1" "pipe_contents p1 = pipe_contents p @ take n (drop sent buf)" "same_ends p p1"
    using try_write_writable [OF w(1), of "drop sent buf"] w(2,3) by (auto simp: n_def)
  define s' where "s' = wake_readers i (set_pipe i p1 s)"
  define p' where "p' = p1\<lparr>read_waiters := replicate MAX_WAITERS None\<rparr>"
  have n: "0 < n" "sent + n \<le> length buf" using w(2,3) by (auto simp: n_def)
  have "plen p1 = plen p + n"
    using arg_cong [OF t(3), of length] n(2) by (simp add: n_def)
  moreover have "writable i s' p'" using wake_readers_writable [OF t(2)] by (simp add: s'_def p'_def)
  moreover have "pipe_write_loop me i buf sent others s =
       (if sent + n = length buf then Some (Inr (length buf), s') else pipe_write_loop me i buf (sent + n) others s')"
    using t(1) n w(3) by (subst pipe_write_loop.simps) (auto simp: s'_def)
  ultimately show thesis
    using n t(3,4) by (intro that [of n s' p']) (simp_all add: n_def p'_def pipe_contents_def same_ends_def)
qed

lemma write_loop_full:
  assumes w: "writable i s p" "plen p = PIPE_BUFFER" "sent < length buf"
  obtains s' p' where "writable i s' p'" "plen p' = PIPE_BUFFER" "pipe_contents p' = pipe_contents p"
    "readers p' = readers p" "writers p' = writers p"
    "pipe_write_loop me i buf sent others s =
       (case others of [] \<Rightarrow> None | other # rest \<Rightarrow> pipe_write_loop me i buf sent rest (other s'))"
proof -
  have "drop sent buf \<noteq> []" using w(3) by simp
  then obtain p1 where t: "try_write i (drop sent buf) s = (Inr (0, True), set_pipe i p1 s)"
    "writable i (set_pipe i p1 s) p1" "pipe_contents p1 = pipe_contents p" "same_ends p p1"
    using try_write_writable [OF w(1), of "drop sent buf"] w(2) by auto
  define s' where "s' = wait_to_write me i (set_pipe i p1 s)"
  define p' where "p' = p1\<lparr>write_waiters := push_waiter me (write_waiters p1)\<rparr>"
  have w': "writable i s' p'" using wait_to_write_writable [OF t(2)] by (simp add: s'_def p'_def)
  have l: "plen p1 = PIPE_BUFFER" using arg_cong [OF t(3), of length] w(2) by simp
  then have "write_still_blocks i s'"
    using w' by (auto simp: write_still_blocks_def writable_def live_pipe_get p'_def word_neq_0_conv)
  then have "pipe_write_loop me i buf sent others s =
       (case others of [] \<Rightarrow> None | other # rest \<Rightarrow> pipe_write_loop me i buf sent rest (other s'))"
    using t(1) w(3) by (subst pipe_write_loop.simps) (simp add: s'_def Let_def split: list.split)
  with w' l t(3,4) show thesis
    by (intro that [of s' p']) (simp_all add: p'_def pipe_contents_def same_ends_def)
qed

text \<open>Other tasks that keep the read end open and leave room in the pipe.\<close>

definition drains :: "nat \<Rightarrow> (PipeState \<Rightarrow> PipeState) list \<Rightarrow> bool" where
  "drains i others \<longleftrightarrow> (\<forall>other\<in>set others. \<forall>t q. writable i t q \<longrightarrow>
     (\<exists>q'. writable i (other t) q' \<and> plen q' < PIPE_BUFFER))"

lemma drains_subset: "drains i others \<Longrightarrow> set os \<subseteq> set others \<Longrightarrow> drains i os"
  by (auto simp: drains_def)


text \<open>
  C25: A partial write is reported as a failure. When a write larger than the room in the pipe
  blocks and the last reader closes its end meanwhile, the caller gets \<open>Closed\<close>, although the
  pipe had accepted part of its bytes; the branch of \<open>write\<close> that was to report their number
  is never taken.
\<close>

theorem pipe_partial_write_lost:
  assumes w: "writable i s p" and r: "readers p = 1" "writers p \<noteq> 0"
    and k: "k = PIPE_BUFFER - plen p" "0 < k" "k < length buf"
  shows "\<exists>s' q. pipe_write me i buf [close_reader i] s = Some (Inl Closed, s') \<and>
    get_pipe i s' = Some q \<and> pipe_contents q = pipe_contents p @ take k buf"
proof -
  have room: "plen p < PIPE_BUFFER" "0 < length buf" using k by auto
  obtain s1 p1 n where s1: "0 < n" "writable i s1 p1" "n = min (length buf - 0) (PIPE_BUFFER - plen p)"
    "plen p1 = plen p + n" "pipe_contents p1 = pipe_contents p @ take n (drop 0 buf)"
    "writers p1 = writers p" "readers p1 = readers p"
    "pipe_write_loop me i buf 0 [close_reader i] s = (if 0 + n = length buf then Some (Inr (length buf), s1)
       else pipe_write_loop me i buf (0 + n) [close_reader i] s1)"
    using write_loop_room [OF w room, of me "[close_reader i]"] by metis
  have n: "n = k" using s1(3) k by simp
  have full: "plen p1 = PIPE_BUFFER" using s1(4) n k by simp
  obtain s2 p2 where s2: "writable i s2 p2" "pipe_contents p2 = pipe_contents p1" "readers p2 = readers p1"
    "writers p2 = writers p1"
    "pipe_write_loop me i buf k [close_reader i] s1 = pipe_write_loop me i buf k [] (close_reader i s2)"
    by (rule write_loop_full [OF s1(2) full k(3), of me "[close_reader i]"]) simp
  define q where "q = p2\<lparr>readers := 0, write_waiters := replicate MAX_WAITERS None\<rparr>"
  have "saturating_sub (readers p2) 1 = 0" using s2(3) s1(7) r(1) by (simp add: saturating_sub_def)
  moreover have live: "live_pipe i s2 = Some p2" using s2(1) by (simp add: writable_def)
  moreover have "get_pipe i s2 = Some p2" "occupied p2" using live by (simp_all add: live_pipe_get)
  ultimately have q: "get_pipe i (close_reader i s2) = Some q" "occupied q"
    using s2(4) s1(6) r(2) get_pipe_bound [of i s2 p2] by (simp_all add: close_reader_def drop_if_unused_def q_def)
  have "pipe_write_loop me i buf k [] (close_reader i s2) = Some (Inl Closed, close_reader i s2)"
    using q k(3) by (subst pipe_write_loop.simps) (simp add: try_write_def q_def)
  moreover have "pipe_contents q = pipe_contents p @ take k buf"
    using s2(2) s1(5) n by (simp add: q_def pipe_contents_def)
  ultimately show ?thesis using s1(8) s2(5) n k q(1) by (auto simp: pipe_write_def)
qed

text \<open>
  C24: A read takes what is there. On a live pipe with data a read returns at once with the
  oldest bytes, as many as fit its buffer, removes exactly these, and wakes every task waiting to
  write; on an empty pipe it returns end of file once no write end is open, and otherwise waits:
  it registers its task and continues with the state the other tasks leave. A pipe that is not
  live gives \<open>Invalid\<close>.
\<close>

theorem pipe_read_correct:
  assumes "0 < len" "\<And>q. get_pipe i s = Some q \<Longrightarrow> pipe_wf q"
  shows "pipe_read me i len others s =
    (case live_pipe i s of
       None \<Rightarrow> Some (Inl Invalid, s)
     | Some p \<Rightarrow>
         if pipe_contents p \<noteq> []
         then Some (Inr (take len (pipe_contents p)), wake_writers i (set_pipe i (snd (read_out len p)) s))
         else if writers p = 0 then Some (Inr [], s)
         else (case others of [] \<Rightarrow> None
               | other # rest \<Rightarrow> pipe_read me i len rest (other (wait_to_read me i s))))"
proof (cases "live_pipe i s")
  case None
  then have "try_read i len s = (Inl Invalid, s)"
    by (auto simp: try_read_def live_pipe_def split: option.splits if_splits)
  with None assms(1) show ?thesis by (simp add: pipe_read_def pipe_read_loop.simps)
next
  case (Some p)
  then have p: "get_pipe i s = Some p" "occupied p" "pipe_wf p" using assms(2) by (simp_all add: live_pipe_get)
  have nil: "pipe_contents p = [] \<longleftrightarrow> plen p = 0" by (metis length_0_conv length_pipe_contents)
  show ?thesis
  proof (cases "plen p = 0")
    case True
    then have t: "try_read i len s = (Inr ([], writers p \<noteq> 0, writers p = 0), s)"
      using p by (simp add: try_read_def)
    have "writers p \<noteq> 0 \<Longrightarrow> read_still_blocks i (wait_to_read me i s)"
      using p True get_pipe_bound [OF p(1)] by (simp add: read_still_blocks_def wait_to_read_def word_neq_0_conv)
    with t nil True Some assms(1) show ?thesis
      by (simp add: pipe_read_def pipe_read_loop.simps [of me i len others s] split: list.split)
  next
    case False
    obtain bs p' where r: "read_out len p = (bs, p')" by force
    note ok = read_out_ok [OF p(3) r]
    have "bs \<noteq> []" using ok(2) False nil assms(1) by simp
    then show ?thesis using r p False nil Some assms(1) ok(2)
      by (simp add: pipe_read_def pipe_read_loop.simps try_read_def)
  qed
qed

abbreviation fresh_pipe :: Pipe where
  "fresh_pipe \<equiv> pipe_empty\<lparr>readers := 1, writers := 1, occupied := True\<rparr>"

lemma fresh_pipe_wf: "pipe_wf fresh_pipe" "pipe_contents fresh_pipe = []" "plen fresh_pipe = 0"
  using pipe.wf_fresh pipe.contents_fresh by (simp_all add: wf_simps pipe_contents_def pipe_empty_def)

lemma close_writer_live:
  assumes "live_pipe i s = Some p" "readers p \<noteq> 0"
  shows "live_pipe i (close_writer i s) =
    Some (p\<lparr>writers := saturating_sub (writers p) 1, read_waiters := replicate MAX_WAITERS None\<rparr>)"
proof -
  have "get_pipe i s = Some p" "occupied p" using assms(1) by (simp_all add: live_pipe_get)
  moreover have "close_writer i s = wake_list (read_waiters p) (set_pipe i (p\<lparr>writers := saturating_sub (writers p) 1,
      read_waiters := replicate MAX_WAITERS None\<rparr>) s)"
    using assms by (simp add: close_writer_def drop_if_unused_def)
  ultimately show ?thesis using get_pipe_bound [of i s p] by (simp add: live_pipe_get)
qed

text \<open>
  C26: The self test passes. While a slot of the table is free, the boot-time test of the pipes
  succeeds: it creates a pipe, reads back what it wrote and sees the end of file after closing
  the write end.
\<close>

theorem pipe_self_test_passes:
  assumes "p \<in> set (pipes s)" "\<not> occupied p"
  shows "\<exists>s'. pipe_self_test me s = Some (True, s')"
proof -
  obtain i where i: "position (\<lambda>p. \<not> occupied p) (pipes s) = Some i"
    using position_exists [of p "pipes s" "\<lambda>p. \<not> occupied p"] assms by blast
  define s1 where "s1 = set_pipe i fresh_pipe s"
  have c: "pipe_create s = (Inr i, s1)" using i by (simp add: pipe_create_def pipe_alloc_def s1_def)
  have wr: "writable i s1 fresh_pipe"
    using position_SomeD(1) [OF i] fresh_pipe_wf by (simp add: writable_def live_pipe_get s1_def)
  have len: "length (ascii ''blocking-pipe-test'') = 18" by (simp add: ascii_def)
  have room: "plen fresh_pipe < PIPE_BUFFER" "0 < length (ascii ''blocking-pipe-test'')"
    using fresh_pipe_wf(3) len by (simp_all add: PIPE_BUFFER_def)
  obtain s2 p2 n where w: "writable i s2 p2" "n = min (length (ascii ''blocking-pipe-test'') - 0) (PIPE_BUFFER - plen fresh_pipe)"
      "pipe_contents p2 = pipe_contents fresh_pipe @ take n (drop 0 (ascii ''blocking-pipe-test''))"
      "readers p2 = readers fresh_pipe" "writers p2 = writers fresh_pipe"
      "pipe_write_loop me i (ascii ''blocking-pipe-test'') 0 [] s1 =
        (if 0 + n = length (ascii ''blocking-pipe-test'') then Some (Inr (length (ascii ''blocking-pipe-test'')), s2)
         else pipe_write_loop me i (ascii ''blocking-pipe-test'') (0 + n) [] s2)"
    using write_loop_room [OF wr room, of me "[]"] by metis
  have n: "n = 18" using w(2) len fresh_pipe_wf(3) by (simp add: PIPE_BUFFER_def)
  have w': "pipe_contents p2 = ascii ''blocking-pipe-test''" "readers p2 = 1" "writers p2 = 1"
      "pipe_write_loop me i (ascii ''blocking-pipe-test'') 0 [] s1 = Some (Inr 18, s2)"
    using w(3-6) fresh_pipe_wf(2) len n by simp_all
  have p2: "live_pipe i s2 = Some p2" "get_pipe i s2 = Some p2" "pipe_wf p2"
    using w(1) by (simp_all add: writable_def live_pipe_get)
  obtain p3 where p3: "read_out 32 p2 = (ascii ''blocking-pipe-test'', p3)" "pipe_wf p3" "pipe_contents p3 = []"
      "readers p3 = 1" "writers p3 = 1" "occupied p3"
    using read_out_ok [OF p2(3), of 32] read_out_ends [of 32 p2] w'(1-3) len p2(1)
    by (cases "read_out 32 p2") (simp add: same_ends_def live_pipe_get)
  define s3 where "s3 = wake_writers i (set_pipe i p3 s2)"
  have r: "pipe_read me i 32 [] s2 = Some (Inr (ascii ''blocking-pipe-test''), s3)"
    using pipe_read_correct [of 32 i s2 me "[]"] p2(1,2,3) w'(1) p3(1) len by (auto simp: s3_def)
  have "live_pipe i s3 = Some (p3\<lparr>write_waiters := replicate MAX_WAITERS None\<rparr>)"
    using p3(6) get_pipe_bound [OF p2(2)] by (simp add: s3_def wake_writers_def live_pipe_get)
  from close_writer_live [OF this] p3(4,5)
  have l: "live_pipe i (close_writer i s3) = Some (p3\<lparr>write_waiters := replicate MAX_WAITERS None, writers := 0,
      read_waiters := replicate MAX_WAITERS None\<rparr>)" by (simp add: saturating_sub_def)
  have "get_pipe i (close_writer i s3) = Some q \<Longrightarrow> pipe_wf q" for q
    using l p3(2) by (simp add: live_pipe_get wf_simps)
  then have "pipe_read me i 32 [] (close_writer i s3) = Some (Inr [], close_writer i s3)"
    using pipe_read_correct [of 32 i "close_writer i s3" me "[]"] l p3(3) by (simp add: pipe_contents_def)
  with c w'(4) r len show ?thesis by (simp add: pipe_self_test_def pipe_write_def ascii_def)
qed

text \<open>Instance: the table at boot.\<close>

theorem pipe_self_test_passes_witness: "\<exists>s'. pipe_self_test 7 table_new = Some (True, s')"
  using pipe_self_test_passes [of pipe_empty table_new 7]
  by (simp add: table_new_def MAX_PIPES_def pipe_empty_def)

section \<open>Instances\<close>

text \<open>A table with one fresh pipe.\<close>

definition one_pipe :: PipeState where
  "one_pipe = set_pipe 0 (pipe_empty\<lparr>readers := 1, writers := 1, occupied := True\<rparr>) table_new"

lemma one_pipe_created: "pipe_create table_new = (Inr 0, one_pipe)"
  by (simp add: pipe_create_def pipe_alloc_def one_pipe_def table_new_def MAX_PIPES_def pipe_empty_def numeral_eq_Suc)

lemma one_pipe_get: "get_pipe 0 one_pipe = Some fresh_pipe"
  by (simp add: one_pipe_def table_new_def MAX_PIPES_def)

lemma one_pipe_writable: "writable 0 one_pipe fresh_pipe"
  using one_pipe_get fresh_pipe_wf by (simp add: writable_def live_pipe_get)

theorem pipe_delivery_fifo_witness:
  "pipe_history one_pipe (\<lambda>i. []) (\<lambda>i. []) \<and> live_pipe 0 one_pipe = Some fresh_pipe \<and>
   length (pipe_contents fresh_pipe) \<le> PIPE_BUFFER"
proof -
  have h: "pipe_history one_pipe (\<lambda>i. []) (\<lambda>i. [])"
    using pipe_history.create [OF pipe_history.boot one_pipe_created] by (simp add: fun_upd_def)
  have l: "live_pipe 0 one_pipe = Some fresh_pipe" using one_pipe_get by (simp add: live_pipe_get)
  from h l pipe_delivery_fifo [OF h l] show ?thesis by blast
qed


theorem pipe_partial_write_lost_witness:
  "\<exists>s' q. pipe_write 7 0 (replicate 3000 1) [close_reader 0] one_pipe = Some (Inl Closed, s') \<and>
    get_pipe 0 s' = Some q \<and> pipe_contents q = replicate 2048 1"
  using pipe_partial_write_lost [OF one_pipe_writable, of 2048 "replicate 3000 1" 7] fresh_pipe_wf
  by (auto simp: PIPE_BUFFER_def)

theorem pipe_read_correct_witness:
  "pipe_read 7 0 16 [] (close_writer 0 one_pipe) = Some (Inr [], close_writer 0 one_pipe)"
proof -
  have g: "get_pipe 0 (close_writer 0 one_pipe) = Some (fresh_pipe\<lparr>writers := 0, read_waiters := replicate MAX_WAITERS None\<rparr>)"
    using one_pipe_get get_pipe_bound [OF one_pipe_get]
    by (simp add: close_writer_def live_pipe_def drop_if_unused_def saturating_sub_def)
  let ?p = "fresh_pipe\<lparr>writers := 0, read_waiters := replicate MAX_WAITERS None\<rparr>"
  have wf: "pipe_wf ?p" "pipe_contents ?p = []" using fresh_pipe_wf by (simp_all add: wf_simps pipe_contents_def)
  have "live_pipe 0 (close_writer 0 one_pipe) = Some ?p" using g by (simp add: live_pipe_get)
  with wf g pipe_read_correct [of 16 0 "close_writer 0 one_pipe" 7 "[]"] show ?thesis by simp
qed

end
