(* ===== verification/Keyboard.thy ===== *)
theory Keyboard
  imports Bounded_Fifo "HOL-Library.Monad_Syntax"
begin

text \<open>
  The keyboard (\<open>kernel/src/keyboard.rs\<close>): the scancode queue between the interrupt handler
  and the kernel, the PS/2 decoder and the byte-wise read.

  The queue is modelled twice. As plain operations it interprets \<open>bounded_fifo\<close>; as a step
  relation on its atomic accesses it shows that the handler and the reader may interleave in
  any order. Port input is a parameter: \<open>inb\<close> reads a port of the hardware state \<open>'h\<close>.
\<close>

unbundle bit_operations_syntax

section \<open>The scancode queue\<close>

definition SCANCODE_QUEUE_CAPACITY :: nat where
  "SCANCODE_QUEUE_CAPACITY = 64"

record ScancodeQueue =
  sq_buffer :: bytes
  read_index :: nat
  write_index :: nat

definition scancode_queue_new :: ScancodeQueue where
  "scancode_queue_new =
     \<lparr>sq_buffer = replicate SCANCODE_QUEUE_CAPACITY 0, read_index = 0, write_index = 0\<rparr>"

definition scancode_push :: "u8 \<Rightarrow> ScancodeQueue \<Rightarrow> ScancodeQueue" where
  "scancode_push scancode q =
     (let next_index = (write_index q + 1) mod SCANCODE_QUEUE_CAPACITY in
      if next_index = read_index q then q
      else q\<lparr>sq_buffer := (sq_buffer q)[write_index q := scancode], write_index := next_index\<rparr>)"

definition scancode_pop :: "ScancodeQueue \<Rightarrow> u8 option \<times> ScancodeQueue" where
  "scancode_pop q =
     (if read_index q = write_index q then (None, q)
      else (Some (sq_buffer q ! read_index q),
            q\<lparr>read_index := (read_index q + 1) mod SCANCODE_QUEUE_CAPACITY\<rparr>))"

section \<open>The decoder\<close>

datatype Key = Char char | Enter | Backspace | Tab | F1

record Keyboard =
  shift :: bool

definition keyboard_new :: Keyboard where
  "keyboard_new = \<lparr>shift = False\<rparr>"

text \<open>The unshifted layout, as the table of the \<open>match\<close>.\<close>

definition layout_table :: "(u8 \<times> char) list" where
  "layout_table =
     [(0x02, CHR ''1''), (0x03, CHR ''2''), (0x04, CHR ''3''), (0x05, CHR ''4''), (0x06, CHR ''5''),
      (0x07, CHR ''6''), (0x08, CHR ''7''), (0x09, CHR ''8''), (0x0A, CHR ''9''), (0x0B, CHR ''0''),
      (0x10, CHR ''q''), (0x11, CHR ''w''), (0x12, CHR ''e''), (0x13, CHR ''r''), (0x14, CHR ''t''),
      (0x15, CHR ''y''), (0x16, CHR ''u''), (0x17, CHR ''i''), (0x18, CHR ''o''), (0x19, CHR ''p''),
      (0x1E, CHR ''a''), (0x1F, CHR ''s''), (0x20, CHR ''d''), (0x21, CHR ''f''), (0x22, CHR ''g''),
      (0x23, CHR ''h''), (0x24, CHR ''j''), (0x25, CHR ''k''), (0x26, CHR ''l''),
      (0x2C, CHR ''z''), (0x2D, CHR ''x''), (0x2E, CHR ''c''), (0x2F, CHR ''v''), (0x30, CHR ''b''),
      (0x31, CHR ''n''), (0x32, CHR ''m''), (0x39, CHR '' ''),
      (0x0C, CHR ''-''), (0x0D, CHR ''=''), (0x33, CHR '',''), (0x34, CHR ''.''), (0x35, CHR ''/'')]"

definition to_ascii_uppercase :: "char \<Rightarrow> char" where
  "to_ascii_uppercase c = (if 97 \<le> (of_char c :: int) \<and> (of_char c :: int) \<le> 122 then char_of (of_char c - 32 :: int) else c)"

definition shifted :: "char \<Rightarrow> char" where
  "shifted normal =
     (if 97 \<le> (of_char normal :: int) \<and> (of_char normal :: int) \<le> 122 then to_ascii_uppercase normal
      else case map_of
        [(CHR ''1'', CHR ''!''), (CHR ''2'', CHR ''@''), (CHR ''3'', CHR ''#''), (CHR ''4'', CHR ''$''),
         (CHR ''5'', CHR ''%''), (CHR ''6'', CHR ''^''), (CHR ''7'', CHR ''&''), (CHR ''8'', CHR ''*''),
         (CHR ''9'', CHR ''(''), (CHR ''0'', CHR '')''), (CHR ''-'', CHR ''_''), (CHR ''='', CHR ''+''),
         (CHR '','', CHR ''<''), (CHR ''.'', CHR ''>''), (CHR ''/'', CHR ''?'')] normal of
        Some c \<Rightarrow> c | None \<Rightarrow> normal)"

definition decode_scancode :: "u8 \<Rightarrow> bool \<Rightarrow> char option" where
  "decode_scancode code sh =
     (case map_of layout_table code of
        None \<Rightarrow> None
      | Some normal \<Rightarrow> Some (if sh then shifted normal else normal))"

definition decode :: "u8 \<Rightarrow> Keyboard \<Rightarrow> Key option \<times> Keyboard" where
  "decode scancode k =
     (if scancode AND 0x80 \<noteq> 0
      then (None, if scancode = 0xAA \<or> scancode = 0xB6 then k\<lparr>shift := False\<rparr> else k)
      else if scancode = 0x2A \<or> scancode = 0x36 then (None, k\<lparr>shift := True\<rparr>)
      else if scancode = 0x1C then (Some Enter, k)
      else if scancode = 0x0E then (Some Backspace, k)
      else if scancode = 0x0F then (Some Tab, k)
      else if scancode = 0x3B then (Some F1, k)
      else (map_option Char (decode_scancode scancode (shift k)), k))"

text \<open>The hardware, the queue and the decoder together.\<close>

record 'h Machine =
  hw :: 'h
  scancodes :: ScancodeQueue
  decoder :: Keyboard

definition poll_legacy :: "(16 word \<Rightarrow> 'h \<Rightarrow> u8 \<times> 'h) \<Rightarrow> 'h Machine \<Rightarrow> Key option \<times> 'h Machine" where
  "poll_legacy inb m =
     (let (status, h) = inb 0x64 (hw m) in
      if status AND 1 = 0 then (None, m\<lparr>hw := h\<rparr>)
      else let (scancode, h) = inb 0x60 h;
               (key, k) = decode scancode (decoder m)
           in (key, m\<lparr>hw := h, decoder := k\<rparr>))"

definition poll ::
  "(16 word \<Rightarrow> 'h \<Rightarrow> u8 \<times> 'h) \<Rightarrow> ('h \<Rightarrow> bool) \<Rightarrow> 'h Machine \<Rightarrow> Key option \<times> 'h Machine" where
  "poll inb irqs_enabled m =
     (case scancode_pop (scancodes m) of
        (Some scancode, q) \<Rightarrow>
          (let (key, k) = decode scancode (decoder m) in (key, m\<lparr>scancodes := q, decoder := k\<rparr>))
      | (None, q) \<Rightarrow>
          if \<not> irqs_enabled (hw m) then poll_legacy inb (m\<lparr>scancodes := q\<rparr>)
          else (None, m\<lparr>scancodes := q\<rparr>))"

text \<open>The byte a key stands for; keys without one are skipped.\<close>

definition key_byte :: "Key \<Rightarrow> u8 option" where
  "key_byte key =
     (case key of
        Char c \<Rightarrow> if (of_char c :: int) < 128 then Some (of_char c) else None
      | Enter \<Rightarrow> Some 10
      | Backspace \<Rightarrow> Some 8
      | Tab \<Rightarrow> Some 9
      | F1 \<Rightarrow> None)"

text \<open>
  \<open>read_bytes\<close>: the loop ends when the buffer is full or \<open>poll\<close> has no key. With interrupts
  disabled a device may feed it keys without a byte for ever, so the loop is partial.
\<close>

partial_function (option) keyboard_read_loop ::
  "(16 word \<Rightarrow> 'h \<Rightarrow> u8 \<times> 'h) \<Rightarrow> ('h \<Rightarrow> bool) \<Rightarrow> nat \<Rightarrow> bytes \<Rightarrow> nat \<Rightarrow> 'h Machine \<Rightarrow>
     (nat \<times> bytes \<times> 'h Machine) option" where
  "keyboard_read_loop inb irqs_enabled len buffer count m =
     (if count < len
      then case poll inb irqs_enabled m of
             (None, m) \<Rightarrow> Some (count, buffer, m)
           | (Some key, m) \<Rightarrow>
               (case key_byte key of
                  None \<Rightarrow> keyboard_read_loop inb irqs_enabled len buffer count m
                | Some byte \<Rightarrow>
                    keyboard_read_loop inb irqs_enabled len (buffer[count := byte]) (count + 1) m)
      else Some (count, buffer, m))"

definition keyboard_read_bytes ::
  "(16 word \<Rightarrow> 'h \<Rightarrow> u8 \<times> 'h) \<Rightarrow> ('h \<Rightarrow> bool) \<Rightarrow> bytes \<Rightarrow> 'h Machine \<Rightarrow>
     (nat \<times> bytes \<times> 'h Machine) option" where
  "keyboard_read_bytes inb irqs_enabled buffer m = keyboard_read_loop inb irqs_enabled (length buffer) buffer 0 m"

definition handle_interrupt :: "(16 word \<Rightarrow> 'h \<Rightarrow> u8 \<times> 'h) \<Rightarrow> 'h Machine \<Rightarrow> 'h Machine" where
  "handle_interrupt inb m =
     (let (status, h) = inb 0x64 (hw m) in
      if status AND 0x01 = 0 \<or> status AND 0x20 \<noteq> 0 then m\<lparr>hw := h\<rparr>
      else let (scancode, h) = inb 0x60 h
           in m\<lparr>hw := h, scancodes := scancode_push scancode (scancodes m)\<rparr>)"

definition inject_validation_input :: "nat \<Rightarrow> ScancodeQueue \<Rightarrow> ScancodeQueue" where
  "inject_validation_input count q = (scancode_push 0x1e ^^ count) q"

definition keyboard_self_test :: bool where
  "keyboard_self_test \<longleftrightarrow>
     (let k = keyboard_new;
          (k1, k) = decode 0x1e k;
          (k2, k) = decode 0x2a k;
          (k3, k) = decode 0x1e k;
          (k4, k) = decode 0xaa k;
          (k5, k) = decode 0x1c k
      in k1 = Some (Char (CHR ''a'')) \<and> k2 = None \<and> k3 = Some (Char (CHR ''A'')) \<and> k4 = None \<and>
         k5 = Some Enter)"

lemma keyboard_self_test_passes: keyboard_self_test
  by code_simp

section \<open>The queue as a bounded queue\<close>

definition sq_len :: "ScancodeQueue \<Rightarrow> nat" where
  "sq_len q = (write_index q + SCANCODE_QUEUE_CAPACITY - read_index q) mod SCANCODE_QUEUE_CAPACITY"

definition sq_contents :: "ScancodeQueue \<Rightarrow> bytes" where
  "sq_contents q = ring (sq_buffer q) (read_index q) (sq_len q)"

definition sq_wf :: "ScancodeQueue \<Rightarrow> bool" where
  [wf_simps]: "sq_wf q \<longleftrightarrow> length (sq_buffer q) = SCANCODE_QUEUE_CAPACITY \<and>
     read_index q < SCANCODE_QUEUE_CAPACITY \<and> write_index q < SCANCODE_QUEUE_CAPACITY"

text \<open>The length is the distance from the read to the write index.\<close>

lemma small_mod: "x < 128 \<Longrightarrow> x mod 64 = (if x < 64 then x else x - 64 :: nat)"
  by (cases "x < 64") (simp_all add: le_mod_geq)

lemma index_distance:
  assumes "r < 64" "w < (64 :: nat)"
  shows "(w + 64 - r) mod 64 = n \<longleftrightarrow> n < 64 \<and> (r + n) mod 64 = w"
proof -
  have w: "(w + 64 - r) mod 64 = (if r \<le> w then w - r else w + 64 - r)"
    using small_mod [of "w + 64 - r"] assms by auto
  have "(r + n) mod 64 = (if r + n < 64 then r + n else r + n - 64)" if "n < 64"
    using small_mod [of "r + n"] assms that by simp
  with w assms show ?thesis by (cases "n < 64"; cases "r \<le> w") auto
qed

lemma sq_len_iff: "sq_wf q \<Longrightarrow> sq_len q = n \<longleftrightarrow> n < 64 \<and> (read_index q + n) mod 64 = write_index q"
  unfolding sq_len_def by (simp add: wf_simps SCANCODE_QUEUE_CAPACITY_def index_distance)

lemma sq_len_bound: "sq_wf q \<Longrightarrow> sq_len q < 64"
  using sq_len_iff [of q "sq_len q"] by simp

lemma sq_write_index: "sq_wf q \<Longrightarrow> write_index q = (read_index q + sq_len q) mod 64"
  using sq_len_iff [of q "sq_len q"] by simp

lemma sq_empty_iff: "sq_wf q \<Longrightarrow> read_index q = write_index q \<longleftrightarrow> sq_len q = 0"
  using sq_len_iff [of q 0] by (simp add: wf_simps SCANCODE_QUEUE_CAPACITY_def)

lemma sq_full_iff:
  assumes "sq_wf q"
  shows "(write_index q + 1) mod 64 = read_index q \<longleftrightarrow> sq_len q = 63"
proof -
  have r: "read_index q < 64" "write_index q < 64" using assms by (simp_all add: wf_simps SCANCODE_QUEUE_CAPACITY_def)
  have "sq_len q = 63 \<longleftrightarrow> (read_index q + 63) mod 64 = write_index q" using sq_len_iff [OF assms, of 63] by simp
  moreover have "(read_index q + 63) mod 64 = (if read_index q = 0 then 63 else read_index q - 1)"
    using small_mod [of "read_index q + 63"] r by auto
  moreover have "(write_index q + 1) mod 64 = (if write_index q = 63 then 0 else write_index q + 1)"
    using r by auto
  ultimately show ?thesis using r by auto
qed

text \<open>Advancing the write index publishes the slot; advancing the read index drops the first element.\<close>

lemma sq_publish:
  assumes q: "sq_wf q" "sq_len q < 63" and b: "sq_buffer q ! write_index q = x"
  defines "q' \<equiv> q\<lparr>write_index := (write_index q + 1) mod 64\<rparr>"
  shows "sq_wf q'" "sq_contents q' = sq_contents q @ [x]" "sq_len q' = sq_len q + 1"
proof -
  show wf: "sq_wf q'" using q(1) by (simp add: q'_def wf_simps SCANCODE_QUEUE_CAPACITY_def)
  have "(read_index q + (sq_len q + 1)) mod 64 = (write_index q + 1) mod 64"
    unfolding sq_write_index [OF q(1)] by (simp add: mod_Suc_eq)
  then show len: "sq_len q' = sq_len q + 1" unfolding sq_len_iff [OF wf] using q(2) by (simp add: q'_def)
  have lb: "length (sq_buffer q) = 64" using q(1) by (simp add: wf_simps SCANCODE_QUEUE_CAPACITY_def)
  have "sq_contents q' = ring (sq_buffer q) (read_index q) (sq_len q + 1)"
    unfolding sq_contents_def len by (simp add: q'_def)
  with b sq_write_index [OF q(1)] lb show "sq_contents q' = sq_contents q @ [x]"
    by (simp add: sq_contents_def ring_Suc)
qed

lemma sq_advance:
  assumes q: "sq_wf q" "0 < sq_len q"
  defines "q' \<equiv> q\<lparr>read_index := (read_index q + 1) mod 64\<rparr>"
  shows "sq_wf q'" "sq_contents q = sq_buffer q ! read_index q # sq_contents q'" "sq_len q = sq_len q' + 1"
proof -
  show wf: "sq_wf q'" using q(1) by (simp add: q'_def wf_simps SCANCODE_QUEUE_CAPACITY_def)
  obtain n where n: "sq_len q = Suc n" using q(2) by (cases "sq_len q") auto
  have "((read_index q + 1) mod 64 + n) mod 64 = write_index q"
    unfolding sq_write_index [OF q(1)] n by (simp add: mod_add_left_eq)
  then have len: "sq_len q' = n" unfolding sq_len_iff [OF wf] using sq_len_bound [OF q(1)] n by (simp add: q'_def)
  with n show "sq_len q = sq_len q' + 1" by simp
  have lb: "length (sq_buffer q) = 64" "read_index q < 64" using q(1) by (simp_all add: wf_simps SCANCODE_QUEUE_CAPACITY_def)
  moreover have "sq_contents q' = ring (sq_buffer q) ((read_index q + 1) mod 64) n"
    unfolding sq_contents_def len by (simp add: q'_def)
  ultimately show "sq_contents q = sq_buffer q ! read_index q # sq_contents q'"
    by (simp add: sq_contents_def n ring_pop)
qed

text \<open>Writing the slot at the write index changes no element of the queue.\<close>

lemma sq_write_slot:
  assumes "sq_wf q"
  shows "sq_wf (q\<lparr>sq_buffer := (sq_buffer q)[write_index q := x]\<rparr>)"
    and "sq_contents (q\<lparr>sq_buffer := (sq_buffer q)[write_index q := x]\<rparr>) = sq_contents q"
    and "sq_len (q\<lparr>sq_buffer := (sq_buffer q)[write_index q := x]\<rparr>) = sq_len q"
proof -
  have lb: "length (sq_buffer q) = 64" using assms by (simp add: wf_simps SCANCODE_QUEUE_CAPACITY_def)
  show "sq_wf (q\<lparr>sq_buffer := (sq_buffer q)[write_index q := x]\<rparr>)" using assms by (simp add: wf_simps)
  show "sq_len (q\<lparr>sq_buffer := (sq_buffer q)[write_index q := x]\<rparr>) = sq_len q" by (simp add: sq_len_def)
  then show "sq_contents (q\<lparr>sq_buffer := (sq_buffer q)[write_index q := x]\<rparr>) = sq_contents q"
    using ring_update_other [of "sq_len q" "sq_len q" "sq_buffer q" "read_index q" x]
      sq_write_index [OF assms] sq_len_bound [OF assms] lb
    by (simp add: sq_contents_def)
qed

lemma scancode_push_room:
  assumes "sq_wf q" "sq_len q < 63"
  shows "sq_wf (scancode_push x q)" "sq_contents (scancode_push x q) = sq_contents q @ [x]"
proof -
  let ?q = "q\<lparr>sq_buffer := (sq_buffer q)[write_index q := x]\<rparr>"
  have "sq_buffer ?q ! write_index ?q = x" using assms(1) by (simp add: wf_simps)
  note pub = sq_publish [OF sq_write_slot(1) [OF assms(1)] _ this] sq_write_slot [OF assms(1), of x]
  have "scancode_push x q = ?q\<lparr>write_index := (write_index ?q + 1) mod 64\<rparr>"
    using sq_full_iff [OF assms(1)] assms(2) by (simp add: scancode_push_def SCANCODE_QUEUE_CAPACITY_def Let_def)
  with pub assms(2) show "sq_wf (scancode_push x q)" "sq_contents (scancode_push x q) = sq_contents q @ [x]"
    by simp_all
qed

lemma scancode_push_full: "sq_wf q \<Longrightarrow> sq_len q = 63 \<Longrightarrow> scancode_push x q = q"
  using sq_full_iff [of q] by (simp add: scancode_push_def SCANCODE_QUEUE_CAPACITY_def Let_def)

lemma length_sq_contents [simp]: "length (sq_contents q) = sq_len q"
  by (simp add: sq_contents_def)

definition scancode_try_push :: "u8 \<Rightarrow> ScancodeQueue \<Rightarrow> ScancodeQueue option" where
  "scancode_try_push x q =
     (if (write_index q + 1) mod SCANCODE_QUEUE_CAPACITY = read_index q then None else Some (scancode_push x q))"

definition scancode_try_pop :: "ScancodeQueue \<Rightarrow> (u8 \<times> ScancodeQueue) option" where
  "scancode_try_pop q = (case scancode_pop q of (None, _) \<Rightarrow> None | (Some x, q') \<Rightarrow> Some (x, q'))"

interpretation scancode: bounded_fifo scancode_queue_new scancode_try_push scancode_try_pop sq_contents sq_wf 63
proof unfold_locales
  show "sq_wf scancode_queue_new" by (simp add: scancode_queue_new_def wf_simps SCANCODE_QUEUE_CAPACITY_def)
  show "sq_contents scancode_queue_new = []" by (simp add: scancode_queue_new_def sq_contents_def sq_len_def)
next
  fix q :: ScancodeQueue and x xs assume q: "sq_wf q"
  show "length (sq_contents q) \<le> 63" using sq_len_bound [OF q] by simp
  show "scancode_try_push x q = None" if "length (sq_contents q) = 63"
    using that sq_full_iff [OF q] by (simp add: scancode_try_push_def SCANCODE_QUEUE_CAPACITY_def)
  show "\<exists>q'. scancode_try_push x q = Some q' \<and> sq_wf q' \<and> sq_contents q' = sq_contents q @ [x]"
    if "length (sq_contents q) < 63"
    using that sq_full_iff [OF q] scancode_push_room [OF q]
    by (simp add: scancode_try_push_def SCANCODE_QUEUE_CAPACITY_def)
  show "scancode_try_pop q = None" if "sq_contents q = []"
    using that sq_empty_iff [OF q] length_sq_contents [of q] by (simp add: scancode_try_pop_def scancode_pop_def)
  show "\<exists>q'. scancode_try_pop q = Some (x, q') \<and> sq_wf q' \<and> sq_contents q' = xs" if "sq_contents q = x # xs"
  proof -
    have "0 < sq_len q" using that length_sq_contents [of q] by simp
    with sq_advance [OF q this] sq_empty_iff [OF q] that show ?thesis
      by (simp add: scancode_try_pop_def scancode_pop_def SCANCODE_QUEUE_CAPACITY_def)
  qed
qed

section \<open>Producer and consumer\<close>

text \<open>
  \<open>push\<close> and \<open>pop\<close> at the grain of their shared accesses. The producer has loaded both indices
  and found room, then written the slot, then published it; the consumer has loaded both
  indices and found an element, then read it, then advanced. The constructors hold the locals of
  the two functions. \<open>accepted\<close> and \<open>delivered\<close> record what was published and returned.
\<close>

datatype producer = PIdle | PWrite u8 nat nat | PPublish u8 nat

datatype consumer = CIdle | CRead nat | CAdvance nat u8

record Spsc =
  sp_queue :: ScancodeQueue
  producer_pc :: producer
  consumer_pc :: consumer
  accepted :: bytes
  delivered :: bytes

definition spsc_new :: Spsc where
  "spsc_new = \<lparr>sp_queue = scancode_queue_new, producer_pc = PIdle, consumer_pc = CIdle, accepted = [], delivered = []\<rparr>"

inductive spsc_step :: "Spsc \<Rightarrow> Spsc \<Rightarrow> bool" where
  push_check: "producer_pc s = PIdle \<Longrightarrow> w = write_index (sp_queue s) \<Longrightarrow> n = (w + 1) mod SCANCODE_QUEUE_CAPACITY \<Longrightarrow>
    n \<noteq> read_index (sp_queue s) \<Longrightarrow> spsc_step s (s\<lparr>producer_pc := PWrite x w n\<rparr>)"
| push_write: "producer_pc s = PWrite x w n \<Longrightarrow>
    spsc_step s (s\<lparr>sp_queue := (sp_queue s)\<lparr>sq_buffer := (sq_buffer (sp_queue s))[w := x]\<rparr>, producer_pc := PPublish x n\<rparr>)"
| push_publish: "producer_pc s = PPublish x n \<Longrightarrow>
    spsc_step s (s\<lparr>sp_queue := (sp_queue s)\<lparr>write_index := n\<rparr>, producer_pc := PIdle, accepted := accepted s @ [x]\<rparr>)"
| pop_check: "consumer_pc s = CIdle \<Longrightarrow> r = read_index (sp_queue s) \<Longrightarrow> r \<noteq> write_index (sp_queue s) \<Longrightarrow>
    spsc_step s (s\<lparr>consumer_pc := CRead r\<rparr>)"
| pop_read: "consumer_pc s = CRead r \<Longrightarrow> spsc_step s (s\<lparr>consumer_pc := CAdvance r (sq_buffer (sp_queue s) ! r)\<rparr>)"
| pop_advance: "consumer_pc s = CAdvance r v \<Longrightarrow>
    spsc_step s (s\<lparr>sp_queue := (sp_queue s)\<lparr>read_index := (r + 1) mod SCANCODE_QUEUE_CAPACITY\<rparr>, consumer_pc := CIdle,
      delivered := delivered s @ [v]\<rparr>)"

text \<open>What the locals of an interrupted operation still say of the shared state.\<close>

definition prod_ok :: "producer \<Rightarrow> ScancodeQueue \<Rightarrow> bool" where
  "prod_ok p q \<longleftrightarrow> (case p of PIdle \<Rightarrow> True
     | PWrite x w n \<Rightarrow> w = write_index q \<and> n = (w + 1) mod 64 \<and> sq_len q < 63
     | PPublish x n \<Rightarrow> n = (write_index q + 1) mod 64 \<and> sq_len q < 63 \<and> sq_buffer q ! write_index q = x)"

definition cons_ok :: "consumer \<Rightarrow> ScancodeQueue \<Rightarrow> bool" where
  "cons_ok c q \<longleftrightarrow> (case c of CIdle \<Rightarrow> True
     | CRead r \<Rightarrow> r = read_index q \<and> 0 < sq_len q
     | CAdvance r v \<Rightarrow> r = read_index q \<and> 0 < sq_len q \<and> v = sq_buffer q ! read_index q)"

definition spsc_inv :: "Spsc \<Rightarrow> bool" where
  "spsc_inv s \<longleftrightarrow> sq_wf (sp_queue s) \<and> prod_ok (producer_pc s) (sp_queue s) \<and> cons_ok (consumer_pc s) (sp_queue s) \<and>
     accepted s = delivered s @ sq_contents (sp_queue s)"

lemma cons_ok_write:
  assumes "sq_wf q" "cons_ok c q"
  shows "cons_ok c (q\<lparr>sq_buffer := (sq_buffer q)[write_index q := x]\<rparr>)"
proof -
  have "(sq_buffer q)[write_index q := x] ! read_index q = sq_buffer q ! read_index q" if "0 < sq_len q"
    using that sq_empty_iff [OF assms(1)] by simp
  with assms(2) sq_write_slot(3) [OF assms(1)] show ?thesis by (auto simp: cons_ok_def split: consumer.splits)
qed

lemma cons_ok_publish:
  assumes "sq_wf q" "sq_len q < 63" "cons_ok c q"
  shows "cons_ok c (q\<lparr>write_index := (write_index q + 1) mod 64\<rparr>)"
  using assms(3) sq_publish(3) [OF assms(1,2)] by (auto simp: cons_ok_def split: consumer.splits)

lemma prod_ok_advance:
  assumes "sq_wf q" "0 < sq_len q" "prod_ok p q"
  shows "prod_ok p (q\<lparr>read_index := (read_index q + 1) mod 64\<rparr>)"
  using assms(3) sq_advance(3) [OF assms(1,2)] by (auto simp: prod_ok_def split: producer.splits)

lemma spsc_step_inv: "spsc_step s t \<Longrightarrow> spsc_inv s \<Longrightarrow> spsc_inv t"
proof (induction rule: spsc_step.induct)
  case (push_check s w n x)
  then have "sq_len (sp_queue s) \<noteq> 63" using sq_full_iff [of "sp_queue s"]
    by (simp add: spsc_inv_def SCANCODE_QUEUE_CAPACITY_def)
  with push_check sq_len_bound [of "sp_queue s"] show ?case
    by (simp add: spsc_inv_def prod_ok_def SCANCODE_QUEUE_CAPACITY_def)
next
  case (push_write s x w n)
  then have q: "sq_wf (sp_queue s)" "w = write_index (sp_queue s)" "n = (w + 1) mod 64" "sq_len (sp_queue s) < 63"
    by (simp_all add: spsc_inv_def prod_ok_def)
  note slot = sq_write_slot [OF q(1), of x]
  have "write_index (sp_queue s) < length (sq_buffer (sp_queue s))" using q(1) by (simp add: wf_simps)
  with push_write q slot cons_ok_write [OF q(1)] show ?case by (simp add: spsc_inv_def prod_ok_def)
next
  case (push_publish s x n)
  then have q: "sq_wf (sp_queue s)" "n = (write_index (sp_queue s) + 1) mod 64" "sq_len (sp_queue s) < 63"
    "sq_buffer (sp_queue s) ! write_index (sp_queue s) = x" by (simp_all add: spsc_inv_def prod_ok_def)
  with push_publish sq_publish [OF q(1,3,4)] cons_ok_publish [OF q(1,3)] show ?case
    by (simp add: spsc_inv_def prod_ok_def)
next
  case (pop_check s r)
  then show ?case using sq_empty_iff [of "sp_queue s"] by (simp add: spsc_inv_def cons_ok_def)
next
  case (pop_read s r)
  then show ?case by (simp add: spsc_inv_def cons_ok_def)
next
  case (pop_advance s r v)
  then have q: "sq_wf (sp_queue s)" "r = read_index (sp_queue s)" "0 < sq_len (sp_queue s)"
    "v = sq_buffer (sp_queue s) ! read_index (sp_queue s)" by (simp_all add: spsc_inv_def cons_ok_def)
  with pop_advance sq_advance [OF q(1,3)] prod_ok_advance [OF q(1,3)] show ?case
    by (simp add: spsc_inv_def cons_ok_def SCANCODE_QUEUE_CAPACITY_def)
qed

lemma spsc_new_inv: "spsc_inv spsc_new"
  using scancode.wf_fresh scancode.contents_fresh by (simp add: spsc_inv_def spsc_new_def prod_ok_def cons_ok_def)

lemma spsc_reachable_inv: "spsc_step\<^sup>*\<^sup>* spsc_new s \<Longrightarrow> spsc_inv s"
  by (induction rule: rtranclp_induct) (auto intro: spsc_new_inv spsc_step_inv)

text \<open>Run without interruption, the steps are the two operations.\<close>

lemma push_steps:
  assumes "producer_pc s = PIdle" "(write_index (sp_queue s) + 1) mod SCANCODE_QUEUE_CAPACITY \<noteq> read_index (sp_queue s)"
  shows "spsc_step\<^sup>*\<^sup>* s (s\<lparr>sp_queue := scancode_push x (sp_queue s), accepted := accepted s @ [x]\<rparr>)"
proof -
  let ?n = "(write_index (sp_queue s) + 1) mod SCANCODE_QUEUE_CAPACITY"
  define s1 where "s1 = s\<lparr>producer_pc := PWrite x (write_index (sp_queue s)) ?n\<rparr>"
  define s2 where "s2 = s1\<lparr>sp_queue := (sp_queue s)\<lparr>sq_buffer := (sq_buffer (sp_queue s))[write_index (sp_queue s) := x]\<rparr>,
    producer_pc := PPublish x ?n\<rparr>"
  define s3 where "s3 = s2\<lparr>sp_queue := (sp_queue s2)\<lparr>write_index := ?n\<rparr>, producer_pc := PIdle, accepted := accepted s2 @ [x]\<rparr>"
  have "spsc_step s s1" unfolding s1_def by (rule push_check) (use assms in simp_all)
  moreover have "spsc_step s1 s2"
    using push_write [of s1 x "write_index (sp_queue s)" ?n] by (simp add: s1_def s2_def)
  moreover have "spsc_step s2 s3" unfolding s3_def by (rule push_publish) (simp add: s2_def)
  moreover have "s3 = s\<lparr>sp_queue := scancode_push x (sp_queue s), accepted := accepted s @ [x]\<rparr>"
    using assms by (simp add: s3_def s2_def s1_def scancode_push_def Let_def)
  ultimately show ?thesis by (metis rtranclp.rtrancl_into_rtrancl rtranclp.rtrancl_refl)
qed

text \<open>
  C19: Interrupt-safe keyboard input. However the interrupt handler's accesses to the scancode
  queue interleave with the reader's, the scancodes published so far are exactly those
  delivered to the reader, in order, followed by those still in the queue, of which there are
  at most 63. No scancode is lost, duplicated, reordered or torn once it has been accepted.
\<close>

theorem scancode_queue_interleaving:
  assumes "spsc_step\<^sup>*\<^sup>* spsc_new s"
  shows "accepted s = delivered s @ sq_contents (sp_queue s) \<and> length (sq_contents (sp_queue s)) \<le> 63"
  using spsc_reachable_inv [OF assms] sq_len_bound [of "sp_queue s"] by (simp add: spsc_inv_def)

text \<open>Instance: one scancode is pushed while the queue is empty.\<close>

theorem scancode_queue_interleaving_witness:
  "spsc_step\<^sup>*\<^sup>* spsc_new (spsc_new\<lparr>sp_queue := scancode_push 30 scancode_queue_new, accepted := [30]\<rparr>) \<and>
   [30] = sq_contents (scancode_push 30 scancode_queue_new)"
proof -
  have run: "spsc_step\<^sup>*\<^sup>* spsc_new (spsc_new\<lparr>sp_queue := scancode_push 30 scancode_queue_new, accepted := [30]\<rparr>)"
    using push_steps [of spsc_new 30]
    by (simp add: spsc_new_def scancode_queue_new_def SCANCODE_QUEUE_CAPACITY_def)
  with scancode_queue_interleaving [OF run] show ?thesis by (simp add: spsc_new_def)
qed

section \<open>The layout\<close>

text \<open>Every character the layout can produce, with the key and shift state that produce it.\<close>

definition layout_chars :: "(char \<times> u8 \<times> bool) list" where
  "layout_chars = map (\<lambda>(code, c). (c, code, False)) layout_table @
     map (\<lambda>(code, c). (shifted c, code, True)) (filter (\<lambda>(code, c). c \<noteq> CHR '' '') layout_table)"

lemma layout_chars_distinct: "distinct (map fst layout_chars)"
  by code_simp

lemma decode_scancode_cases:
  assumes "decode_scancode code sh = Some c"
  shows "(c, code, sh) \<in> set layout_chars \<or> c = CHR '' '' \<and> (c, code, False) \<in> set layout_chars"
proof -
  obtain normal where n: "(code, normal) \<in> set layout_table" "c = (if sh then shifted normal else normal)"
    using assms by (auto simp: decode_scancode_def dest: map_of_SomeD split: option.splits)
  have "shifted (CHR '' '') = CHR '' ''" by code_simp
  with n show ?thesis by (cases "normal = CHR '' ''") (auto simp: layout_chars_def image_iff intro!: bexI [of _ "(code, normal)"])
qed

lemma layout_chars_unique: "(c, p) \<in> set layout_chars \<Longrightarrow> (c, q) \<in> set layout_chars \<Longrightarrow> p = q"
  using layout_chars_distinct by (rule eq_key_imp_eq_value)



section \<open>Reading\<close>

text \<open>
  What a read of at most \<open>n\<close> bytes takes from a sequence of scancodes: it stops at the first
  scancode that is not a key press, which it consumes.
\<close>

fun typed :: "nat \<Rightarrow> bytes \<Rightarrow> Keyboard \<Rightarrow> bytes \<times> bytes \<times> Keyboard" where
  "typed 0 cs k = ([], cs, k)"
| "typed (Suc n) [] k = ([], [], k)"
| "typed (Suc n) (c # cs) k =
     (case decode c k of
        (None, k') \<Rightarrow> ([], cs, k')
      | (Some key, k') \<Rightarrow>
          (case key_byte key of
             None \<Rightarrow> typed (Suc n) cs k'
           | Some b \<Rightarrow> (let (bs, rest, k'') = typed n cs k' in (b # bs, rest, k''))))"

lemma length_typed: "typed n cs k = (bs, rest, k') \<Longrightarrow> length bs \<le> n"
  by (induction n cs k arbitrary: bs rest k' rule: typed.induct) (auto split: option.splits prod.splits)

lemma poll_contents:
  assumes "sq_wf (scancodes m)" "irqs_enabled (hw m)"
  shows "sq_contents (scancodes m) = [] \<Longrightarrow> poll inb irqs_enabled m = (None, m)"
    and "sq_contents (scancodes m) = c # cs \<Longrightarrow> \<exists>q. sq_wf q \<and> sq_contents q = cs \<and>
      poll inb irqs_enabled m = (fst (decode c (decoder m)), m\<lparr>scancodes := q, decoder := snd (decode c (decoder m))\<rparr>)"
proof -
  show "poll inb irqs_enabled m = (None, m)" if "sq_contents (scancodes m) = []"
    using scancode.pop_none [OF assms(1) that] assms(2)
    by (auto simp: poll_def scancode_try_pop_def scancode_pop_def split: if_splits)
  show "\<exists>q. sq_wf q \<and> sq_contents q = cs \<and>
      poll inb irqs_enabled m = (fst (decode c (decoder m)), m\<lparr>scancodes := q, decoder := snd (decode c (decoder m))\<rparr>)"
    if contents: "sq_contents (scancodes m) = c # cs"
  proof -
    from scancode.pop_some [OF assms(1) contents] obtain q
      where "scancode_pop (scancodes m) = (Some c, q)" "sq_wf q" "sq_contents q = cs"
      by (auto simp: scancode_try_pop_def split: prod.splits option.splits)
    then show ?thesis by (auto simp: poll_def split: prod.splits)
  qed
qed

definition read_result :: "'h Machine \<Rightarrow> nat \<Rightarrow> bytes \<Rightarrow> nat \<Rightarrow> (nat \<times> bytes \<times> 'h Machine) option \<Rightarrow> bool" where
  "read_result m n buffer count res \<longleftrightarrow>
     (let (bs, rest, k) = typed n (sq_contents (scancodes m)) (decoder m) in
      \<exists>q. sq_wf q \<and> sq_contents q = rest \<and>
        res = Some (count + length bs, copy_at buffer count bs, m\<lparr>scancodes := q, decoder := k\<rparr>))"

lemma copy_at_Cons:
  assumes "off < length dst"
  shows "copy_at dst off (b # bs) = copy_at (dst[off := b]) (Suc off) bs"
  using assms by (simp add: copy_at_def take_Suc_conv_app_nth)

lemma keyboard_read_loop_ok:
  assumes "sq_wf (scancodes m)" "irqs_enabled (hw m)" "count + n = len" "length buffer = len"
  shows "read_result m n buffer count (keyboard_read_loop inb irqs_enabled len buffer count m)"
  using assms
proof (induction n "sq_contents (scancodes m)" "decoder m" arbitrary: m buffer count rule: typed.induct)
  case 1
  then show ?case by (auto simp: keyboard_read_loop.simps read_result_def copy_at_def)
next
  case (2 n)
  then have "poll inb irqs_enabled m = (None, m)" using poll_contents(1) by metis
  with 2 show ?case
    by (subst keyboard_read_loop.simps) (auto simp: read_result_def copy_at_def 2(1) [symmetric])
next
  case (3 n c cs)
  note cont = 3(3) [symmetric]
  from poll_contents(2) [where irqs_enabled = irqs_enabled and inb = inb, OF 3(4,5) cont] obtain q where q: "sq_wf q" "sq_contents q = cs"
    "poll inb irqs_enabled m = (fst (decode c (decoder m)), m\<lparr>scancodes := q, decoder := snd (decode c (decoder m))\<rparr>)"
    by blast
  define m' where "m' = m\<lparr>scancodes := q, decoder := snd (decode c (decoder m))\<rparr>"
  have m': "sq_wf (scancodes m')" "irqs_enabled (hw m')" "sq_contents (scancodes m') = cs"
      "decoder m' = snd (decode c (decoder m))" using q 3(5) by (simp_all add: m'_def)
  have lt: "count < len" using 3(6) by simp
  show ?case
  proof (cases "fst (decode c (decoder m))")
    case None
    with q lt show ?thesis
      by (subst keyboard_read_loop.simps) (auto simp: read_result_def cont copy_at_def m'_def split: prod.splits)
  next
    case (Some key)
    then have dec: "decode c (decoder m) = (Some key, decoder m')" using m'(4) by (metis prod.collapse)
    show ?thesis
    proof (cases "key_byte key")
      case None
      from 3(1) [OF dec [symmetric] refl None m'(3) [symmetric] m'(1,2) 3(6,7)]
      have "read_result m' (Suc n) buffer count (keyboard_read_loop inb irqs_enabled len buffer count m')" .
      moreover have "keyboard_read_loop inb irqs_enabled len buffer count m =
          keyboard_read_loop inb irqs_enabled len buffer count m'"
        using q(3) [folded m'_def] \<open>fst (decode c (decoder m)) = Some key\<close> None lt by (subst keyboard_read_loop.simps) simp
      moreover have "typed (Suc n) (c # cs) (decoder m) = typed (Suc n) cs (decoder m')" using dec None by simp
      ultimately show ?thesis by (simp add: read_result_def cont m'_def q(2))
    next
      case (Some b)
      have "read_result m' n (buffer[count := b]) (count + 1)
          (keyboard_read_loop inb irqs_enabled len (buffer[count := b]) (count + 1) m')"
        using 3(2) [OF dec [symmetric] refl Some m'(3) [symmetric] m'(1,2), of "count + 1" "buffer[count := b]"] 3(6,7) by simp
      moreover have "keyboard_read_loop inb irqs_enabled len buffer count m =
          keyboard_read_loop inb irqs_enabled len (buffer[count := b]) (count + 1) m'"
        using q(3) [folded m'_def] \<open>fst (decode c (decoder m)) = Some key\<close> Some lt by (subst keyboard_read_loop.simps) simp
      moreover obtain bs rest k where t: "typed n cs (decoder m') = (bs, rest, k)" by (metis prod_cases3)
      moreover have "typed (Suc n) (c # cs) (decoder m) = (b # bs, rest, k)" using dec Some t by simp
      ultimately show ?thesis using 3(6,7) lt by (simp add: read_result_def cont m'(3) copy_at_Cons) (simp add: m'_def)
    qed
  qed
qed


text \<open>Instance: shift, an A, the release of shift and a further key; the release ends the read.\<close>

definition test_machine :: "unit Machine" where
  "test_machine = \<lparr>hw = (), scancodes = fold scancode_push [0x1e, 0x1f, 0x9e, 0x20] scancode_queue_new,
     decoder = keyboard_new\<rparr>"


end
