(* ===== verification/Partition_Table.thy ===== *)
theory Partition_Table
  imports Block
begin

text \<open>
  Partitions (\<open>kernel/src/partition.rs\<close>): the scan of the master boot record for a FAT32
  partition, and \<open>PartitionDevice\<close>, the view of one partition as a block device. The view is
  shown to be a block device again whenever the disk is one, confined to its partition.
\<close>

section \<open>Model\<close>

definition PARTITION_TABLE_OFFSET :: nat where
  "PARTITION_TABLE_OFFSET = 446"

definition PARTITION_ENTRY_SIZE :: nat where
  "PARTITION_ENTRY_SIZE = 16"

definition PARTITION_COUNT :: nat where
  "PARTITION_COUNT = 4"

record Partition =
  start_lba :: u64
  part_sectors :: u64
  kind :: u8

datatype partition_error = BlockFailed block_error | InvalidTable | PartitionOutOfBounds

definition part_read_u32 :: "bytes \<Rightarrow> nat \<Rightarrow> u32" where
  "part_read_u32 bs offset =
     from_le_bytes [bs ! offset, bs ! (offset + 1), bs ! (offset + 2), bs ! (offset + 3)]"

text \<open>The body of the loop over the four entries; \<open>count\<close> is the device's sector count.\<close>

fun find_fat32_loop ::
  "bytes \<Rightarrow> u64 \<Rightarrow> nat list \<Rightarrow> Partition option \<Rightarrow> partition_error + Partition option" where
  "find_fat32_loop sec count [] result = Inr result"
| "find_fat32_loop sec count (index # rest) result =
     (let offset = PARTITION_TABLE_OFFSET + index * PARTITION_ENTRY_SIZE;
          boot = sec ! offset
      in if \<not> (boot = 0 \<or> boot = 0x80) then Inl InvalidTable
      else let knd = sec ! (offset + 4);
               start = ucast (part_read_u32 sec (offset + 8)) :: u64;
               cnt = ucast (part_read_u32 sec (offset + 12)) :: u64
           in if knd = 0 \<and> start = 0 \<and> cnt = 0 then find_fat32_loop sec count rest result
           else case checked_add start cnt of
                  None \<Rightarrow> Inl PartitionOutOfBounds
                | Some fin \<Rightarrow>
                    if start = 0 \<or> cnt = 0 \<or> count < fin then Inl PartitionOutOfBounds
                    else find_fat32_loop sec count rest
                      (if result = None \<and> (knd = 0x0b \<or> knd = 0x0c)
                       then Some \<lparr>start_lba = start, part_sectors = cnt, kind = knd\<rparr>
                       else result))"

definition find_fat32 ::
  "'d BlockDevice \<Rightarrow> 'd \<Rightarrow> (partition_error + Partition option) \<times> 'd" where
  "find_fat32 ops d =
     (case dev_read ops d 0 (replicate SECTOR_SIZE 0) of
        (Inl e, _, d') \<Rightarrow> (Inl (BlockFailed e), d')
      | (Inr _, sec, d') \<Rightarrow>
          if sec ! 510 \<noteq> 0x55 \<or> sec ! 511 \<noteq> 0xaa then (Inr None, d')
          else (find_fat32_loop sec (dev_sector_count ops d') [0..<PARTITION_COUNT] None, d'))"

record 'd PartitionDevice =
  pd_device :: 'd
  pd_partition :: Partition

definition partition_device_new ::
  "'d BlockDevice \<Rightarrow> 'd \<Rightarrow> Partition \<Rightarrow> partition_error + 'd PartitionDevice" where
  "partition_device_new ops d p =
     (case checked_add (start_lba p) (part_sectors p) of
        None \<Rightarrow> Inl PartitionOutOfBounds
      | Some fin \<Rightarrow>
          if start_lba p = 0 \<or> part_sectors p = 0 \<or> dev_sector_count ops d < fin
          then Inl PartitionOutOfBounds
          else Inr \<lparr>pd_device = d, pd_partition = p\<rparr>)"

definition absolute_lba :: "'d PartitionDevice \<Rightarrow> u64 \<Rightarrow> block_error + u64" where
  "absolute_lba pd lba =
     (if part_sectors (pd_partition pd) \<le> lba then Inl OutOfBounds
      else case checked_add (start_lba (pd_partition pd)) lba of
             None \<Rightarrow> Inl OutOfBounds
           | Some a \<Rightarrow> Inr a)"

definition partition_read_sector ::
  "'d BlockDevice \<Rightarrow> 'd PartitionDevice \<Rightarrow> u64 \<Rightarrow> bytes \<Rightarrow>
     (block_error + unit) \<times> bytes \<times> 'd PartitionDevice" where
  "partition_read_sector ops pd lba sec =
     (case absolute_lba pd lba of
        Inl e \<Rightarrow> (Inl e, sec, pd)
      | Inr a \<Rightarrow> (let (r, sec', d') = dev_read ops (pd_device pd) a sec
                  in (r, sec', pd\<lparr>pd_device := d'\<rparr>)))"

definition partition_write_sector ::
  "'d BlockDevice \<Rightarrow> 'd PartitionDevice \<Rightarrow> u64 \<Rightarrow> bytes \<Rightarrow>
     (block_error + unit) \<times> 'd PartitionDevice" where
  "partition_write_sector ops pd lba sec =
     (case absolute_lba pd lba of
        Inl e \<Rightarrow> (Inl e, pd)
      | Inr a \<Rightarrow> (let (r, d') = dev_write ops (pd_device pd) a sec
                  in (r, pd\<lparr>pd_device := d'\<rparr>)))"

definition partition_flush ::
  "'d BlockDevice \<Rightarrow> 'd PartitionDevice \<Rightarrow> (block_error + unit) \<times> 'd PartitionDevice" where
  "partition_flush ops pd =
     (let (r, d') = dev_flush ops (pd_device pd) in (r, pd\<lparr>pd_device := d'\<rparr>))"

definition partition_ops :: "'d BlockDevice \<Rightarrow> 'd PartitionDevice BlockDevice" where
  "partition_ops ops =
     \<lparr>dev_sector_count = (\<lambda>pd. part_sectors (pd_partition pd)),
      dev_is_read_only = (\<lambda>pd. dev_is_read_only ops (pd_device pd)),
      dev_flush = partition_flush ops, dev_read = partition_read_sector ops,
      dev_write = partition_write_sector ops\<rparr>"

text \<open>The boot-time self test; \<open>partition_test_mbr\<close> is the boot record it writes.\<close>

definition partition_test_mbr :: bytes where
  "partition_test_mbr =
     (let mbr = (replicate SECTOR_SIZE 0)[510 := 0x55, 511 := 0xaa, PARTITION_TABLE_OFFSET := 0x80,
            PARTITION_TABLE_OFFSET + 4 := 0x0c]
      in copy_at (copy_at mbr (PARTITION_TABLE_OFFSET + 8) (le_bytes 4 2))
           (PARTITION_TABLE_OFFSET + 12) (le_bytes 4 4))"

definition partition_self_test :: bool where
  "partition_self_test \<longleftrightarrow>
     (case ramdisk_write_sector (ramdisk_new 8) 0 partition_test_mbr of
        (Inl _, _) \<Rightarrow> False
      | (Inr _, disk) \<Rightarrow>
     (case find_fat32 ramdisk_ops disk of
        (Inr (Some p), disk) \<Rightarrow>
          (let data = copy_at (replicate SECTOR_SIZE 0) 0 (ascii ''partition'') in
           case partition_device_new ramdisk_ops disk p of
             Inl _ \<Rightarrow> False
           | Inr view \<Rightarrow>
              (case partition_write_sector ramdisk_ops view 1 data of
                 (Inl _, _) \<Rightarrow> False
               | (Inr _, view) \<Rightarrow>
                  (case partition_read_sector ramdisk_ops view 4 data of
                     (Inr _, _, _) \<Rightarrow> False
                   | (Inl _, _, view) \<Rightarrow>
                      (case ramdisk_read_sector (pd_device view) 3 (replicate SECTOR_SIZE 0) of
                         (Inl _, _, _) \<Rightarrow> False
                       | (Inr _, physical, _) \<Rightarrow>
                           take 9 physical = ascii ''partition'' \<and> start_lba p = 2 \<and>
                           part_sectors p = 4))))
      | _ \<Rightarrow> False))"

lemma partition_self_test_passes: partition_self_test
  by code_simp

section \<open>The view is a block device\<close>

text \<open>What \<open>PartitionDevice::new\<close> has checked of a partition.\<close>

definition partition_fits :: "Partition \<Rightarrow> u64 \<Rightarrow> bool" where
  "partition_fits p count \<longleftrightarrow>
     start_lba p \<noteq> 0 \<and> part_sectors p \<noteq> 0 \<and>
     unat (start_lba p) + unat (part_sectors p) \<le> unat count"

definition in_partition :: "Partition \<Rightarrow> u64 \<Rightarrow> bool" where
  "in_partition p l \<longleftrightarrow> start_lba p \<le> l \<and> unat l < unat (start_lba p) + unat (part_sectors p)"

lemma partition_device_new_iff:
  "partition_device_new ops d p = Inr pd \<longleftrightarrow>
     partition_fits p (dev_sector_count ops d) \<and> pd = \<lparr>pd_device = d, pd_partition = p\<rparr>"
proof (cases "checked_add (start_lba p) (part_sectors p)")
  case None
  then have "\<not> partition_fits p (dev_sector_count ops d)"
    using unsigned_less [of "dev_sector_count ops d", where 'a = nat]
    by (simp add: checked_add_eq_None partition_fits_def)
  with None show ?thesis by (simp add: partition_device_new_def)
next
  case (Some fin)
  from checked_add_Some [OF Some] Some show ?thesis
    by (auto simp: partition_device_new_def partition_fits_def word_less_nat_alt not_less)
qed

lemma absolute_lba_Inr:
  assumes "partition_fits (pd_partition pd) count"
  shows "absolute_lba pd lba = Inr a \<longleftrightarrow>
    lba < part_sectors (pd_partition pd) \<and> a = start_lba (pd_partition pd) + lba"
proof (cases "lba < part_sectors (pd_partition pd)")
  case True
  then have "unat (start_lba (pd_partition pd)) + unat lba < 2 ^ 64"
    using assms unsigned_less [of count, where 'a = nat]
    by (simp add: partition_fits_def word_less_nat_alt)
  with True show ?thesis by (auto simp: absolute_lba_def checked_add_def not_le)
next
  case False
  then show ?thesis by (auto simp: absolute_lba_def not_less)
qed

lemma partition_offset:
  assumes "partition_fits p count" "lba < part_sectors p"
  shows "unat (start_lba p + lba) = unat (start_lba p) + unat lba"
    and "in_partition p (start_lba p + lba)" and "start_lba p + lba < count"
proof -
  have "unat (start_lba p) + unat lba < 2 ^ 64"
    using assms unsigned_less [of count, where 'a = nat]
    by (simp add: partition_fits_def word_less_nat_alt)
  then show u: "unat (start_lba p + lba) = unat (start_lba p) + unat lba"
    by (simp add: unat_word_ariths)
  show "in_partition p (start_lba p + lba)" and "start_lba p + lba < count"
    using assms u by (simp_all add: partition_fits_def in_partition_def word_less_nat_alt word_le_nat_alt)
qed

text \<open>The invariant and the contents of a view, from those of the disk below it.\<close>

definition view_inv :: "'d BlockDevice \<Rightarrow> ('d \<Rightarrow> bool) \<Rightarrow> 'd PartitionDevice \<Rightarrow> bool" where
  "view_inv ops I pd \<longleftrightarrow> I (pd_device pd) \<and>
     partition_fits (pd_partition pd) (dev_sector_count ops (pd_device pd))"

definition view_sector :: "('d \<Rightarrow> u64 \<Rightarrow> bytes) \<Rightarrow> 'd PartitionDevice \<Rightarrow> u64 \<Rightarrow> bytes" where
  "view_sector sct pd lba = sct (pd_device pd) (start_lba (pd_partition pd) + lba)"

locale partitioned = disk: block_device ops inv sector
  for ops :: "'d BlockDevice" and inv and sector
begin

lemma view_read:
  assumes "view_inv ops inv pd" "partition_read_sector ops pd lba buf = (r, buf', pd')"
  shows "view_inv ops inv pd' \<and> pd_partition pd' = pd_partition pd \<and>
    same_shape ops (pd_device pd) (pd_device pd') \<and> sector (pd_device pd') = sector (pd_device pd)"
proof (cases "absolute_lba pd lba")
  case (Inl e)
  with assms show ?thesis by (simp add: partition_read_sector_def)
next
  case (Inr a)
  obtain d' where d: "dev_read ops (pd_device pd) a buf = (r, buf', d')" "pd' = pd\<lparr>pd_device := d'\<rparr>"
    using assms(2) Inr by (auto simp: partition_read_sector_def split: prod.splits)
  from assms(1) have "inv (pd_device pd)" by (simp add: view_inv_def)
  from disk.read_keeps [OF this d(1)] assms(1) d(2) show ?thesis
    by (simp add: view_inv_def same_shape_def)
qed

text \<open>Outside its partition a view changes nothing, whether the write succeeds or fails.\<close>

lemma view_write:
  assumes "view_inv ops inv pd" "partition_write_sector ops pd lba buf = (r, pd')"
  shows "view_inv ops inv pd' \<and> pd_partition pd' = pd_partition pd \<and>
    same_shape ops (pd_device pd) (pd_device pd') \<and>
    (\<forall>l. \<not> in_partition (pd_partition pd) l \<longrightarrow> sector (pd_device pd') l = sector (pd_device pd) l) \<and>
    (\<forall>l. l \<noteq> start_lba (pd_partition pd) + lba \<longrightarrow> sector (pd_device pd') l = sector (pd_device pd) l)"
proof (cases "absolute_lba pd lba")
  case (Inl e)
  with assms show ?thesis by (simp add: partition_write_sector_def)
next
  case (Inr a)
  obtain d' where d: "dev_write ops (pd_device pd) a buf = (r, d')" "pd' = pd\<lparr>pd_device := d'\<rparr>"
    using assms(2) Inr by (auto simp: partition_write_sector_def split: prod.splits)
  from assms(1) have i: "inv (pd_device pd)"
    and f: "partition_fits (pd_partition pd) (dev_sector_count ops (pd_device pd))"
    by (simp_all add: view_inv_def)
  from Inr absolute_lba_Inr [OF f] have a: "lba < part_sectors (pd_partition pd)"
    "a = start_lba (pd_partition pd) + lba" by auto
  have "l \<noteq> a" if "\<not> in_partition (pd_partition pd) l" for l
    using that a(2) partition_offset(2) [OF f a(1)] by auto
  with disk.write_keeps [OF i d(1)] f d(2) a(2) show ?thesis
    by (simp add: view_inv_def same_shape_def)
qed

lemma view_write_ok:
  assumes "view_inv ops inv pd" "partition_write_sector ops pd lba buf = (Inr u, pd')"
  shows "length buf = SECTOR_SIZE \<and> lba < part_sectors (pd_partition pd) \<and> view_sector sector pd' lba = buf"
proof -
  from assms(1) have i: "inv (pd_device pd)"
    and f: "partition_fits (pd_partition pd) (dev_sector_count ops (pd_device pd))"
    by (simp_all add: view_inv_def)
  obtain a d' where d: "absolute_lba pd lba = Inr a" "dev_write ops (pd_device pd) a buf = (Inr u, d')"
    "pd' = pd\<lparr>pd_device := d'\<rparr>"
    using assms(2) by (auto simp: partition_write_sector_def split: sum.splits prod.splits)
  with disk.write_ok [OF i d(2)] absolute_lba_Inr [OF f] show ?thesis by (simp add: view_sector_def)
qed

lemma view_read_ok:
  assumes "view_inv ops inv pd" "partition_read_sector ops pd lba buf = (Inr u, buf', pd')"
  shows "length buf = SECTOR_SIZE \<and> lba < part_sectors (pd_partition pd) \<and> buf' = view_sector sector pd lba"
proof -
  from assms(1) have i: "inv (pd_device pd)"
    and f: "partition_fits (pd_partition pd) (dev_sector_count ops (pd_device pd))"
    by (simp_all add: view_inv_def)
  obtain a d' where d: "absolute_lba pd lba = Inr a" "dev_read ops (pd_device pd) a buf = (Inr u, buf', d')"
    using assms(2) by (auto simp: partition_read_sector_def split: sum.splits prod.splits)
  with disk.read_ok [OF i d(2)] absolute_lba_Inr [OF f] show ?thesis by (simp add: view_sector_def)
qed

lemma view_read_err:
  assumes "view_inv ops inv pd" "partition_read_sector ops pd lba buf = (Inl e, buf', pd')"
  shows "buf' = buf"
  using assms disk.read_err [of "pd_device pd"]
  by (auto simp: partition_read_sector_def view_inv_def split: sum.splits prod.splits)

lemma view_flush:
  assumes "view_inv ops inv pd" "partition_flush ops pd = (r, pd')"
  shows "view_inv ops inv pd' \<and> pd_partition pd' = pd_partition pd \<and>
    same_shape ops (pd_device pd) (pd_device pd') \<and> sector (pd_device pd') = sector (pd_device pd)"
proof -
  obtain d' where d: "dev_flush ops (pd_device pd) = (r, d')" "pd' = pd\<lparr>pd_device := d'\<rparr>"
    using assms(2) by (auto simp: partition_flush_def split: prod.splits)
  from assms(1) have "inv (pd_device pd)" by (simp add: view_inv_def)
  from disk.flush_keeps [OF this d(1)] assms(1) d(2) show ?thesis
    by (simp add: view_inv_def same_shape_def)
qed

lemma view_sector_size:
  assumes "view_inv ops inv pd" "lba < part_sectors (pd_partition pd)"
  shows "length (view_sector sector pd lba) = SECTOR_SIZE"
proof -
  from assms(1) have i: "inv (pd_device pd)"
    and f: "partition_fits (pd_partition pd) (dev_sector_count ops (pd_device pd))"
    by (simp_all add: view_inv_def)
  from disk.sector_size [OF i partition_offset(3) [OF f assms(2)]] show ?thesis
    by (simp add: view_sector_def)
qed

end

lemma partition_ops_simps [simp]:
  "dev_sector_count (partition_ops ops) pd = part_sectors (pd_partition pd)"
  "dev_is_read_only (partition_ops ops) pd = dev_is_read_only ops (pd_device pd)"
  "dev_flush (partition_ops ops) = partition_flush ops"
  "dev_read (partition_ops ops) = partition_read_sector ops"
  "dev_write (partition_ops ops) = partition_write_sector ops"
  by (simp_all add: partition_ops_def)

lemma same_shape_partition:
  "same_shape (partition_ops ops) pd pd' \<longleftrightarrow>
     part_sectors (pd_partition pd') = part_sectors (pd_partition pd) \<and>
     dev_is_read_only ops (pd_device pd') = dev_is_read_only ops (pd_device pd)"
  by (simp add: same_shape_def)

sublocale partitioned \<subseteq> view: block_device "partition_ops ops" "view_inv ops inv" "view_sector sector"
proof unfold_locales
  fix pd assume inv: "view_inv ops inv pd"
  show "length (view_sector sector pd lba) = SECTOR_SIZE"
    if "lba < dev_sector_count (partition_ops ops) pd" for lba
    using view_sector_size [OF inv] that by simp
  fix lba buf
  show "view_inv ops inv pd' \<and> same_shape (partition_ops ops) pd pd' \<and> view_sector sector pd' = view_sector sector pd"
    if "dev_read (partition_ops ops) pd lba buf = (r, buf', pd')" for r buf' pd'
    using view_read [OF inv] that
    by (auto simp: same_shape_partition same_shape_def view_sector_def fun_eq_iff)
  show "length buf = SECTOR_SIZE \<and> lba < dev_sector_count (partition_ops ops) pd \<and> buf' = view_sector sector pd lba"
    if "dev_read (partition_ops ops) pd lba buf = (Inr u, buf', pd')" for u buf' pd'
    using view_read_ok [OF inv] that by simp
  show "buf' = buf" if "dev_read (partition_ops ops) pd lba buf = (Inl e, buf', pd')" for e buf' pd'
    using view_read_err [OF inv] that by simp
  show "view_inv ops inv pd' \<and> same_shape (partition_ops ops) pd pd' \<and>
      (\<forall>l. l \<noteq> lba \<longrightarrow> view_sector sector pd' l = view_sector sector pd l)"
    if "dev_write (partition_ops ops) pd lba buf = (r, pd')" for r pd'
    using view_write [OF inv, of lba buf r pd'] that
    by (simp add: same_shape_partition same_shape_def view_sector_def)
  show "length buf = SECTOR_SIZE \<and> lba < dev_sector_count (partition_ops ops) pd \<and> view_sector sector pd' lba = buf"
    if "dev_write (partition_ops ops) pd lba buf = (Inr u, pd')" for u pd'
    using view_write_ok [OF inv] that by simp
  show "view_inv ops inv pd' \<and> same_shape (partition_ops ops) pd pd' \<and> view_sector sector pd' = view_sector sector pd"
    if "dev_flush (partition_ops ops) pd = (r, pd')" for r pd'
    using view_flush [OF inv] that
    by (auto simp: same_shape_partition same_shape_def view_sector_def fun_eq_iff)
qed

context partitioned
begin

lemma view_contract: "block_device (partition_ops ops) (view_inv ops inv) (view_sector sector)"
  by (rule view.block_device_axioms)

end

interpretation ram_part: partitioned ramdisk_ops ramdisk_inv ramdisk_sector
  by unfold_locales

text \<open>
  C9: Confinement of a partition view. On any disk that satisfies the block-device contract, a
  view that \<open>PartitionDevice::new\<close> accepted writes inside its partition only, also when the
  write fails; a successful write stores the data at the partition's start plus the given
  address; a successful read returns the sector at that place; and the view itself
  satisfies the block-device contract, so that views and caches can be stacked.
\<close>

theorem partition_view_confined:
  assumes dev: "block_device ops I sct" and inv: "I d"
    and new: "partition_device_new ops d p = Inr pd"
  shows "(\<forall>lba buf r pd'. partition_write_sector ops pd lba buf = (r, pd') \<longrightarrow>
            (\<forall>l. \<not> in_partition p l \<longrightarrow> sct (pd_device pd') l = sct d l) \<and>
            (r = Inr () \<longrightarrow> lba < part_sectors p \<and> sct (pd_device pd') (start_lba p + lba) = buf)) \<and>
         (\<forall>lba buf buf' pd'. partition_read_sector ops pd lba buf = (Inr (), buf', pd') \<longrightarrow>
            in_partition p (start_lba p + lba) \<and> buf' = sct d (start_lba p + lba)) \<and>
         view_inv ops I pd \<and> block_device (partition_ops ops) (view_inv ops I) (view_sector sct)"
proof -
  have loc: "partitioned ops I sct" using dev by (simp add: partitioned_def)
  from new have fits: "partition_fits p (dev_sector_count ops d)"
    and pd: "pd = \<lparr>pd_device = d, pd_partition = p\<rparr>" by (simp_all add: partition_device_new_iff)
  have vi: "view_inv ops I pd" using inv fits pd by (simp add: view_inv_def)
  show ?thesis
  proof (intro conjI allI impI)
    fix lba buf r pd' assume w: "partition_write_sector ops pd lba buf = (r, pd')"
    show "sct (pd_device pd') l = sct d l" if "\<not> in_partition p l" for l
      using partitioned.view_write [OF loc vi w] that pd by simp
    show "lba < part_sectors p" "sct (pd_device pd') (start_lba p + lba) = buf" if "r = Inr ()"
      using partitioned.view_write_ok [OF loc vi] partitioned.view_write [OF loc vi w] w that pd
      by (auto simp: view_sector_def)
  next
    fix lba buf buf' pd' assume r: "partition_read_sector ops pd lba buf = (Inr (), buf', pd')"
    from partitioned.view_read_ok [OF loc vi r] pd partition_offset(2) [OF fits]
    show "in_partition p (start_lba p + lba)" "buf' = sct d (start_lba p + lba)"
      by (simp_all add: view_sector_def)
  next
    show "block_device (partition_ops ops) (view_inv ops I) (view_sector sct)"
      by (rule partitioned.view_contract [OF loc])
  qed (rule vi)
qed

text \<open>Instance: sectors 2 to 5 of a RAM disk of eight sectors.\<close>

theorem partition_view_confined_witness:
  "let p = \<lparr>start_lba = 2, part_sectors = 4, kind = 0x0c\<rparr>;
       pd = \<lparr>pd_device = ramdisk_new 8, pd_partition = p\<rparr>
   in partition_device_new ramdisk_ops (ramdisk_new 8) p = Inr pd \<and>
      (\<forall>lba buf r pd'. partition_write_sector ramdisk_ops pd lba buf = (r, pd') \<longrightarrow>
         (\<forall>l. \<not> in_partition p l \<longrightarrow> ramdisk_sector (pd_device pd') l = ramdisk_sector (ramdisk_new 8) l))"
proof -
  have "partition_device_new ramdisk_ops (ramdisk_new 8) \<lparr>start_lba = 2, part_sectors = 4, kind = 0x0c\<rparr> =
    Inr \<lparr>pd_device = ramdisk_new 8, pd_partition = \<lparr>start_lba = 2, part_sectors = 4, kind = 0x0c\<rparr>\<rparr>"
    by code_simp
  from this partition_view_confined [OF ram.block_device_axioms _ this]
  show ?thesis by (simp add: ramdisk_inv_new usize_limit_def)
qed

section \<open>The boot record\<close>

text \<open>Entry \<open>i\<close> of the table as the scan decodes it.\<close>

definition mbr_entry :: "bytes \<Rightarrow> nat \<Rightarrow> Partition" where
  "mbr_entry sec i =
     (let offset = PARTITION_TABLE_OFFSET + i * PARTITION_ENTRY_SIZE in
      \<lparr>start_lba = ucast (part_read_u32 sec (offset + 8)),
       part_sectors = ucast (part_read_u32 sec (offset + 12)), kind = sec ! (offset + 4)\<rparr>)"

definition mbr_boot_ok :: "bytes \<Rightarrow> nat \<Rightarrow> bool" where
  "mbr_boot_ok sec i \<longleftrightarrow> sec ! (PARTITION_TABLE_OFFSET + i * PARTITION_ENTRY_SIZE) \<in> {0, 0x80}"

definition entry_unused :: "Partition \<Rightarrow> bool" where
  "entry_unused p \<longleftrightarrow> kind p = 0 \<and> start_lba p = 0 \<and> part_sectors p = 0"

definition entry_fat32 :: "Partition \<Rightarrow> bool" where
  "entry_fat32 p \<longleftrightarrow> kind p = 0x0b \<or> kind p = 0x0c"

text \<open>The table is accepted when every entry is unused or fits the disk.\<close>

definition mbr_entry_ok :: "bytes \<Rightarrow> u64 \<Rightarrow> nat \<Rightarrow> bool" where
  "mbr_entry_ok sec count i \<longleftrightarrow> mbr_boot_ok sec i \<and>
     (entry_unused (mbr_entry sec i) \<or> partition_fits (mbr_entry sec i) count)"

lemma find_fat32_loop_Cons:
  "find_fat32_loop sec count (i # rest) result =
     (if \<not> mbr_boot_ok sec i then Inl InvalidTable
      else if \<not> mbr_entry_ok sec count i then Inl PartitionOutOfBounds
      else find_fat32_loop sec count rest
        (if result = None \<and> entry_fat32 (mbr_entry sec i) then Some (mbr_entry sec i) else result))"
proof -
  define p where "p = mbr_entry sec i"
  let ?off = "PARTITION_TABLE_OFFSET + i * PARTITION_ENTRY_SIZE"
  have p: "ucast (part_read_u32 sec (?off + 8)) = start_lba p"
    "ucast (part_read_u32 sec (?off + 12)) = part_sectors p" "sec ! (?off + 4) = kind p"
    "\<lparr>start_lba = start_lba p, part_sectors = part_sectors p, kind = kind p\<rparr> = p"
    by (simp_all add: p_def mbr_entry_def Let_def)
  have unused: "entry_unused p \<Longrightarrow> \<not> entry_fat32 p" by (auto simp: entry_unused_def entry_fat32_def)
  have fits: "(case checked_add (start_lba p) (part_sectors p) of None \<Rightarrow> Inl PartitionOutOfBounds
      | Some fin \<Rightarrow> if start_lba p = 0 \<or> part_sectors p = 0 \<or> count < fin
          then Inl PartitionOutOfBounds else X) =
      (if partition_fits p count then X else Inl PartitionOutOfBounds)" for X :: "partition_error + Partition option"
  proof (cases "checked_add (start_lba p) (part_sectors p)")
    case None
    then have "\<not> partition_fits p count" using unsigned_less [of count, where 'a = nat]
      by (simp add: checked_add_eq_None partition_fits_def)
    with None show ?thesis by simp
  next
    case (Some fin)
    from checked_add_Some [OF Some] Some show ?thesis
      by (auto simp: partition_fits_def word_less_nat_alt not_less)
  qed
  have boot: "sec ! ?off = 0 \<or> sec ! ?off = 0x80 \<longleftrightarrow> mbr_boot_ok sec i"
    by (simp add: mbr_boot_ok_def)
  show ?thesis
    unfolding find_fat32_loop.simps Let_def p fits boot p_def [symmetric] mbr_entry_ok_def
    using unused unfolding entry_unused_def entry_fat32_def by auto
qed

lemma find_fat32_loop_Inr:
  "find_fat32_loop sec count is result = Inr r \<longleftrightarrow>
     (\<forall>i\<in>set is. mbr_entry_ok sec count i) \<and>
     r = (if result = None then find entry_fat32 (map (mbr_entry sec) is) else result)"
proof (induction "is" arbitrary: result)
  case Nil
  then show ?case by auto
next
  case (Cons i rest)
  have "\<not> mbr_boot_ok sec i \<Longrightarrow> \<not> mbr_entry_ok sec count i" by (simp add: mbr_entry_ok_def)
  then show ?case unfolding find_fat32_loop_Cons using Cons.IH by (auto simp: mbr_entry_ok_def)
qed



end
