(* ===== verification/Gpt.thy ===== *)
theory Gpt
  imports Partition_Table
begin

text \<open>
  GUID partition tables (\<open>kernel/src/gpt.rs\<close>): the protective boot record, the checksummed
  header and entry array, and the search for a FAT partition. The checksum is shown to detect
  every change confined to one byte, and the scan to accept exactly the tables whose
  checksums and bounds hold.
\<close>

unbundle bit_operations_syntax

section \<open>Model\<close>

definition GPT_HEADER_MIN_SIZE :: nat where
  "GPT_HEADER_MIN_SIZE = 92"

definition MAX_PARTITION_ENTRIES :: nat where
  "MAX_PARTITION_ENTRIES = 128"

definition MAX_PARTITION_ENTRY_SIZE :: nat where
  "MAX_PARTITION_ENTRY_SIZE = 256"

definition EFI_SYSTEM_GUID :: bytes where
  "EFI_SYSTEM_GUID =
     [0x28, 0x73, 0x2a, 0xc1, 0x1f, 0xf8, 0xd2, 0x11, 0xba, 0x4b, 0x00, 0xa0, 0xc9, 0x3e, 0xc9, 0x3b]"

definition BASIC_DATA_GUID :: bytes where
  "BASIC_DATA_GUID =
     [0xa2, 0xa0, 0xd0, 0xeb, 0xe5, 0xb9, 0x33, 0x44, 0x87, 0xc0, 0x68, 0xb6, 0xb7, 0x26, 0x99, 0xc7]"

datatype gpt_error = GptBlock block_error | MissingProtectiveMbr | InvalidHeader | InvalidChecksum
  | Unsupported | GptOutOfBounds

definition gpt_read_u32 :: "bytes \<Rightarrow> nat \<Rightarrow> u32" where
  "gpt_read_u32 bs offset = from_le_bytes (slice bs offset 4)"

definition gpt_read_u64 :: "bytes \<Rightarrow> nat \<Rightarrow> u64" where
  "gpt_read_u64 bs offset = from_le_bytes (slice bs offset 8)"

text \<open>One of the eight rounds for a byte, the byte loop and the complemented checksum.\<close>

definition crc32_round :: "u32 \<Rightarrow> u32" where
  "crc32_round state = drop_bit 1 state XOR (0xedb88320 AND (0 - (state AND 1)))"

fun crc32_extend :: "u32 \<Rightarrow> bytes \<Rightarrow> u32" where
  "crc32_extend state [] = state"
| "crc32_extend state (b # bs) = crc32_extend ((crc32_round ^^ 8) (state XOR ucast b)) bs"

definition crc32 :: "bytes \<Rightarrow> u32" where
  "crc32 bs = NOT (crc32_extend (- 1) bs)"

text \<open>Evaluation of the checksum on bit lists, lowest bit first.\<close>

fun bits_of :: "nat \<Rightarrow> int \<Rightarrow> bool list" where
  "bits_of 0 x = []"
| "bits_of (Suc n) x = odd x # bits_of n (x div 2)"

fun xor_bits :: "bool list \<Rightarrow> bool list \<Rightarrow> bool list" where
  "xor_bits (x # xs) (True # ys) = (\<not> x) # xor_bits xs ys"
| "xor_bits (x # xs) (False # ys) = x # xor_bits xs ys"
| "xor_bits xs ys = xs"

definition crc32_poly_bits :: "bool list" where
  "crc32_poly_bits = bits_of 32 0xedb88320"

fun crc32_round_bits :: "bool list \<Rightarrow> bool list \<Rightarrow> bool list" where
  "crc32_round_bits poly (True # bs) = xor_bits (bs @ [False]) poly"
| "crc32_round_bits poly (False # bs) = bs @ [False]"
| "crc32_round_bits poly [] = []"

fun crc32_bits :: "bool list \<Rightarrow> bool list \<Rightarrow> bytes \<Rightarrow> bool list" where
  "crc32_bits poly st [] = st"
| "crc32_bits poly st (b # bs) =
     crc32_bits poly ((crc32_round_bits poly ^^ 8) (xor_bits st (bits_of 8 (uint b)))) bs"

lemma length_bits_of [simp]: "length (bits_of n x) = n"
  by (induction n arbitrary: x) auto

lemma nth_bits_of: "i < n \<Longrightarrow> bits_of n x ! i = bit x i"
  by (induction n arbitrary: x i) (auto simp: less_Suc_eq_0_disj bit_0 bit_Suc)

lemma length_xor_bits [simp]: "length (xor_bits xs ys) = length xs"
  by (induction xs ys rule: xor_bits.induct) auto

lemma nth_xor_bits:
  "i < length xs \<Longrightarrow> xor_bits xs ys ! i = (xs ! i \<noteq> (i < length ys \<and> ys ! i))"
  by (induction xs ys arbitrary: i rule: xor_bits.induct) (auto simp: less_Suc_eq_0_disj)

definition as_bits :: "u32 \<Rightarrow> bool list \<Rightarrow> bool" where
  "as_bits w bs \<longleftrightarrow> length bs = 32 \<and> (\<forall>i<32. bs ! i = bit w i)"

lemma as_bits_xor_byte: "as_bits w bs \<Longrightarrow> as_bits (w XOR ucast (b :: u8)) (xor_bits bs (bits_of 8 (uint b)))"
  by (auto simp: as_bits_def nth_xor_bits nth_bits_of bit_xor_iff bit_unsigned_iff bit_uint_iff
      dest: bit_imp_le_length)

lemma word_and_one:
  fixes s :: u32
  shows "s AND 1 = (if even s then 0 else 1)"
  by (simp add: and_one_eq mod_2_eq_odd)

lemma crc32_round_alt:
  "crc32_round s = (if even s then drop_bit 1 s else drop_bit 1 s XOR 0xedb88320)"
  by (simp add: crc32_round_def word_and_one)

lemma nth_crc32_poly_bits: "i < 32 \<Longrightarrow> crc32_poly_bits ! i = bit (0xedb88320 :: u32) i"
proof -
  assume "i < 32"
  then have "bit (word_of_int 0xedb88320 :: u32) i = bit (0xedb88320 :: int) i"
    by (simp only: bit_of_int_iff) simp
  with \<open>i < 32\<close> show ?thesis by (simp add: crc32_poly_bits_def nth_bits_of)
qed

lemma length_crc32_poly_bits: "length crc32_poly_bits = 32"
  by (simp add: crc32_poly_bits_def)

lemma as_bits_round:
  assumes "as_bits w bs"
  shows "as_bits (crc32_round w) (crc32_round_bits crc32_poly_bits bs)"
proof -
  obtain b cs where bs: "bs = b # cs" using assms by (cases bs) (auto simp: as_bits_def)
  have len: "length cs = 31" using assms bs by (simp add: as_bits_def)
  have b: "b = odd w" using assms bs unfolding as_bits_def by (auto simp: bit_0 dest: spec [of _ 0])
  have "bit (drop_bit 1 w) i = (cs @ [False]) ! i" if "i < 32" for i
  proof (cases "i < 31")
    case True
    then have "bs ! Suc i = bit w (Suc i)" using assms unfolding as_bits_def by simp
    with True len bs show ?thesis by (simp add: bit_drop_bit_eq nth_append)
  next
    case False
    with that have "i = 31" by simp
    with len show ?thesis by (simp add: bit_drop_bit_eq nth_append) (simp add: bit_word.rep_eq)
  qed
  then show ?thesis
    using b bs len
    by (cases b) (auto simp: as_bits_def crc32_round_alt nth_xor_bits bit_xor_iff nth_crc32_poly_bits
        length_crc32_poly_bits)
qed

lemma as_bits_rounds:
  "as_bits w bs \<Longrightarrow> as_bits ((crc32_round ^^ n) w) ((crc32_round_bits crc32_poly_bits ^^ n) bs)"
  by (induction n) (auto intro: as_bits_round)

lemma as_bits_extend: "as_bits w st \<Longrightarrow> as_bits (crc32_extend w bs) (crc32_bits crc32_poly_bits st bs)"
  by (induction bs arbitrary: w st) (auto intro: as_bits_rounds as_bits_xor_byte)

lemma as_bits_word: "as_bits w bs \<Longrightarrow> w = horner_sum of_bool 2 bs"
  by (rule bit_word_eqI) (auto simp: as_bits_def bit_horner_sum_bit_iff)

fun bits_int :: "bool list \<Rightarrow> int" where
  "bits_int [] = 0"
| "bits_int (b # bs) = (if b then 1 else 0) + 2 * bits_int bs"

lemma word_of_bits_int: "word_of_int (bits_int bs) = (horner_sum of_bool 2 bs :: u32)"
  by (induction bs) simp_all

lemma crc32_extend_code [code]:
  "crc32_extend w bs = word_of_int (bits_int (crc32_bits crc32_poly_bits (bits_of 32 (uint w)) bs))"
proof -
  have "as_bits w (bits_of 32 (uint w))" by (simp add: as_bits_def nth_bits_of bit_uint_iff)
  from as_bits_word [OF as_bits_extend [OF this]]
  have "crc32_extend w bs = horner_sum of_bool 2 (crc32_bits crc32_poly_bits (bits_of 32 (uint w)) bs)" .
  then show ?thesis by (simp add: word_of_bits_int)
qed

lemma crc32_check_value: "crc32 (ascii ''123456789'') = 0xcbf43926"
  by code_simp

text \<open>\<open>device.read_sector(lba, &mut sector).map_err(Error::Block)?\<close>\<close>

definition gpt_read_sector :: "'d BlockDevice \<Rightarrow> u64 \<Rightarrow> bytes \<Rightarrow> ('d, gpt_error, bytes) io" where
  "gpt_read_sector ops lba sec = (\<lambda>d. case dev_read ops d lba sec of
       (Inl e, _, d') \<Rightarrow> (Inl (GptBlock e), d')
     | (Inr _, sec', d') \<Rightarrow> (Inr sec', d'))"

definition validate_protective_mbr :: "'d BlockDevice \<Rightarrow> ('d, gpt_error, unit) io" where
  "validate_protective_mbr ops =
     bindS (gpt_read_sector ops 0 (replicate SECTOR_SIZE 0)) (\<lambda>sec.
     thenS (guardS (sec ! 510 = 0x55 \<and> sec ! 511 = 0xaa) MissingProtectiveMbr)
     (guardS (list_ex (\<lambda>index. let offset = 446 + index * 16 in
        sec ! (offset + 4) = 0xee \<and> gpt_read_u32 sec (offset + 8) = 1) [0..<4]) MissingProtectiveMbr))"

function entries_crc_loop ::
  "'d BlockDevice \<Rightarrow> u64 \<Rightarrow> nat \<Rightarrow> nat \<Rightarrow> bytes \<Rightarrow> u32 \<Rightarrow> ('d, gpt_error, u32) io" where
  "entries_crc_loop ops start len consumed sec state =
     (if consumed < len
      then let byte_offset = start + word_of_nat consumed;
               lba = byte_offset div 512;
               offset = unat (byte_offset mod 512)
           in bindS (gpt_read_sector ops lba sec) (\<lambda>sec.
              let count = min (SECTOR_SIZE - offset) (len - consumed)
              in entries_crc_loop ops start len (consumed + count) sec
                   (crc32_extend state (slice sec offset count)))
      else retS state)"
  by auto

definition entries_crc :: "'d BlockDevice \<Rightarrow> u64 \<Rightarrow> nat \<Rightarrow> ('d, gpt_error, u32) io" where
  "entries_crc ops start len =
     bindS (entries_crc_loop ops start len 0 (replicate SECTOR_SIZE 0) (- 1)) (\<lambda>state. retS (NOT state))"

text \<open>Both loops make progress: the offset within a sector is below the sector size.\<close>

lemma sector_offset_less: "unat ((x :: u64) mod 512) < SECTOR_SIZE"
  by (simp add: unat_mod SECTOR_SIZE_def)

lemma sector_progress:
  "n < len \<Longrightarrow> len - (n + min (SECTOR_SIZE - unat ((x :: u64) mod 512)) (len - n)) < len - n"
  using sector_offset_less [of x] by linarith

termination entries_crc_loop
  by (relation "measure (\<lambda>(ops, start, len, consumed, sec, state). len - consumed)")
    (auto simp: sector_progress)

function read_bytes_loop ::
  "'d BlockDevice \<Rightarrow> u64 \<Rightarrow> nat \<Rightarrow> nat \<Rightarrow> bytes \<Rightarrow> bytes \<Rightarrow> ('d, gpt_error, bytes) io" where
  "read_bytes_loop ops start len copied sec out =
     (if copied < len
      then let byte_offset = start + word_of_nat copied;
               lba = byte_offset div 512;
               offset = unat (byte_offset mod 512)
           in bindS (gpt_read_sector ops lba sec) (\<lambda>sec.
              let count = min (SECTOR_SIZE - offset) (len - copied)
              in read_bytes_loop ops start len (copied + count) sec
                   (copy_at out copied (slice sec offset count)))
      else retS out)"
  by auto

termination read_bytes_loop
  by (relation "measure (\<lambda>(ops, start, len, copied, sec, out). len - copied)")
    (auto simp: sector_progress)

declare entries_crc_loop.simps [simp del] read_bytes_loop.simps [simp del]

definition gpt_read_bytes :: "'d BlockDevice \<Rightarrow> u64 \<Rightarrow> bytes \<Rightarrow> ('d, gpt_error, bytes) io" where
  "gpt_read_bytes ops start out = read_bytes_loop ops start (length out) 0 (replicate SECTOR_SIZE 0) out"

text \<open>The checks of the header: signature, revision, size and checksum.\<close>

definition gpt_header_size :: "bytes \<Rightarrow> nat" where
  "gpt_header_size header = unat (gpt_read_u32 header 12)"

definition check_gpt_header :: "bytes \<Rightarrow> gpt_error + bytes" where
  "check_gpt_header header =
     (if take 8 header \<noteq> ascii ''EFI PART'' \<or> gpt_read_u32 header 8 \<noteq> 0x00010000 then Inl InvalidHeader
      else let header_size = gpt_header_size header in
      if \<not> (GPT_HEADER_MIN_SIZE \<le> header_size \<and> header_size \<le> SECTOR_SIZE) then Inl InvalidHeader
      else let expected_header_crc = gpt_read_u32 header 16;
               header = copy_at header 16 (replicate 4 0)
      in if crc32 (take header_size header) \<noteq> expected_header_crc then Inl InvalidChecksum
      else Inr header)"

text \<open>The bounds of the entry array; \<open>count\<close> is the device's sector count.\<close>

definition check_gpt_bounds :: "bytes \<Rightarrow> u64 \<Rightarrow> gpt_error + u64 \<times> nat" where
  "check_gpt_bounds header count =
     (let current_lba = gpt_read_u64 header 24; backup_lba = gpt_read_u64 header 32;
          first_usable = gpt_read_u64 header 40; last_usable = gpt_read_u64 header 48;
          entries_lba = gpt_read_u64 header 72; entry_count = unat (gpt_read_u32 header 80);
          entry_size = unat (gpt_read_u32 header 84)
      in if current_lba \<noteq> 1 \<or> count \<le> backup_lba \<or> last_usable < first_usable \<or> count \<le> last_usable \<or>
           entry_count = 0 \<or> MAX_PARTITION_ENTRIES < entry_count \<or>
           \<not> (128 \<le> entry_size \<and> entry_size \<le> MAX_PARTITION_ENTRY_SIZE) \<or> entry_size mod 8 \<noteq> 0
         then Inl Unsupported
         else bindE (ok_or (checked_mul_usize entry_count entry_size) GptOutOfBounds) (\<lambda>entries_bytes.
              bindE (ok_or (checked_mul entries_lba 512) GptOutOfBounds) (\<lambda>entries_start.
              bindE (ok_or (checked_mul count 512) GptOutOfBounds) (\<lambda>disk_bytes.
              case checked_add entries_start (word_of_nat entries_bytes) of
                None \<Rightarrow> Inl GptOutOfBounds
              | Some end_ \<Rightarrow> if disk_bytes < end_ then Inl GptOutOfBounds
                  else Inr (entries_start, entries_bytes)))))"

text \<open>The loop over the entries; \<open>entry\<close> is the reused buffer.\<close>

fun gpt_entries_loop ::
  "'d BlockDevice \<Rightarrow> u64 \<Rightarrow> u64 \<Rightarrow> u64 \<Rightarrow> nat \<Rightarrow> nat list \<Rightarrow> bytes \<Rightarrow> Partition option \<Rightarrow>
     ('d, gpt_error, Partition option) io" where
  "gpt_entries_loop ops first_usable last_usable entries_start entry_size [] entry selected = retS selected"
| "gpt_entries_loop ops first_usable last_usable entries_start entry_size (index # rest) entry selected =
     bindS (gpt_read_bytes ops (entries_start + word_of_nat (index * entry_size)) (take entry_size entry)) (\<lambda>out.
     let entry = copy_at entry 0 out;
         knd = take 16 entry
     in if list_all (\<lambda>b. b = 0) knd
        then gpt_entries_loop ops first_usable last_usable entries_start entry_size rest entry selected
        else let first_lba = gpt_read_u64 entry 32; last_lba = gpt_read_u64 entry 40
        in thenS (guardS (\<not> (first_lba < first_usable \<or> last_usable < last_lba \<or> last_lba < first_lba)) GptOutOfBounds)
           (gpt_entries_loop ops first_usable last_usable entries_start entry_size rest entry
              (if selected = None \<and> (knd = EFI_SYSTEM_GUID \<or> knd = BASIC_DATA_GUID)
               then Some \<lparr>start_lba = first_lba, part_sectors = last_lba - first_lba + 1, kind = 0xee\<rparr>
               else selected)))"

definition find_fat_partition :: "'d BlockDevice \<Rightarrow> ('d, gpt_error, Partition option) io" where
  "find_fat_partition ops =
     thenS (validate_protective_mbr ops)
     (bindS (gpt_read_sector ops 1 (replicate SECTOR_SIZE 0)) (\<lambda>header.
      bindS (liftS (check_gpt_header header)) (\<lambda>header.
      bindS (getS (dev_sector_count ops)) (\<lambda>count.
      bindS (liftS (check_gpt_bounds header count)) (\<lambda>(entries_start, entries_bytes).
      bindS (entries_crc ops entries_start entries_bytes) (\<lambda>crc.
      thenS (guardS (crc = gpt_read_u32 header 88) InvalidChecksum)
      (gpt_entries_loop ops (gpt_read_u64 header 40) (gpt_read_u64 header 48) entries_start
         (unat (gpt_read_u32 header 84)) [0..<unat (gpt_read_u32 header 80)]
         (replicate MAX_PARTITION_ENTRY_SIZE 0) None)))))))"

text \<open>The boot-time self test, with the sectors it writes.\<close>

definition gpt_test_mbr :: bytes where
  "gpt_test_mbr =
     (copy_at (copy_at ((replicate SECTOR_SIZE 0)[446 + 4 := 0xee]) (446 + 8) (le_bytes 4 1))
        (446 + 12) (le_bytes 4 15))[510 := 0x55, 511 := 0xaa]"

definition gpt_test_entries :: bytes where
  "gpt_test_entries =
     copy_at (copy_at ((copy_at (replicate SECTOR_SIZE 0) 0 EFI_SYSTEM_GUID)[16 := 1]) 32 (le_bytes 8 3))
       40 (le_bytes 8 7)"

definition to_le_bytes4 :: "u32 \<Rightarrow> bytes" where
  "to_le_bytes4 w = map (\<lambda>k. ucast (drop_bit (8 * k) w)) [0..<4]"

definition gpt_test_header :: bytes where
  "gpt_test_header =
     (let h = copy_at (replicate SECTOR_SIZE 0) 0 (ascii ''EFI PART'');
          h = copy_at h 8 (to_le_bytes4 0x00010000);
          h = copy_at h 12 (to_le_bytes4 (word_of_nat GPT_HEADER_MIN_SIZE));
          h = copy_at h 24 (le_bytes 8 1);
          h = copy_at h 32 (le_bytes 8 15);
          h = copy_at h 40 (le_bytes 8 3);
          h = copy_at h 48 (le_bytes 8 14);
          h = copy_at h 72 (le_bytes 8 2);
          h = copy_at h 80 (le_bytes 4 1);
          h = copy_at h 84 (le_bytes 4 128);
          h = copy_at h 88 (to_le_bytes4 (crc32 (take 128 gpt_test_entries)))
      in copy_at h 16 (to_le_bytes4 (crc32 (take GPT_HEADER_MIN_SIZE h))))"

definition flip_bit0 :: "bytes \<Rightarrow> nat \<Rightarrow> bytes" where
  "flip_bit0 bs i = bs[i := (bs ! i) XOR 1]"

definition gpt_self_test :: bool where
  "gpt_self_test \<longleftrightarrow>
     (case ramdisk_write_sector (ramdisk_new 16) 0 gpt_test_mbr of (Inl _, _) \<Rightarrow> False | (Inr _, disk) \<Rightarrow>
     (case ramdisk_write_sector disk 2 gpt_test_entries of (Inl _, _) \<Rightarrow> False | (Inr _, disk) \<Rightarrow>
     (case ramdisk_write_sector disk 1 gpt_test_header of (Inl _, _) \<Rightarrow> False | (Inr _, disk) \<Rightarrow>
     (let (r, disk) = find_fat_partition ramdisk_ops disk;
          valid = (case r of Inr (Some p) \<Rightarrow> start_lba p = 3 \<and> part_sectors p = 5 | _ \<Rightarrow> False)
      in case ramdisk_write_sector disk 1 (flip_bit0 gpt_test_header 20) of (Inl _, _) \<Rightarrow> False | (Inr _, disk) \<Rightarrow>
     (let (r, disk) = find_fat_partition ramdisk_ops disk;
          header_corruption_rejected = (r = Inl InvalidChecksum)
      in case ramdisk_write_sector disk 1 gpt_test_header of (Inl _, _) \<Rightarrow> False | (Inr _, disk) \<Rightarrow>
        (case ramdisk_write_sector disk 2 (flip_bit0 gpt_test_entries 20) of (Inl _, _) \<Rightarrow> False | (Inr _, disk) \<Rightarrow>
     (let (r, disk) = find_fat_partition ramdisk_ops disk;
          entries_corruption_rejected = (r = Inl InvalidChecksum)
      in valid \<and> header_corruption_rejected \<and> entries_corruption_rejected)))))))"

section \<open>The checksum\<close>

lemma xor_right_eq:
  fixes a b c :: "'w::len word"
  shows "a XOR c = b XOR c \<longleftrightarrow> a = b"
  by (metis xor.assoc xor_self_eq xor.right_neutral)

lemma crc32_round_inj: "crc32_round s = crc32_round t \<Longrightarrow> s = t"
proof -
  assume eq: "crc32_round s = crc32_round t"
  have "bit (drop_bit 1 x) 31 = False" for x :: u32
    by (simp add: bit_drop_bit_eq) (simp add: bit_word.rep_eq)
  moreover have "bit (0xedb88320 :: u32) 31" by simp
  ultimately have top: "bit (crc32_round x) 31 = odd x" for x by (simp add: crc32_round_alt bit_xor_iff)
  then have odd: "odd s = odd t" using eq by metis
  then have "drop_bit 1 s = drop_bit 1 t" using eq by (auto simp: crc32_round_alt xor_right_eq split: if_splits)
  then have "bit (drop_bit 1 s) n = bit (drop_bit 1 t) n" for n by simp
  then have suc: "bit s (Suc n) = bit t (Suc n)" for n by (simp add: bit_drop_bit_eq)
  show "s = t"
  proof (rule bit_word_eqI)
    show "bit s n = bit t n" for n using odd suc by (cases n) (simp_all add: bit_0)
  qed
qed

lemma crc32_rounds_inj: "(crc32_round ^^ n) s = (crc32_round ^^ n) t \<Longrightarrow> s = t"
  by (induction n) (auto dest: crc32_round_inj)

lemma crc32_extend_inj: "crc32_extend s bs = crc32_extend t bs \<Longrightarrow> s = t"
proof (induction bs arbitrary: s t)
  case Nil
  then show ?case by simp
next
  case (Cons b bs)
  then have "(crc32_round ^^ 8) (s XOR ucast b) = (crc32_round ^^ 8) (t XOR ucast b)" by simp
  from crc32_rounds_inj [OF this] show ?case by (simp add: xor_right_eq)
qed

lemma crc32_extend_append: "crc32_extend s (xs @ ys) = crc32_extend (crc32_extend s xs) ys"
  by (induction xs arbitrary: s) auto

text \<open>A change of one byte changes the checksum.\<close>

lemma crc32_detects:
  assumes "i < length bs" "b \<noteq> bs ! i"
  shows "crc32 (bs[i := b]) \<noteq> crc32 bs"
proof
  assume "crc32 (bs[i := b]) = crc32 bs"
  then have "NOT (NOT (crc32_extend (- 1) (bs[i := b]))) = NOT (NOT (crc32_extend (- 1) bs))"
    by (simp add: crc32_def)
  then have eq: "crc32_extend (- 1) (bs[i := b]) = crc32_extend (- 1) bs" by simp
  define s where "s = crc32_extend (- 1) (take i bs)"
  have "crc32_extend s (b # drop (Suc i) bs) = crc32_extend s (bs ! i # drop (Suc i) bs)"
    using eq assms(1) unfolding s_def crc32_extend_append [symmetric]
    by (simp add: upd_conv_take_nth_drop id_take_nth_drop [symmetric])
  then have "(crc32_round ^^ 8) (s XOR ucast b) = (crc32_round ^^ 8) (s XOR ucast (bs ! i))"
    using crc32_extend_inj by simp
  then have "ucast b XOR s = ucast (bs ! i) XOR s" using crc32_rounds_inj xor.commute by metis
  then have "(ucast b :: u32) = ucast (bs ! i)" by (simp add: xor_right_eq)
  then have "(ucast (ucast b :: u32) :: u8) = ucast (ucast (bs ! i) :: u32)" by simp
  then have "b = bs ! i" by (simp add: ucast_up_ucast_id is_up)
  with assms(2) show False by simp
qed

section \<open>Reading byte ranges\<close>

text \<open>The bytes of a disk, numbered across its sectors.\<close>

definition disk_bytes :: "(u64 \<Rightarrow> bytes) \<Rightarrow> nat \<Rightarrow> nat \<Rightarrow> bytes" where
  "disk_bytes sct start n = map (\<lambda>i. sct (word_of_nat (i div 512)) ! (i mod 512)) [start..<start + n]"

lemma length_disk_bytes [simp]: "length (disk_bytes sct start n) = n"
  by (simp add: disk_bytes_def)

lemma disk_bytes_add: "disk_bytes sct start (m + n) = disk_bytes sct start m @ disk_bytes sct (start + m) n"
  using upt_add_eq_append [of start "start + m" n] by (simp add: disk_bytes_def add.assoc)

lemma disk_bytes_chunk:
  assumes "length (sct (word_of_nat (x div 512))) = 512" "x mod 512 + n \<le> 512"
  shows "slice (sct (word_of_nat (x div 512))) (x mod 512) n = disk_bytes sct x n"
proof (rule nth_equalityI)
  fix i assume i: "i < length (slice (sct (word_of_nat (x div 512))) (x mod 512) n)"
  then have i: "i < n" by simp
  with assms have lt: "x mod 512 + i < 512" by simp
  then have "(x + i) div 512 = x div 512" by (subst div_add1_eq) simp
  moreover have "(x + i) mod 512 = x mod 512 + i" using lt mod_add_left_eq [of x 512 i] by simp
  ultimately show "slice (sct (word_of_nat (x div 512))) (x mod 512) n ! i = disk_bytes sct x n ! i"
    using i assms by (simp add: slice_def disk_bytes_def)
qed (use assms in simp)

text \<open>An address that does not wrap is split into sector and offset as its number is.\<close>

lemma byte_address:
  assumes "unat start + n < 2 ^ 64"
  shows "(start + word_of_nat n) div 512 = (word_of_nat ((unat start + n) div 512) :: u64)"
    and "unat ((start + word_of_nat n) mod 512 :: u64) = (unat start + n) mod 512"
proof -
  have u: "unat (start + word_of_nat n) = unat start + n"
    using assms by (rule unat_add_of_nat)
  then have "unat ((start + word_of_nat n) div 512) = (unat start + n) div 512" by (simp add: unat_div)
  then have "word_of_nat (unat ((start + word_of_nat n) div 512)) = (word_of_nat ((unat start + n) div 512) :: u64)"
    by simp
  then show "(start + word_of_nat n) div 512 = (word_of_nat ((unat start + n) div 512) :: u64)" by simp
  show "unat ((start + word_of_nat n) mod 512 :: u64) = (unat start + n) mod 512"
    using u by (simp add: unat_mod)
qed

context block_device
begin

definition same_disk :: "'d \<Rightarrow> 'd \<Rightarrow> bool" where
  "same_disk d0 d \<longleftrightarrow> inv d \<and> sector d = sector d0 \<and> dev_sector_count ops d = dev_sector_count ops d0"

lemma same_disk_refl: "inv d \<Longrightarrow> same_disk d d"
  by (simp add: same_disk_def)

lemma gpt_read_keeps [keeps_intros]: "keeps (same_disk d0) (gpt_read_sector ops lba buf)"
proof (rule keepsI)
  fix d r d' assume d: "same_disk d0 d" "gpt_read_sector ops lba buf d = (r, d')"
  obtain q buf' where "dev_read ops d lba buf = (q, buf', d')"
    using d(2) by (auto simp: gpt_read_sector_def split: prod.splits sum.splits)
  from read_keeps [OF _ this] d(1) show "same_disk d0 d'" by (simp add: same_disk_def same_shape_def)
qed

lemma gpt_read_Inr:
  assumes "same_disk d0 d" "gpt_read_sector ops lba buf d = (Inr sec, d')"
  shows "sec = sector d0 lba" "length sec = 512" "lba < dev_sector_count ops d0" "same_disk d0 d'"
proof -
  from assms obtain u where rd: "dev_read ops d lba buf = (Inr u, sec, d')"
    by (auto simp: gpt_read_sector_def split: prod.splits sum.splits)
  have i: "inv d" using assms(1) by (simp add: same_disk_def)
  note ok = read_ok [OF i rd]
  with assms(1) show "sec = sector d0 lba" "lba < dev_sector_count ops d0" by (simp_all add: same_disk_def)
  from ok sector_size [OF i, of lba] show "length sec = 512" by (simp add: SECTOR_SIZE_def)
  show "same_disk d0 d'" by (rule keepsD [OF gpt_read_keeps assms])
qed

text \<open>One step of either loop: the bytes taken from a sector are the next bytes of the disk.\<close>

lemma gpt_chunk:
  assumes d: "same_disk d0 d" and n: "unat start + len < 2 ^ 64" "n < len"
    and rd: "gpt_read_sector ops ((start + word_of_nat n) div 512) buf d = (Inr sec, d')"
  defines "off \<equiv> unat ((start + word_of_nat n) mod 512 :: u64)"
  defines "count \<equiv> min (SECTOR_SIZE - off) (len - n)"
  shows "slice sec off count = disk_bytes (sector d0) (unat start + n) count" "n + count \<le> len" "0 < count"
proof -
  have b: "unat start + n < 2 ^ 64" using n by linarith
  have off: "off = (unat start + n) mod 512" unfolding off_def by (rule byte_address(2) [OF b])
  note r = gpt_read_Inr [OF d rd]
  have "off + count \<le> 512" using off by (simp add: count_def SECTOR_SIZE_def)
  moreover have "sec = sector d0 (word_of_nat ((unat start + n) div 512))"
    using r(1) byte_address(1) [OF b] by simp
  ultimately show "slice sec off count = disk_bytes (sector d0) (unat start + n) count"
    using disk_bytes_chunk [of "sector d0" "unat start + n" count] r(2) off by simp
  show "n + count \<le> len" using n(2) by (simp add: count_def)
  show "0 < count" using n(2) off by (simp add: count_def SECTOR_SIZE_def)
qed

lemma entries_crc_loop_ok:
  assumes "same_disk d0 d" "unat start + len < 2 ^ 64" "n \<le> len"
    "entries_crc_loop ops start len n buf st d = (Inr c, d')"
  shows "c = crc32_extend st (disk_bytes (sector d0) (unat start + n) (len - n)) \<and> same_disk d0 d'"
  using assms
proof (induction "len - n" arbitrary: n buf st d rule: less_induct)
  case less
  show ?case
  proof (cases "n < len")
    case False
    with less.prems show ?thesis by (simp add: entries_crc_loop.simps disk_bytes_def)
  next
    case True
    define off where "off = unat ((start + word_of_nat n) mod 512 :: u64)"
    define count where "count = min (SECTOR_SIZE - off) (len - n)"
    obtain sec d1 where rd: "gpt_read_sector ops ((start + word_of_nat n) div 512) buf d = (Inr sec, d1)"
      and rest: "entries_crc_loop ops start len (n + count) sec (crc32_extend st (slice sec off count)) d1 = (Inr c, d')"
      using less.prems(4) True
      by (subst (asm) entries_crc_loop.simps) (auto simp: Let_def bindS_Inr off_def count_def)
    note ch = gpt_chunk [OF less.prems(1,2) True rd, folded off_def, folded count_def]
    have "len - (n + count) < len - n" using ch(2,3) by linarith
    from less.hyps [OF this gpt_read_Inr(4) [OF less.prems(1) rd] less.prems(2) ch(2) rest]
    have IH: "c = crc32_extend (crc32_extend st (slice sec off count))
        (disk_bytes (sector d0) (unat start + (n + count)) (len - (n + count))) \<and> same_disk d0 d'" .
    have "len - n = count + (len - (n + count))" using ch(2) by simp
    then have "disk_bytes (sector d0) (unat start + n) (len - n) = slice sec off count @
        disk_bytes (sector d0) (unat start + (n + count)) (len - (n + count))"
      using disk_bytes_add [of "sector d0" "unat start + n" count "len - (n + count)"] ch(1)
      by (simp add: add.assoc)
    with IH show ?thesis by (simp add: crc32_extend_append)
  qed
qed

lemma entries_crc_ok:
  assumes "same_disk d0 d" "unat start + len < 2 ^ 64" "entries_crc ops start len d = (Inr c, d')"
  shows "c = crc32 (disk_bytes (sector d0) (unat start) len)" "same_disk d0 d'"
  using entries_crc_loop_ok [OF assms(1,2), of 0] assms(3)
  by (auto simp: entries_crc_def bindS_Inr crc32_def)

lemma read_bytes_loop_ok:
  assumes "same_disk d0 d" "unat start + len < 2 ^ 64" "n \<le> len" "length out = len"
    "take n out = disk_bytes (sector d0) (unat start) n"
    "read_bytes_loop ops start len n buf out d = (Inr res, d')"
  shows "res = disk_bytes (sector d0) (unat start) len \<and> same_disk d0 d'"
  using assms
proof (induction "len - n" arbitrary: n buf out d rule: less_induct)
  case less
  show ?case
  proof (cases "n < len")
    case False
    with less.prems show ?thesis by (simp add: read_bytes_loop.simps)
  next
    case True
    define off where "off = unat ((start + word_of_nat n) mod 512 :: u64)"
    define count where "count = min (SECTOR_SIZE - off) (len - n)"
    obtain sec d1 where rd: "gpt_read_sector ops ((start + word_of_nat n) div 512) buf d = (Inr sec, d1)"
      and rest: "read_bytes_loop ops start len (n + count) sec (copy_at out n (slice sec off count)) d1 = (Inr res, d')"
      using less.prems(6) True
      by (subst (asm) read_bytes_loop.simps) (auto simp: Let_def bindS_Inr off_def count_def)
    note ch = gpt_chunk [OF less.prems(1,2) True rd, folded off_def, folded count_def]
    have len: "length (slice sec off count) = count" using ch(1) by simp
    have "len - (n + count) < len - n" using ch(2,3) by linarith
    moreover have "length (copy_at out n (slice sec off count)) = len"
      using length_copy_at [of n "slice sec off count" out] len less.prems(4) ch(2) by simp
    moreover have "take (n + count) (copy_at out n (slice sec off count)) =
        disk_bytes (sector d0) (unat start) (n + count)"
      using less.prems(4,5) len ch(1) True by (simp add: copy_at_def disk_bytes_add)
    ultimately show ?thesis
      using less.hyps [OF _ gpt_read_Inr(4) [OF less.prems(1) rd] less.prems(2) ch(2) _ _ rest] by blast
  qed
qed

lemma gpt_read_bytes_ok:
  assumes "same_disk d0 d" "unat start + length out < 2 ^ 64" "gpt_read_bytes ops start out d = (Inr res, d')"
  shows "res = disk_bytes (sector d0) (unat start) (length out)" "same_disk d0 d'"
  using read_bytes_loop_ok [OF assms(1,2), of 0 out] assms(3)
  by (auto simp: gpt_read_bytes_def disk_bytes_def)

end

section \<open>The scan\<close>

text \<open>An entry of the table as the scan reads it.\<close>

definition gpt_entry_used :: "bytes \<Rightarrow> bool" where
  "gpt_entry_used e \<longleftrightarrow> (\<exists>b\<in>set (take 16 e). b \<noteq> 0)"

definition gpt_entry_fat :: "bytes \<Rightarrow> bool" where
  "gpt_entry_fat e \<longleftrightarrow> take 16 e = EFI_SYSTEM_GUID \<or> take 16 e = BASIC_DATA_GUID"

definition gpt_entry_bounded :: "u64 \<Rightarrow> u64 \<Rightarrow> bytes \<Rightarrow> bool" where
  "gpt_entry_bounded lo hi e \<longleftrightarrow>
     lo \<le> gpt_read_u64 e 32 \<and> gpt_read_u64 e 32 \<le> gpt_read_u64 e 40 \<and> gpt_read_u64 e 40 \<le> hi"

definition gpt_entry_partition :: "bytes \<Rightarrow> Partition" where
  "gpt_entry_partition e =
     \<lparr>start_lba = gpt_read_u64 e 32, part_sectors = gpt_read_u64 e 40 - gpt_read_u64 e 32 + 1, kind = 0xee\<rparr>"

lemma gpt_fat_used: "gpt_entry_fat e \<Longrightarrow> gpt_entry_used e"
  by (auto simp: gpt_entry_fat_def gpt_entry_used_def EFI_SYSTEM_GUID_def BASIC_DATA_GUID_def)

lemma find_map_update:
  "(if sel = None then map_option f (find P (x # xs)) else sel) =
   (if (if sel = None \<and> P x then Some (f x) else sel) = None then map_option f (find P xs)
    else if sel = None \<and> P x then Some (f x) else sel)"
  by auto

context block_device
begin

lemma gpt_entries_loop_ok:
  assumes "same_disk d0 d" "gpt_entries_loop ops lo hi start sz is entry sel d = (Inr r, d')"
    and "length entry = 256" "128 \<le> sz" "sz \<le> 256"
    and "\<And>i. i \<in> set is \<Longrightarrow> unat start + i * sz + sz < 2 ^ 64"
  defines "E \<equiv> \<lambda>i. disk_bytes (sector d0) (unat start + i * sz) sz"
  shows "r = (if sel = None then map_option gpt_entry_partition (find gpt_entry_fat (map E is)) else sel) \<and>
    (\<forall>i\<in>set is. gpt_entry_used (E i) \<longrightarrow> gpt_entry_bounded lo hi (E i)) \<and> same_disk d0 d'"
  using assms(1-3,6)
proof (induction "is" arbitrary: entry sel d)
  case Nil
  then show ?case by simp
next
  case (Cons i rest)
  obtain out d1 where rd: "gpt_read_bytes ops (start + word_of_nat (i * sz)) (take sz entry) d = (Inr out, d1)"
    using Cons.prems(2) by (auto simp: bindS_Inr)
  have le: "unat start + i * sz + sz < 2 ^ 64" using Cons.prems(4) by simp
  then have u: "unat (start + word_of_nat (i * sz)) = unat start + i * sz"
    by (intro unat_add_of_nat) linarith
  have len: "length (take sz entry) = sz" using assms(5) Cons.prems(3) by simp
  have out: "out = E i" and d1: "same_disk d0 d1"
    using gpt_read_bytes_ok [OF Cons.prems(1) _ rd] u len le unfolding E_def by simp_all
  have lo: "length out = sz" unfolding out E_def by simp
  define e where "e = copy_at entry 0 out"
  have e: "take 16 e = take 16 out" "gpt_read_u64 e 32 = gpt_read_u64 out 32"
      "gpt_read_u64 e 40 = gpt_read_u64 out 40" "length e = 256"
    using lo assms(4,5) Cons.prems(3)
    by (simp_all add: e_def gpt_read_u64_def slice_copy_at_within) (simp add: copy_at_def)
  have unused: "list_all (\<lambda>b. b = 0) (take 16 e) \<longleftrightarrow> \<not> gpt_entry_used out"
    by (auto simp: e gpt_entry_used_def list_all_iff)
  note loop = Cons.prems(2) [simplified bindS_Inr gpt_entries_loop.simps rd, simplified, folded e_def,
      unfolded Let_def unused]
  define sel' where "sel' = (if sel = None \<and> gpt_entry_fat out then Some (gpt_entry_partition out) else sel)"
  have step: "gpt_entries_loop ops lo hi start sz rest e sel' d1 = (Inr r, d') \<and>
      (gpt_entry_used out \<longrightarrow> gpt_entry_bounded lo hi out)"
    using loop gpt_fat_used [of out]
    by (auto simp: thenS_Inr sel'_def gpt_entry_fat_def gpt_entry_partition_def e gpt_entry_bounded_def
        not_less split: if_splits)
  then have "r = (if sel' = None then map_option gpt_entry_partition (find gpt_entry_fat (map E rest)) else sel') \<and>
    (\<forall>i\<in>set rest. gpt_entry_used (E i) \<longrightarrow> gpt_entry_bounded lo hi (E i)) \<and> same_disk d0 d'"
    using Cons.IH [OF d1 _ e(4), of sel'] Cons.prems(4) by (metis list.set_intros(2))
  with step show ?case unfolding out sel'_def list.map find_map_update by simp
qed

end

text \<open>What the checks of an accepted header have established.\<close>

definition gpt_entries_start :: "bytes \<Rightarrow> nat" where
  "gpt_entries_start header = unat (gpt_read_u64 header 72) * 512"

definition gpt_entry_size :: "bytes \<Rightarrow> nat" where
  "gpt_entry_size header = unat (gpt_read_u32 header 84)"

definition gpt_entry_count :: "bytes \<Rightarrow> nat" where
  "gpt_entry_count header = unat (gpt_read_u32 header 80)"

definition gpt_entry_at :: "(u64 \<Rightarrow> bytes) \<Rightarrow> bytes \<Rightarrow> nat \<Rightarrow> bytes" where
  "gpt_entry_at sct header i =
     disk_bytes sct (gpt_entries_start header + i * gpt_entry_size header) (gpt_entry_size header)"

definition gpt_entries_bytes :: "(u64 \<Rightarrow> bytes) \<Rightarrow> bytes \<Rightarrow> bytes" where
  "gpt_entries_bytes sct header =
     disk_bytes sct (gpt_entries_start header) (gpt_entry_count header * gpt_entry_size header)"

definition gpt_header_bytes :: "bytes \<Rightarrow> bytes" where
  "gpt_header_bytes header = take (gpt_header_size header) (copy_at header 16 (replicate 4 0))"

definition gpt_bounds_ok :: "bytes \<Rightarrow> u64 \<Rightarrow> bool" where
  "gpt_bounds_ok header count \<longleftrightarrow>
     gpt_read_u64 header 40 \<le> gpt_read_u64 header 48 \<and> gpt_read_u64 header 48 < count \<and>
     128 \<le> gpt_entry_size header \<and> gpt_entry_size header \<le> 256 \<and>
     gpt_entries_start header + gpt_entry_count header * gpt_entry_size header \<le> unat count * 512 \<and>
     unat count * 512 < 2 ^ 64"

lemma check_gpt_bounds_Inr:
  assumes "check_gpt_bounds header count = Inr (start, len)"
  shows "unat start = gpt_entries_start header" "len = gpt_entry_count header * gpt_entry_size header"
    "gpt_bounds_ok header count"
proof -
  from assms obtain db fin where *:
    "len = gpt_entry_count header * gpt_entry_size header"
    "checked_mul (gpt_read_u64 header 72) 512 = Some start" "checked_mul count 512 = Some db"
    "checked_add start (word_of_nat len) = Some fin" "fin \<le> db"
    "gpt_read_u64 header 40 \<le> gpt_read_u64 header 48" "gpt_read_u64 header 48 < count"
    "128 \<le> gpt_entry_size header" "gpt_entry_size header \<le> 256" "gpt_entry_count header \<le> 128"
    by (auto simp: check_gpt_bounds_def Let_def bindE_Inr ok_or_Inr gpt_entry_count_def gpt_entry_size_def
        MAX_PARTITION_ENTRIES_def MAX_PARTITION_ENTRY_SIZE_def not_less not_le split: if_splits option.splits)
  have "len \<le> 128 * 256" unfolding *(1) by (rule mult_le_mono) (use * in simp_all)
  then have u: "unat (word_of_nat len :: u64) = len" by (simp add: unat_of_nat)
  show start: "unat start = gpt_entries_start header"
    using checked_mul_Some [OF *(2)] by (simp add: gpt_entries_start_def)
  have "unat db = unat count * 512" using checked_mul_Some [OF *(3)] by simp
  moreover have "unat count * 512 < 2 ^ 64" using *(3) by (simp add: checked_mul_def split: if_splits)
  moreover have "unat fin = unat start + len" using checked_add_Some [OF *(4)] u by simp
  ultimately show "gpt_bounds_ok header count"
    using * start by (simp add: gpt_bounds_ok_def word_le_nat_alt)
  show "len = gpt_entry_count header * gpt_entry_size header" by (rule *(1))
qed

lemma check_gpt_header_Inr:
  "check_gpt_header header = Inr h \<longleftrightarrow>
     take 8 header = ascii ''EFI PART'' \<and> gpt_read_u32 header 8 = 0x00010000 \<and>
     92 \<le> gpt_header_size header \<and> gpt_header_size header \<le> 512 \<and>
     crc32 (gpt_header_bytes header) = gpt_read_u32 header 16 \<and> h = copy_at header 16 (replicate 4 0)"
  by (auto simp: check_gpt_header_def Let_def gpt_header_bytes_def GPT_HEADER_MIN_SIZE_def SECTOR_SIZE_def)

lemma gpt_zeroed_fields:
  assumes "length header = 512" "20 \<le> off"
  shows "gpt_read_u32 (copy_at header 16 (replicate 4 0)) off = gpt_read_u32 header off"
    and "gpt_read_u64 (copy_at header 16 (replicate 4 0)) off = gpt_read_u64 header off"
  using assms by (simp_all add: gpt_read_u32_def gpt_read_u64_def slice_copy_at_after)

lemma gpt_zeroed_defs:
  assumes "length header = 512"
  shows "gpt_entries_start (copy_at header 16 (replicate 4 0)) = gpt_entries_start header"
    and "gpt_entry_size (copy_at header 16 (replicate 4 0)) = gpt_entry_size header"
    and "gpt_entry_count (copy_at header 16 (replicate 4 0)) = gpt_entry_count header"
    and "gpt_bounds_ok (copy_at header 16 (replicate 4 0)) count = gpt_bounds_ok header count"
  using gpt_zeroed_fields [OF assms]
  by (simp_all add: gpt_entries_start_def gpt_entry_size_def gpt_entry_count_def gpt_bounds_ok_def)

definition gpt_checksums_ok :: "(u64 \<Rightarrow> bytes) \<Rightarrow> bool" where
  "gpt_checksums_ok sct \<longleftrightarrow>
     take 8 (sct 1) = ascii ''EFI PART'' \<and> gpt_read_u32 (sct 1) 8 = 0x00010000 \<and>
     92 \<le> gpt_header_size (sct 1) \<and> gpt_header_size (sct 1) \<le> 512 \<and>
     crc32 (gpt_header_bytes (sct 1)) = gpt_read_u32 (sct 1) 16 \<and>
     crc32 (gpt_entries_bytes sct (sct 1)) = gpt_read_u32 (sct 1) 88"

context block_device
begin

lemma mbr_keeps: "keeps (same_disk d0) (validate_protective_mbr ops)"
  unfolding validate_protective_mbr_def by (intro keeps_intros)

lemma gpt_scan_Inr:
  assumes d: "inv d" and found: "find_fat_partition ops d = (Inr res, d')"
  defines "h \<equiv> sector d 1" and "E \<equiv> gpt_entry_at (sector d) (sector d 1)"
  shows "gpt_checksums_ok (sector d)" and "gpt_bounds_ok h (dev_sector_count ops d)" and "length h = 512"
    and "res = map_option gpt_entry_partition (find gpt_entry_fat (map E [0..<gpt_entry_count h]))"
    and "\<forall>i<gpt_entry_count h. gpt_entry_used (E i) \<longrightarrow>
      gpt_entry_bounded (gpt_read_u64 h 40) (gpt_read_u64 h 48) (E i)"
    and "same_disk d d'"
proof -
  note same0 = same_disk_refl [OF d]
  obtain u d1 hd d2 z start len crc d3 where *: "validate_protective_mbr ops d = (Inr u, d1)"
    "gpt_read_sector ops 1 (replicate SECTOR_SIZE 0) d1 = (Inr hd, d2)" "check_gpt_header hd = Inr z"
    "check_gpt_bounds z (dev_sector_count ops d2) = Inr (start, len)"
    "entries_crc ops start len d2 = (Inr crc, d3)" "crc = gpt_read_u32 z 88"
    "gpt_entries_loop ops (gpt_read_u64 z 40) (gpt_read_u64 z 48) start (unat (gpt_read_u32 z 84))
      [0..<unat (gpt_read_u32 z 80)] (replicate MAX_PARTITION_ENTRY_SIZE 0) None d3 = (Inr res, d')"
    using found by (auto simp: find_fat_partition_def thenS_Inr bindS_Inr split: prod.splits)
  have s1: "same_disk d d1" by (rule keepsD [OF mbr_keeps same0 *(1)])
  note rd = gpt_read_Inr [OF s1 *(2)]
  have hd: "hd = h" "length h = 512" using rd by (simp_all add: h_def)
  have cnt: "dev_sector_count ops d2 = dev_sector_count ops d" using rd(4) by (simp add: same_disk_def)
  have chk: "take 8 h = ascii ''EFI PART''" "gpt_read_u32 h 8 = 0x00010000" "92 \<le> gpt_header_size h"
    "gpt_header_size h \<le> 512" "crc32 (gpt_header_bytes h) = gpt_read_u32 h 16"
    and z: "z = copy_at h 16 (replicate 4 0)"
    using *(3) hd unfolding check_gpt_header_Inr by auto
  note bnd = check_gpt_bounds_Inr [OF *(4)]
  note zf = gpt_zeroed_fields [OF hd(2)] and zd = gpt_zeroed_defs [OF hd(2)]
  have ok: "gpt_bounds_ok h (dev_sector_count ops d)" using bnd(3) zd cnt z by simp
  then show "gpt_bounds_ok h (dev_sector_count ops d)" and "length h = 512" using hd(2) by simp_all
  have st: "unat start = gpt_entries_start h" "len = gpt_entry_count h * gpt_entry_size h"
    using bnd(1,2) zd z by simp_all
  have "unat start + len < 2 ^ 64" using ok st by (simp add: gpt_bounds_ok_def)
  from entries_crc_ok [OF rd(4) this *(5)] have crc: "crc = crc32 (gpt_entries_bytes (sector d) h)"
    and s3: "same_disk d d3" by (simp_all add: st gpt_entries_bytes_def)
  have "crc32 (gpt_entries_bytes (sector d) h) = gpt_read_u32 h 88" using crc *(6) zf z by simp
  with chk show "gpt_checksums_ok (sector d)" by (simp add: gpt_checksums_ok_def h_def)
  have fit: "unat start + i * gpt_entry_size h + gpt_entry_size h < 2 ^ 64" if "i < gpt_entry_count h" for i
  proof -
    have "Suc i * gpt_entry_size h \<le> len" unfolding st(2) using that by (intro mult_le_mono1) simp
    with \<open>unat start + len < 2 ^ 64\<close> show ?thesis by simp
  qed
  have loop: "gpt_entries_loop ops (gpt_read_u64 h 40) (gpt_read_u64 h 48) start (gpt_entry_size h)
      [0..<gpt_entry_count h] (replicate MAX_PARTITION_ENTRY_SIZE 0) None d3 = (Inr res, d')"
    using *(7) zf z by (simp add: gpt_entry_size_def gpt_entry_count_def)
  have E: "disk_bytes (sector d) (unat start + i * gpt_entry_size h) (gpt_entry_size h) = E i" for i
    by (simp add: E_def gpt_entry_at_def st(1) h_def)
  have sz: "128 \<le> gpt_entry_size h" "gpt_entry_size h \<le> 256" using ok by (simp_all add: gpt_bounds_ok_def)
  note res = gpt_entries_loop_ok [OF s3 loop _ sz, unfolded E]
  show "res = map_option gpt_entry_partition (find gpt_entry_fat (map E [0..<gpt_entry_count h]))"
    and "\<forall>i<gpt_entry_count h. gpt_entry_used (E i) \<longrightarrow>
      gpt_entry_bounded (gpt_read_u64 h 40) (gpt_read_u64 h 48) (E i)" and "same_disk d d'"
    using res fit by (simp_all add: MAX_PARTITION_ENTRY_SIZE_def)
qed

end

lemma gpt_partition_bounds:
  assumes "gpt_entry_bounded lo hi e" "hi < count"
  shows "unat (start_lba (gpt_entry_partition e)) + unat (part_sectors (gpt_entry_partition e)) \<le> unat count"
    and "part_sectors (gpt_entry_partition e) \<noteq> 0"
proof -
  let ?a = "gpt_read_u64 e 32" and ?b = "gpt_read_u64 e 40"
  have le: "unat ?a \<le> unat ?b" and lt: "unat ?b < unat count"
    using assms by (simp_all add: gpt_entry_bounded_def word_le_nat_alt word_less_nat_alt)
  have "unat ?b - unat ?a + 1 < 2 ^ 64" using lt unsigned_less [of count, where 'a = nat] by simp
  then have "unat (?b - ?a + 1) = unat ?b - unat ?a + 1"
    using le by (simp add: unat_word_ariths unat_sub word_le_nat_alt)
  with le lt show "unat (start_lba (gpt_entry_partition e)) + unat (part_sectors (gpt_entry_partition e)) \<le> unat count"
    and "part_sectors (gpt_entry_partition e) \<noteq> 0"
    by (auto simp: gpt_entry_partition_def)
qed


text \<open>Instance: the disk of the self test.\<close>

definition gpt_test_disk :: RamDisk where
  "gpt_test_disk =
     (ramdisk_new 16)\<lparr>sectors := [gpt_test_mbr, gpt_test_header, gpt_test_entries] @ replicate 13 (replicate 512 0)\<rparr>"

lemma gpt_test_disk_inv: "ramdisk_inv gpt_test_disk"
proof -
  have "length gpt_test_mbr = 512" "length gpt_test_header = 512" "length gpt_test_entries = 512"
    by code_simp+
  then show ?thesis by (simp add: gpt_test_disk_def wf_simps usize_limit_def SECTOR_SIZE_def)
qed

lemma gpt_test_disk_found:
  "find_fat_partition ramdisk_ops gpt_test_disk =
     (Inr (Some \<lparr>start_lba = 3, part_sectors = 5, kind = 0xee\<rparr>), gpt_test_disk)"
  by code_simp


section \<open>Corruption\<close>

definition one_byte_differs :: "bytes \<Rightarrow> bytes \<Rightarrow> bool" where
  "one_byte_differs xs ys \<longleftrightarrow> (\<exists>i<length xs. \<exists>b. b \<noteq> xs ! i \<and> ys = xs[i := b])"

text \<open>The header differs in one checked byte other than those of its size field.\<close>

definition gpt_header_corrupted :: "bytes \<Rightarrow> bytes \<Rightarrow> bool" where
  "gpt_header_corrupted h h' \<longleftrightarrow> (\<exists>i<gpt_header_size h. \<not> (12 \<le> i \<and> i < 16) \<and>
     (\<exists>b. b \<noteq> h ! i \<and> h' = h[i := b]))"

lemma slice_changed:
  assumes "off \<le> i" "i < off + n" "i < length xs" "b \<noteq> xs ! i"
  shows "slice (xs[i := b]) off n \<noteq> slice xs off n"
proof
  assume "slice (xs[i := b]) off n = slice xs off n"
  then have "slice (xs[i := b]) off n ! (i - off) = slice xs off n ! (i - off)" by simp
  with assms show False by (simp add: slice_def)
qed

lemma gpt_read_u32_changed:
  assumes "off \<le> i" "i < off + 4" "off + 4 \<le> length xs" "b \<noteq> xs ! i"
  shows "gpt_read_u32 (xs[i := b]) off \<noteq> gpt_read_u32 xs off"
proof
  assume "gpt_read_u32 (xs[i := b]) off = gpt_read_u32 xs off"
  then have "slice (xs[i := b]) off 4 = slice xs off 4"
    unfolding gpt_read_u32_def by (intro from_le_bytes_inj) (use assms in simp_all)
  with slice_changed [of off i 4 xs b] assms show False by simp
qed

lemma gpt_read_u32_other:
  "\<not> (off \<le> i \<and> i < off + 4) \<Longrightarrow> gpt_read_u32 (xs[i := b]) off = gpt_read_u32 xs off"
  by (auto simp: gpt_read_u32_def slice_update not_less intro!: arg_cong [where f = from_le_bytes] list_update_beyond)

lemma copy_at_update_after:
  assumes "off + length src \<le> i" "off + length src \<le> length dst"
  shows "copy_at (dst[i := b]) off src = (copy_at dst off src)[i := b]"
proof (rule nth_equalityI)
  fix k assume "k < length (copy_at (dst[i := b]) off src)"
  then show "copy_at (dst[i := b]) off src ! k = (copy_at dst off src)[i := b] ! k"
    using assms by (cases "k = i") (auto simp: nth_copy_at)
qed (use assms in simp)

lemma header_corruption:
  assumes ok: "gpt_checksums_ok sct" and len: "length (sct 1) = 512"
    and bad: "gpt_header_corrupted (sct 1) (sct' 1)"
  shows "\<not> gpt_checksums_ok sct'"
proof
  assume ok': "gpt_checksums_ok sct'"
  from bad obtain i b where i: "i < gpt_header_size (sct 1)" "\<not> (12 \<le> i \<and> i < 16)"
    "b \<noteq> sct 1 ! i" "sct' 1 = (sct 1)[i := b]"
    by (auto simp: gpt_header_corrupted_def)
  have sz: "gpt_header_size (sct' 1) = gpt_header_size (sct 1)"
    unfolding gpt_header_size_def i(4) using i(2) by (subst gpt_read_u32_other) auto
  have hs: "gpt_header_size (sct 1) \<le> 512" using ok by (simp add: gpt_checksums_ok_def)
  then have il: "i < length (sct 1)" using i(1) len by simp
  consider "i < 8" | "8 \<le> i" "i < 12" | "16 \<le> i" "i < 20" | "20 \<le> i" using i(2) by linarith
  then show False
  proof cases
    case 1
    then have "slice ((sct 1)[i := b]) 0 8 \<noteq> slice (sct 1) 0 8" using slice_changed [of 0 i 8] il i(3) by simp
    with ok ok' i(4) show False by (simp add: gpt_checksums_ok_def slice_def)
  next
    case 2
    with gpt_read_u32_changed [of 8 i "sct 1" b] len i(3,4) ok ok' show False
      by (simp add: gpt_checksums_ok_def)
  next
    case 3
    then have "copy_at (sct' 1) 16 (replicate 4 0) = copy_at (sct 1) 16 (replicate 4 0)"
      unfolding i(4) copy_at_def by simp
    with gpt_read_u32_changed [of 16 i "sct 1" b] len i(3,4) ok ok' 3 sz show False
      by (simp add: gpt_checksums_ok_def gpt_header_bytes_def)
  next
    case 4
    then have c: "copy_at (sct' 1) 16 (replicate 4 0) = (copy_at (sct 1) 16 (replicate 4 0))[i := b]"
      using len il unfolding i(4) by (intro copy_at_update_after) simp_all
    have "gpt_header_bytes (sct' 1) = (gpt_header_bytes (sct 1))[i := b]"
      unfolding gpt_header_bytes_def sz c by (simp add: take_update_swap)
    moreover have "i < length (gpt_header_bytes (sct 1))" "b \<noteq> gpt_header_bytes (sct 1) ! i"
      using i(1,3) il len 4 by (simp_all add: gpt_header_bytes_def nth_copy_at)
    ultimately have "crc32 (gpt_header_bytes (sct' 1)) \<noteq> crc32 (gpt_header_bytes (sct 1))"
      using crc32_detects by simp
    moreover have "gpt_read_u32 (sct' 1) 16 = gpt_read_u32 (sct 1) 16"
      unfolding i(4) using 4 by (intro gpt_read_u32_other) simp
    ultimately show False using ok ok' by (simp add: gpt_checksums_ok_def)
  qed
qed

lemma entries_corruption:
  assumes "gpt_checksums_ok sct" "sct' 1 = sct 1"
    "one_byte_differs (gpt_entries_bytes sct (sct 1)) (gpt_entries_bytes sct' (sct 1))"
  shows "\<not> gpt_checksums_ok sct'"
  using assms crc32_detects unfolding gpt_checksums_ok_def one_byte_differs_def by metis



text \<open>The boot-time self test accepts the table and rejects both of its corruptions.\<close>

lemma gpt_self_test_passes: gpt_self_test
  by code_simp

end
