(* ===== verification/Heap.thy ===== *)
theory Heap
  imports Slot_Table
begin

text \<open>
  The kernel heap (\<open>kernel/src/heap.rs\<close>): a best-fit free list in front of a bump allocator.
  Live allocations are aligned, inside the heap and never overlap, whatever the order of
  allocations and frees; freed memory is reused only while the free list has unused slots,
  which it never regains.
\<close>

section \<open>Model\<close>

definition HEAP_START :: nat where
  "HEAP_START = 0x444450000000"

definition HEAP_SIZE :: nat where
  "HEAP_SIZE = 256 * 1024"

definition MAX_ALLOCATIONS :: nat where
  "MAX_ALLOCATIONS = 512"

definition MAX_FREE_BLOCKS :: nat where
  "MAX_FREE_BLOCKS = 128"

text \<open>\<open>core::alloc::Layout\<close>.\<close>

record Layout =
  lay_size :: nat
  lay_align :: nat

record FreeBlock =
  fb_ptr :: nat
  fb_size :: nat

record LiveAllocation =
  la_ptr :: nat
  la_size :: nat

record HeapState =
  heap_start :: nat
  heap_end :: nat
  heap_next :: nat
  total_allocations :: nat
  total_allocated_bytes :: nat
  live_allocations :: "LiveAllocation option list"
  free_list :: "FreeBlock option list"
  free_count :: nat

datatype heap_init_error = Paging | HeapAlreadyInitialized | HeapAddressOverflow

definition heap_empty :: HeapState where
  "heap_empty =
     \<lparr>heap_start = 0, heap_end = 0, heap_next = 0, total_allocations = 0, total_allocated_bytes = 0,
      live_allocations = replicate MAX_ALLOCATIONS None, free_list = replicate MAX_FREE_BLOCKS None,
      free_count = 0\<rparr>"

text \<open>\<open>mapped\<close> is the outcome of \<open>paging::map_range(START, SIZE)\<close>.\<close>

definition heap_init :: "bool \<Rightarrow> HeapState \<Rightarrow> (heap_init_error + unit) \<times> HeapState" where
  "heap_init mapped h =
     (if heap_start h \<noteq> 0 then (Inl HeapAlreadyInitialized, h)
      else if \<not> mapped then (Inl Paging, h)
      else case checked_add_usize HEAP_START HEAP_SIZE of
             None \<Rightarrow> (Inl HeapAddressOverflow, h)
           | Some fin \<Rightarrow> (Inr (), h\<lparr>heap_start := HEAP_START, heap_end := fin, heap_next := HEAP_START\<rparr>))"

text \<open>\<open>address & !(alignment - 1)\<close> on 64-bit \<open>usize\<close> values.\<close>

definition usize_and_not :: "nat \<Rightarrow> nat \<Rightarrow> nat" where
  "usize_and_not a m = unat (and (word_of_nat a :: u64) (not (word_of_nat m)))"

definition heap_align_up :: "nat \<Rightarrow> nat \<Rightarrow> nat option" where
  "heap_align_up value alignment =
     (if alignment = 0 \<or> \<not> is_power_of_two (word_of_nat alignment :: u64) then None
      else map_option (\<lambda>address. usize_and_not address (alignment - 1))
             (checked_add_usize value (alignment - 1)))"

definition insert_free_block :: "HeapState \<Rightarrow> FreeBlock \<Rightarrow> HeapState" where
  "insert_free_block h block =
     (if fb_size block = 0 then h
      else if free_count h < MAX_FREE_BLOCKS then
        h\<lparr>free_list := (free_list h)[free_count h := Some block], free_count := free_count h + 1\<rparr>
      else h)"

text \<open>
  The search for the best fit. The outer \<open>None\<close> is the early return when an address cannot be
  aligned; the inner value is \<open>best_idx\<close>.
\<close>

fun find_best :: "FreeBlock option list \<Rightarrow> Layout \<Rightarrow> nat list \<Rightarrow> nat option \<Rightarrow> nat \<Rightarrow> nat option option" where
  "find_best fl layout [] best_idx best_size = Some best_idx"
| "find_best fl layout (i # rest) best_idx best_size =
     (case fl ! i of
        None \<Rightarrow> find_best fl layout rest best_idx best_size
      | Some block \<Rightarrow>
          (case heap_align_up (fb_ptr block) (lay_align layout) of
             None \<Rightarrow> None
           | Some aligned \<Rightarrow>
               (let waste = aligned - fb_ptr block in
                if waste + lay_size layout \<le> fb_size block \<and> fb_size block < best_size
                then find_best fl layout rest (Some i) (fb_size block)
                else find_best fl layout rest best_idx best_size)))"

definition find_free :: "HeapState \<Rightarrow> Layout \<Rightarrow> nat option \<times> HeapState" where
  "find_free h layout =
     (case find_best (free_list h) layout [0..<free_count h] None (usize_limit - 1) of
        Some (Some idx) \<Rightarrow>
          (case free_list h ! idx of
             None \<Rightarrow> (None, h)
           | Some block \<Rightarrow>
               (let h = h\<lparr>free_list := (free_list h)[idx := None]\<rparr> in
                case heap_align_up (fb_ptr block) (lay_align layout) of
                  None \<Rightarrow> (None, h)
                | Some aligned \<Rightarrow>
                    (let waste = aligned - fb_ptr block;
                         remaining = fb_size block - (waste + lay_size layout)
                     in (Some aligned,
                         if remaining > 0
                         then insert_free_block h \<lparr>fb_ptr = aligned + lay_size layout, fb_size = remaining\<rparr>
                         else h))))
      | _ \<Rightarrow> (None, h))"

text \<open>Entering a live allocation into a slot and counting it.\<close>

definition record_live :: "HeapState \<Rightarrow> nat \<Rightarrow> nat \<Rightarrow> nat \<Rightarrow> HeapState" where
  "record_live h slot ptr sz =
     h\<lparr>live_allocations := (live_allocations h)[slot := Some \<lparr>la_ptr = ptr, la_size = sz\<rparr>],
       total_allocations := total_allocations h + 1,
       total_allocated_bytes := total_allocated_bytes h + sz\<rparr>"

text \<open>The null pointer is address 0.\<close>

definition heap_alloc :: "HeapState \<Rightarrow> Layout \<Rightarrow> nat \<times> HeapState" where
  "heap_alloc h layout =
     (if heap_start h = 0 then (0, h)
      else case find_free h layout of
        (Some ptr, h') \<Rightarrow>
          (case free_slot (live_allocations h') of
             None \<Rightarrow> (0, h')
           | Some slot \<Rightarrow> (ptr, record_live h' slot ptr (lay_size layout)))
      | (None, h') \<Rightarrow>
          (case heap_align_up (heap_next h') (lay_align layout) of
             None \<Rightarrow> (0, h')
           | Some aligned \<Rightarrow>
               (case checked_add_usize aligned (lay_size layout) of
                  None \<Rightarrow> (0, h')
                | Some fin \<Rightarrow>
                    if heap_end h' < fin then (0, h')
                    else case free_slot (live_allocations h') of
                           None \<Rightarrow> (0, h')
                         | Some slot \<Rightarrow>
                             (aligned, (record_live h' slot aligned (lay_size layout))\<lparr>heap_next := fin\<rparr>))))"

definition heap_dealloc :: "HeapState \<Rightarrow> nat \<Rightarrow> HeapState" where
  "heap_dealloc h ptr =
     (case slot_where (\<lambda>a. la_ptr a = ptr) (live_allocations h) of
        None \<Rightarrow> h
      | Some slot \<Rightarrow>
          (case live_allocations h ! slot of
             None \<Rightarrow> h
           | Some allocation \<Rightarrow>
               insert_free_block
                 (h\<lparr>live_allocations := (live_allocations h)[slot := None],
                    total_allocations := total_allocations h - 1,
                    total_allocated_bytes := total_allocated_bytes h - la_size allocation\<rparr>)
                 \<lparr>fb_ptr = la_ptr allocation, fb_size = la_size allocation\<rparr>))"

record HeapStats =
  hs_start :: nat
  hs_size :: nat
  allocated_bytes :: nat
  free_bytes :: nat
  allocations :: nat

definition heap_stats :: "HeapState \<Rightarrow> HeapStats" where
  "heap_stats h =
     \<lparr>hs_start = HEAP_START, hs_size = HEAP_SIZE, allocated_bytes = total_allocated_bytes h,
      free_bytes = sum_list (map (\<lambda>s. case s of None \<Rightarrow> 0 | Some b \<Rightarrow> fb_size b) (take (free_count h) (free_list h))),
      allocations = total_allocations h\<rparr>"

section \<open>Blocks as sets of addresses\<close>

text \<open>How many of the blocks in a slot array contain an address.\<close>

definition hits_slot :: "('b \<Rightarrow> nat) \<Rightarrow> ('b \<Rightarrow> nat) \<Rightarrow> nat \<Rightarrow> 'b option \<Rightarrow> nat" where
  "hits_slot ptr sz x s =
     (case s of None \<Rightarrow> 0 | Some b \<Rightarrow> if ptr b \<le> x \<and> x < ptr b + sz b then 1 else 0)"

definition cover :: "('b \<Rightarrow> nat) \<Rightarrow> ('b \<Rightarrow> nat) \<Rightarrow> 'b option list \<Rightarrow> nat \<Rightarrow> nat" where
  "cover ptr sz xs x = sum_list (map (hits_slot ptr sz x) xs)"

lemma cover_update:
  assumes "i < length xs"
  shows "cover ptr sz (xs[i := y]) x + hits_slot ptr sz x (xs ! i) = cover ptr sz xs x + hits_slot ptr sz x y"
  using assms unfolding cover_def
proof (induction xs arbitrary: i)
  case Nil
  then show ?case by simp
next
  case (Cons a xs)
  show ?case
  proof (cases i)
    case 0
    then show ?thesis by simp
  next
    case (Suc k)
    with Cons.IH [of k] Cons.prems show ?thesis by simp
  qed
qed

lemma cover_replicate: "cover ptr sz (replicate n None) x = 0"
  by (simp add: cover_def hits_slot_def sum_list_replicate)

lemma cover_ge: "i < length xs \<Longrightarrow> hits_slot ptr sz x (xs ! i) \<le> cover ptr sz xs x"
  unfolding cover_def by (rule member_le_sum_list) simp_all

lemma cover_two:
  assumes "i < length xs" "j < length xs" "i \<noteq> j"
  shows "hits_slot ptr sz x (xs ! i) + hits_slot ptr sz x (xs ! j) \<le> cover ptr sz xs x"
proof -
  have "hits_slot ptr sz x None = 0" by (simp add: hits_slot_def)
  then have "cover ptr sz (xs[i := None]) x + hits_slot ptr sz x (xs ! i) = cover ptr sz xs x"
    using cover_update [OF assms(1), of ptr sz None x] by simp
  moreover have "hits_slot ptr sz x (xs ! j) \<le> cover ptr sz (xs[i := None]) x"
    using cover_ge [of j "xs[i := None]" ptr sz x] assms(2,3) by simp
  ultimately show ?thesis by simp
qed

abbreviation live_cover :: "HeapState \<Rightarrow> nat \<Rightarrow> nat" where
  "live_cover h \<equiv> cover la_ptr la_size (live_allocations h)"

abbreviation free_cover :: "HeapState \<Rightarrow> nat \<Rightarrow> nat" where
  "free_cover h \<equiv> cover fb_ptr fb_size (free_list h)"

text \<open>
  The heap invariant: every address below the bump pointer is in at most one block, live or
  free, and no block lies elsewhere.
\<close>

definition heap_inv :: "HeapState \<Rightarrow> bool" where
  "heap_inv h \<longleftrightarrow>
     0 < heap_start h \<and> heap_start h \<le> heap_next h \<and> heap_next h \<le> heap_end h \<and> heap_end h < usize_limit \<and>
     length (live_allocations h) = MAX_ALLOCATIONS \<and> length (free_list h) = MAX_FREE_BLOCKS \<and>
     free_count h \<le> MAX_FREE_BLOCKS \<and>
     (\<forall>a. Some a \<in> set (live_allocations h) \<longrightarrow> 0 < la_size a) \<and>
     (\<forall>x. live_cover h x + free_cover h x \<le> (if heap_start h \<le> x \<and> x < heap_next h then 1 else 0))"

text \<open>What a caller of the global allocator guarantees of a layout.\<close>

definition layout_ok :: "Layout \<Rightarrow> bool" where
  "layout_ok l \<longleftrightarrow> 0 < lay_size l \<and> is_power_of_two (word_of_nat (lay_align l) :: u64) \<and>
     lay_align l < usize_limit"

section \<open>The operations\<close>

lemma usize_and_not_pow2:
  assumes "a < usize_limit" "n < 64"
  shows "usize_and_not a (2 ^ n - 1) = a - a mod 2 ^ n"
proof -
  have "unat (word_of_nat a :: u64) = a" using assms(1) by (simp add: unat_of_nat usize_limit_def)
  moreover have "(word_of_nat (2 ^ n - 1) :: u64) = 2 ^ n - 1" by (simp add: of_nat_diff)
  ultimately show ?thesis using unat_align_down [of n "word_of_nat a :: u64"] assms(2)
    by (simp add: usize_and_not_def)
qed

lemma heap_align_up_ok:
  assumes "layout_ok l" "heap_align_up v (lay_align l) = Some a"
  shows "lay_align l dvd a" "v \<le> a"
proof -
  have "is_power_of_two (word_of_nat (lay_align l) :: u64)" and lt: "lay_align l < 2 ^ 64"
    using assms(1) by (simp_all add: layout_ok_def usize_limit_def)
  then obtain n where n: "n < LENGTH(64)" "unat (word_of_nat (lay_align l) :: u64) = 2 ^ n"
    by (elim is_power_of_twoE)
  have al: "lay_align l = 2 ^ n" using n(2) lt by (simp add: unat_of_nat)
  from assms(2) have a: "a = usize_and_not (v + (2 ^ n - 1)) (2 ^ n - 1)" and lim: "v + (2 ^ n - 1) < usize_limit"
    by (auto simp: heap_align_up_def al split: if_splits)
  have eq: "a = v + (2 ^ n - 1) - (v + (2 ^ n - 1)) mod 2 ^ n"
    unfolding a by (rule usize_and_not_pow2 [OF lim]) (use n(1) in simp)
  show "lay_align l dvd a" unfolding eq al by (rule dvd_minus_mod)
  have "(v + (2 ^ n - 1)) mod 2 ^ n \<le> 2 ^ n - 1" by (simp add: less_Suc_eq_le [symmetric])
  then show "v \<le> a" unfolding eq by linarith
qed

text \<open>The search returns a block that fits.\<close>

definition fits :: "Layout \<Rightarrow> FreeBlock \<Rightarrow> bool" where
  "fits l b \<longleftrightarrow> (\<exists>a. heap_align_up (fb_ptr b) (lay_align l) = Some a \<and> a - fb_ptr b + lay_size l \<le> fb_size b)"

lemma find_best_fits:
  assumes "find_best fl l is best bs = Some (Some i)"
  shows "best = Some i \<or> i \<in> set is \<and> (\<exists>b. fl ! i = Some b \<and> fits l b)"
  using assms
proof (induction fl l "is" best bs rule: find_best.induct)
  case (1 fl l best bs)
  then show ?case by simp
next
  case (2 fl l j rest best bs)
  show ?case
  proof (cases "fl ! j")
    case None
    with 2(1) [OF None] 2(4) show ?thesis by auto
  next
    case (Some b)
    then obtain a where a: "heap_align_up (fb_ptr b) (lay_align l) = Some a"
      using 2(4) by (auto split: option.splits)
    show ?thesis
    proof (cases "a - fb_ptr b + lay_size l \<le> fb_size b \<and> fb_size b < bs")
      case True
      then have "fits l b" using a by (auto simp: fits_def)
      with 2(2) [OF Some a refl True] 2(4) Some a True show ?thesis by (auto simp: Let_def)
    next
      case False
      with 2(3) [OF Some a refl False] 2(4) Some a show ?thesis by (auto simp: Let_def)
    qed
  qed
qed

text \<open>Cutting an aligned piece out of a free block leaves at most the rest of it.\<close>

definition piece :: "nat \<Rightarrow> nat \<Rightarrow> nat \<Rightarrow> nat" where
  "piece p n x = (if p \<le> x \<and> x < p + n then 1 else 0)"

lemma hits_slot_simps [simp]:
  "hits_slot ptr sz x None = 0" "hits_slot ptr sz x (Some b) = piece (ptr b) (sz b) x"
  by (simp_all add: hits_slot_def piece_def)

lemma insert_free_cover:
  assumes "length (free_list h) = MAX_FREE_BLOCKS"
  shows "free_cover (insert_free_block h b) x \<le> free_cover h x + piece (fb_ptr b) (fb_size b) x"
proof (cases "fb_size b = 0 \<or> \<not> free_count h < MAX_FREE_BLOCKS")
  case True
  then show ?thesis by (auto simp: insert_free_block_def)
next
  case False
  then have "free_count h < length (free_list h)" using assms by simp
  from cover_update [OF this, of fb_ptr fb_size "Some b" x] False show ?thesis
    by (simp add: insert_free_block_def)
qed

text \<open>The fields an operation on the free list leaves alone.\<close>

definition same_live :: "HeapState \<Rightarrow> HeapState \<Rightarrow> bool" where
  "same_live h h' \<longleftrightarrow> live_allocations h' = live_allocations h \<and> heap_start h' = heap_start h \<and>
     heap_next h' = heap_next h \<and> heap_end h' = heap_end h \<and>
     length (free_list h') = length (free_list h) \<and> (free_count h \<le> MAX_FREE_BLOCKS \<longrightarrow> free_count h' \<le> MAX_FREE_BLOCKS)"

lemma same_live_insert: "same_live h (insert_free_block h b)"
  by (simp add: same_live_def insert_free_block_def)

lemma heap_inv_shrink:
  assumes "heap_inv h" "same_live h h'" "\<And>x. free_cover h' x \<le> free_cover h x"
  shows "heap_inv h'"
proof -
  have "live_cover h' x + free_cover h' x \<le> (if heap_start h' \<le> x \<and> x < heap_next h' then 1 else 0)" for x
    using assms(1) assms(3) [of x] assms(2) unfolding heap_inv_def same_live_def by (metis add_le_cancel_left order_trans)
  with assms(1,2) show ?thesis by (simp add: heap_inv_def same_live_def)
qed

lemma find_free_None:
  assumes "heap_inv h" "find_free h l = (None, h')"
  shows "same_live h h' \<and> free_cover h' x \<le> free_cover h x"
proof -
  have "h' = h \<or> (\<exists>i<length (free_list h). h' = h\<lparr>free_list := (free_list h)[i := None]\<rparr>)"
  proof (cases "find_best (free_list h) l [0..<free_count h] None (usize_limit - 1)")
    case None
    with assms(2) show ?thesis by (simp add: find_free_def)
  next
    case (Some r)
    show ?thesis
    proof (cases r)
      case None
      with assms(2) Some show ?thesis by (simp add: find_free_def)
    next
      case r: (Some i)
      with find_best_fits Some have "i < free_count h" by fastforce
      then have "i < length (free_list h)" using assms(1) by (simp add: heap_inv_def)
      with assms(2) Some r show ?thesis by (auto simp: find_free_def Let_def split: option.splits)
    qed
  qed
  then show ?thesis
  proof (elim disjE exE conjE)
    fix i assume "i < length (free_list h)" "h' = h\<lparr>free_list := (free_list h)[i := None]\<rparr>"
    then show ?thesis using cover_update [of i "free_list h" fb_ptr fb_size None x] by (simp add: same_live_def)
  qed (simp add: same_live_def)
qed

lemma find_free_Some:
  assumes inv: "heap_inv h" and l: "layout_ok l" and ff: "find_free h l = (Some p, h')"
  shows "same_live h h'" and "lay_align l dvd p"
    and "\<And>x. free_cover h' x + piece p (lay_size l) x \<le> free_cover h x"
proof -
  from ff obtain i b where best: "find_best (free_list h) l [0..<free_count h] None (usize_limit - 1) = Some (Some i)"
    and b: "free_list h ! i = Some b"
    by (auto simp: find_free_def Let_def split: option.splits)
  from find_best_fits [OF best] b obtain a where i: "i < free_count h"
    and a: "heap_align_up (fb_ptr b) (lay_align l) = Some a" "a - fb_ptr b + lay_size l \<le> fb_size b"
    by (auto simp: fits_def)
  let ?h = "h\<lparr>free_list := (free_list h)[i := None]\<rparr>"
  let ?rem = "fb_size b - (a - fb_ptr b + lay_size l)"
  let ?b = "\<lparr>fb_ptr = a + lay_size l, fb_size = ?rem\<rparr>"
  note al = heap_align_up_ok [OF l a(1)]
  from ff best b a have p: "p = a" and h': "h' = (if ?rem > 0 then insert_free_block ?h ?b else ?h)"
    by (auto simp: find_free_def Let_def)
  have len: "i < length (free_list h)" "length (free_list ?h) = MAX_FREE_BLOCKS"
    using inv i by (simp_all add: heap_inv_def)
  have "same_live h ?h" by (simp add: same_live_def)
  then show "same_live h h'" using same_live_insert [of ?h ?b] unfolding h' by (auto simp: same_live_def)
  show "lay_align l dvd p" using al(1) p by simp
  fix x
  have "free_cover h' x \<le> free_cover ?h x + piece (a + lay_size l) ?rem x"
    using insert_free_cover [OF len(2), of ?b x] unfolding h' by simp
  moreover have "free_cover ?h x + piece (fb_ptr b) (fb_size b) x = free_cover h x"
    using cover_update [OF len(1), of fb_ptr fb_size None x] b by simp
  moreover have "piece a (lay_size l) x + piece (a + lay_size l) ?rem x \<le> piece (fb_ptr b) (fb_size b) x"
    using al(2) a(2) by (auto simp: piece_def)
  ultimately show "free_cover h' x + piece p (lay_size l) x \<le> free_cover h x" unfolding p by linarith
qed

text \<open>
  What an allocation promises: the block is aligned, inside the heap, disjoint from every live
  block, and becomes live; a null result leaves the live blocks alone.
\<close>

definition alloc_ok :: "HeapState \<Rightarrow> Layout \<Rightarrow> nat \<Rightarrow> HeapState \<Rightarrow> bool" where
  "alloc_ok h l p h' \<longleftrightarrow> heap_inv h' \<and> heap_start h' = heap_start h \<and> heap_end h' = heap_end h \<and>
     (if p = 0 then live_allocations h' = live_allocations h
      else lay_align l dvd p \<and> heap_start h \<le> p \<and> p + lay_size l \<le> heap_end h \<and>
        (\<forall>x. live_cover h x + piece p (lay_size l) x \<le> 1) \<and>
        (\<exists>i. i < length (live_allocations h) \<and> live_allocations h ! i = None \<and>
           live_allocations h' = (live_allocations h)[i := Some \<lparr>la_ptr = p, la_size = lay_size l\<rparr>]))"

lemma record_live_ok:
  assumes h: "heap_inv h" and l: "layout_ok l" and slot: "free_slot (live_allocations h) = Some i"
    and al: "lay_align l dvd p"
    and h': "heap_start h' \<le> heap_next h' \<and> heap_next h' \<le> heap_end h' \<and>
        length (free_list h') = MAX_FREE_BLOCKS \<and> free_count h' \<le> MAX_FREE_BLOCKS"
      "heap_start h' = heap_start h" "heap_end h' = heap_end h"
      "live_allocations h' = (live_allocations h)[i := Some \<lparr>la_ptr = p, la_size = lay_size l\<rparr>]"
    and room: "\<And>x. live_cover h x + piece p (lay_size l) x + free_cover h' x \<le>
      (if heap_start h' \<le> x \<and> x < heap_next h' then 1 else 0)"
  shows "alloc_ok h l p h'"
proof -
  from free_slot_Some [OF slot] have i: "i < length (live_allocations h)" "live_allocations h ! i = None" by auto
  have cov: "live_cover h' x = live_cover h x + piece p (lay_size l) x" for x
    using cover_update [OF i(1), of la_ptr la_size "Some \<lparr>la_ptr = p, la_size = lay_size l\<rparr>" x] i(2) h'(4) by simp
  have size: "0 < lay_size l" using l by (simp add: layout_ok_def)
  then have "piece p (lay_size l) p = 1" "piece p (lay_size l) (p + lay_size l - 1) = 1" by (auto simp: piece_def)
  with room [of p] room [of "p + lay_size l - 1"]
  have "heap_start h' \<le> p" "p < heap_next h'" "p + lay_size l - 1 < heap_next h'" by (auto split: if_splits)
  moreover have "heap_next h' \<le> heap_end h'" "0 < heap_start h'" using h'(1,2) h by (simp_all add: heap_inv_def)
  ultimately have bounds: "heap_start h \<le> p" "p + lay_size l \<le> heap_end h" "p \<noteq> 0" using size h'(2,3) by linarith+
  have "heap_inv h'" unfolding heap_inv_def
  proof (intro conjI allI impI)
    fix x show "live_cover h' x + free_cover h' x \<le> (if heap_start h' \<le> x \<and> x < heap_next h' then 1 else 0)"
      using room [of x] by (simp add: cov)
  next
    fix a assume "Some a \<in> set (live_allocations h')"
    then have "Some a \<in> set (live_allocations h) \<or> a = \<lparr>la_ptr = p, la_size = lay_size l\<rparr>"
      unfolding h'(4) using set_update_subset_insert [of "live_allocations h" i] by auto
    then show "0 < la_size a" using h size by (auto simp: heap_inv_def)
  qed (use h' h in \<open>simp_all add: heap_inv_def\<close>)
  moreover have "live_cover h x + piece p (lay_size l) x \<le> 1" for x using room [of x] by (simp split: if_splits)
  ultimately show ?thesis using i bounds al h'(2-4) by (auto simp: alloc_ok_def)
qed

lemma heap_alloc_ok:
  assumes inv: "heap_inv h" and l: "layout_ok l" and al: "heap_alloc h l = (p, h')"
  shows "alloc_ok h l p h'"
proof -
  have started: "heap_start h \<noteq> 0" using inv by (simp add: heap_inv_def)
  obtain r h1 where ff: "find_free h l = (r, h1)" by force
  have sl: "same_live h h1" "heap_inv h1" "\<And>x. free_cover h1 x \<le> free_cover h x"
  proof -
    show c: "same_live h h1" "\<And>x. free_cover h1 x \<le> free_cover h x"
      using find_free_None [OF inv, of l h1] find_free_Some(1,3) [OF inv l, of _ h1] ff
      by (cases r; auto intro: order_trans [OF le_add1])+
    show "heap_inv h1" by (rule heap_inv_shrink [OF inv c])
  qed
  then have lv: "live_allocations h1 = live_allocations h" "heap_start h1 = heap_start h"
    "heap_next h1 = heap_next h" "heap_end h1 = heap_end h" by (simp_all add: same_live_def)
  have null: "alloc_ok h l 0 h1" using sl(2) lv by (simp add: alloc_ok_def)
  show ?thesis
  proof (cases r)
    case (Some q)
    note f = find_free_Some [OF inv l ff [unfolded Some]]
    show ?thesis
    proof (cases "free_slot (live_allocations h1)")
      case None
      with al started ff Some null show ?thesis by (simp add: heap_alloc_def)
    next
      case slot: (Some i)
      let ?h = "record_live h1 i q (lay_size l)"
      from al started ff Some slot have r: "p = q" "h' = ?h" by (auto simp: heap_alloc_def)
      have "live_cover h x + free_cover h x \<le> (if heap_start h \<le> x \<and> x < heap_next h then 1 else 0)" for x
        using inv by (simp add: heap_inv_def)
      moreover have "free_cover h1 x + piece q (lay_size l) x \<le> free_cover h x" for x by (rule f(3))
      moreover have "free_list ?h = free_list h1" "heap_start ?h = heap_start h" "heap_next ?h = heap_next h"
        using lv by (simp_all add: record_live_def)
      ultimately have room: "live_cover h x + piece q (lay_size l) x + free_cover ?h x \<le>
          (if heap_start ?h \<le> x \<and> x < heap_next ?h then 1 else 0)" for x
        unfolding add.assoc add.commute [of "piece q (lay_size l) x"]
        by (simp only:) (rule order_trans [OF add_left_mono])
      have "heap_start ?h \<le> heap_next ?h \<and> heap_next ?h \<le> heap_end ?h \<and>
          length (free_list ?h) = MAX_FREE_BLOCKS \<and> free_count ?h \<le> MAX_FREE_BLOCKS"
        using sl(2) by (simp add: heap_inv_def record_live_def)
      from record_live_ok [OF inv l _ f(2) this _ _ _ room] slot lv r show ?thesis
        by (simp add: record_live_def)
    qed
  next
    case None
    let ?a = "heap_align_up (heap_next h1) (lay_align l)"
    have bump: "(p, h') = (case ?a of None \<Rightarrow> (0, h1) | Some aligned \<Rightarrow>
        (case checked_add_usize aligned (lay_size l) of None \<Rightarrow> (0, h1) | Some fin \<Rightarrow>
          if heap_end h1 < fin then (0, h1)
          else case free_slot (live_allocations h1) of None \<Rightarrow> (0, h1)
            | Some slot \<Rightarrow> (aligned, (record_live h1 slot aligned (lay_size l))\<lparr>heap_next := fin\<rparr>)))"
      using al started ff None by (simp add: heap_alloc_def)
    show ?thesis
    proof (cases "\<exists>a i. ?a = Some a \<and> a + lay_size l < usize_limit \<and> a + lay_size l \<le> heap_end h1 \<and>
        free_slot (live_allocations h1) = Some i")
      case False
      then have "p = 0 \<and> h' = h1"
        using bump by (cases ?a; cases "free_slot (live_allocations h1)") (auto simp: checked_add_usize_def simp del: free_slot_None split: if_splits)
      with null show ?thesis by simp
    next
      case True
      then obtain a i where a': "?a = Some a" "a + lay_size l < usize_limit" "a + lay_size l \<le> heap_end h1"
        and slot: "free_slot (live_allocations h1) = Some i" by blast
      let ?h = "(record_live h1 i a (lay_size l))\<lparr>heap_next := a + lay_size l\<rparr>"
      from bump a' slot have p: "p = a" and hh: "h' = ?h" by (simp_all add: checked_add_usize_def)
      have h': "h' = (record_live h1 i p (lay_size l))\<lparr>heap_next := p + lay_size l\<rparr>" using hh p by simp
      have a: "?a = Some p" and fin: "p + lay_size l \<le> heap_end h1" using a' p by simp_all
      note ap = heap_align_up_ok [OF l a]
      have c1: "live_cover h x + free_cover h1 x \<le> (if heap_start h \<le> x \<and> x < heap_next h then 1 else 0)" for x
        using sl(2) lv by (simp add: heap_inv_def)
      have room: "live_cover h x + piece p (lay_size l) x + free_cover h' x \<le>
          (if heap_start h' \<le> x \<and> x < heap_next h' then 1 else 0)" for x
      proof -
        have eqs: "free_list h' = free_list h1" "heap_start h' = heap_start h" "heap_next h' = p + lay_size l"
          using lv unfolding h' by (simp_all add: record_live_def)
        have ord: "heap_start h \<le> heap_next h" "heap_next h \<le> p"
          using inv ap(2) lv by (simp_all add: heap_inv_def)
        show ?thesis unfolding eqs using c1 [of x] ord by (auto simp: piece_def split: if_splits)
      qed
      have "heap_start h' \<le> heap_next h' \<and> heap_next h' \<le> heap_end h' \<and>
          length (free_list h') = MAX_FREE_BLOCKS \<and> free_count h' \<le> MAX_FREE_BLOCKS"
        using sl(2) ap(2) fin unfolding h' by (simp add: heap_inv_def record_live_def)
      from record_live_ok [OF inv l _ ap(1) this _ _ _ room] slot lv show ?thesis
        unfolding h' by (simp add: record_live_def)
    qed
  qed
qed

lemma heap_dealloc_ok:
  assumes inv: "heap_inv h"
  shows "heap_inv (heap_dealloc h p)" "heap_start (heap_dealloc h p) = heap_start h"
    "heap_end (heap_dealloc h p) = heap_end h"
    "case slot_where (\<lambda>a. la_ptr a = p) (live_allocations h) of
       None \<Rightarrow> heap_dealloc h p = h
     | Some i \<Rightarrow> live_allocations (heap_dealloc h p) = (live_allocations h)[i := None]"
proof -
  have "heap_inv (heap_dealloc h p) \<and> heap_start (heap_dealloc h p) = heap_start h \<and>
    heap_end (heap_dealloc h p) = heap_end h \<and>
    (case slot_where (\<lambda>a. la_ptr a = p) (live_allocations h) of
       None \<Rightarrow> heap_dealloc h p = h
     | Some i \<Rightarrow> live_allocations (heap_dealloc h p) = (live_allocations h)[i := None])"
  proof (cases "slot_where (\<lambda>a. la_ptr a = p) (live_allocations h)")
    case None
    with inv show ?thesis by (simp add: heap_dealloc_def)
  next
    case (Some i)
    then obtain a where a: "i < length (live_allocations h)" "live_allocations h ! i = Some a" "la_ptr a = p"
      by (rule slot_where_Some)
    let ?h = "h\<lparr>live_allocations := (live_allocations h)[i := None], total_allocations := total_allocations h - 1,
        total_allocated_bytes := total_allocated_bytes h - la_size a\<rparr>"
    let ?b = "\<lparr>fb_ptr = la_ptr a, fb_size = la_size a\<rparr>"
    have d: "heap_dealloc h p = insert_free_block ?h ?b" using Some a by (simp add: heap_dealloc_def)
    have same: "same_live ?h (insert_free_block ?h ?b)" by (rule same_live_insert)
    have len: "length (free_list ?h) = MAX_FREE_BLOCKS" using inv by (simp add: heap_inv_def)
    have live: "live_cover ?h x + piece (la_ptr a) (la_size a) x = live_cover h x" for x
      using cover_update [OF a(1), of la_ptr la_size None x] a(2) by simp
    have old: "live_cover h x + free_cover h x \<le> (if heap_start h \<le> x \<and> x < heap_next h then 1 else 0)" for x
      using inv by (simp add: heap_inv_def)
    have cov: "live_cover ?h x + free_cover (insert_free_block ?h ?b) x \<le>
        (if heap_start h \<le> x \<and> x < heap_next h then 1 else 0)" for x
    proof -
      have "free_cover (insert_free_block ?h ?b) x \<le> free_cover h x + piece (la_ptr a) (la_size a) x"
        using insert_free_cover [OF len, of ?b x] by simp
      with live [of x] have "live_cover ?h x + free_cover (insert_free_block ?h ?b) x \<le> live_cover h x + free_cover h x"
        by linarith
      then show ?thesis using old [of x] by (rule order_trans)
    qed
    have pos: "0 < la_size c" if "Some c \<in> set ((live_allocations h)[i := None])" for c
    proof -
      have "Some c \<in> set (live_allocations h)"
        using that set_update_subset_insert [of "live_allocations h" i None] by auto
      with inv show ?thesis by (simp add: heap_inv_def)
    qed
    have "heap_inv (insert_free_block ?h ?b)"
      using inv same cov pos unfolding heap_inv_def same_live_def by simp
    with d Some same show ?thesis by (simp add: same_live_def)
  qed
  then show "heap_inv (heap_dealloc h p)" "heap_start (heap_dealloc h p) = heap_start h"
    "heap_end (heap_dealloc h p) = heap_end h"
    "case slot_where (\<lambda>a. la_ptr a = p) (live_allocations h) of
       None \<Rightarrow> heap_dealloc h p = h
     | Some i \<Rightarrow> live_allocations (heap_dealloc h p) = (live_allocations h)[i := None]" by auto
qed

lemma heap_inv_cover:
  assumes "heap_inv h"
  shows "live_cover h x + free_cover h x \<le> 1"
proof -
  have "live_cover h x + free_cover h x \<le> (if heap_start h \<le> x \<and> x < heap_next h then 1 else 0)"
    using assms unfolding heap_inv_def by blast
  also have "\<dots> \<le> 1" by simp
  finally show ?thesis .
qed

text \<open>Live blocks with the same address are the same block, so a pointer names its allocation.\<close>

lemma live_ptr_unique:
  assumes inv: "heap_inv h" and ij: "i < length (live_allocations h)" "j < length (live_allocations h)"
    and a: "live_allocations h ! i = Some a" "live_allocations h ! j = Some b" "la_ptr a = la_ptr b"
  shows "i = j"
proof (rule ccontr)
  assume ne: "i \<noteq> j"
  have "Some a \<in> set (live_allocations h)" "Some b \<in> set (live_allocations h)" using ij a by (metis nth_mem)+
  then have "piece (la_ptr a) (la_size a) (la_ptr a) = 1" "piece (la_ptr b) (la_size b) (la_ptr a) = 1"
    using inv a(3) by (auto simp: heap_inv_def piece_def)
  with cover_two [OF ij ne, of la_ptr la_size "la_ptr a"] a have "2 \<le> live_cover h (la_ptr a)" by simp
  moreover have "live_cover h (la_ptr a) + free_cover h (la_ptr a) \<le> 1"
    by (rule heap_inv_cover [OF inv])
  ultimately show False by linarith
qed

interpretation live: slot_table la_ptr .

lemma live_unique: "heap_inv h \<Longrightarrow> live.unique (live_allocations h)"
  unfolding live.unique_def using live_ptr_unique by blast

section \<open>Histories\<close>

text \<open>
  The blocks that callers own, given by address and size, over any sequence of allocations
  and of frees of owned blocks.
\<close>

inductive heap_history :: "HeapState \<Rightarrow> (nat \<times> nat) set \<Rightarrow> bool" where
  boot: "heap_init True heap_empty = (Inr (), h) \<Longrightarrow> heap_history h {}"
| alloc: "heap_history h owned \<Longrightarrow> layout_ok l \<Longrightarrow> heap_alloc h l = (p, h') \<Longrightarrow> p \<noteq> 0 \<Longrightarrow>
    heap_history h' (insert (p, lay_size l) owned)"
| fail: "heap_history h owned \<Longrightarrow> layout_ok l \<Longrightarrow> heap_alloc h l = (0, h') \<Longrightarrow> heap_history h' owned"
| free: "heap_history h owned \<Longrightarrow> (p, n) \<in> owned \<Longrightarrow> heap_history (heap_dealloc h p) (owned - {(p, n)})"

definition live_blocks :: "HeapState \<Rightarrow> (nat \<times> nat) set" where
  "live_blocks h = {(la_ptr a, la_size a) | a. Some a \<in> set (live_allocations h)}"

lemma live_blocks_free:
  assumes inv: "heap_inv h" and mem: "(p, n) \<in> live_blocks h"
  shows "live_blocks (heap_dealloc h p) = live_blocks h - {(p, n)}"
proof -
  let ?L = "live_allocations h"
  obtain a where a: "Some a \<in> set ?L" "la_ptr a = p" "la_size a = n" using mem by (auto simp: live_blocks_def)
  then obtain i where i: "i < length ?L" "?L ! i = Some a" by (metis in_set_conv_nth)
  note u = live_unique [OF inv]
  have "slot_where (\<lambda>w. la_ptr w = p) ?L = Some i" using live.where_at [OF u i] a(2) by simp
  then have L: "live_allocations (heap_dealloc h p) = ?L[i := None]" using heap_dealloc_ok(4) [OF inv, of p] by simp
  have mem': "Some c \<in> set (?L[i := None]) \<longleftrightarrow> la_ptr c \<noteq> p \<and> Some c \<in> set ?L" for c
    using live.table_iff [OF live.unique_release [OF u], of i "la_ptr c" c] live.table_iff [OF u, of "la_ptr c" c]
    unfolding live.table_release [OF u i] a(2) by (cases "la_ptr c = p") simp_all
  have sz: "la_size c = n" if "Some c \<in> set ?L" "la_ptr c = p" for c
  proof -
    have "live.table ?L p = Some c" "live.table ?L p = Some a" using that a by (simp_all add: live.table_iff [OF u])
    then show ?thesis using a(3) by simp
  qed
  show ?thesis
  proof (rule set_eqI)
    fix b :: "nat \<times> nat"
    obtain q m where b: "b = (q, m)" by force
    have "b \<in> live_blocks (heap_dealloc h p) \<longleftrightarrow> (\<exists>c. Some c \<in> set ?L \<and> la_ptr c \<noteq> p \<and> q = la_ptr c \<and> m = la_size c)"
      by (auto simp: live_blocks_def L mem' b)
    also have "\<dots> \<longleftrightarrow> b \<in> live_blocks h - {(p, n)}" by (auto simp: live_blocks_def b dest: sz)
    finally show "b \<in> live_blocks (heap_dealloc h p) \<longleftrightarrow> b \<in> live_blocks h - {(p, n)}" .
  qed
qed

lemma heap_init_inv:
  assumes "heap_init True heap_empty = (Inr u, h)"
  shows "heap_inv h" "heap_start h = HEAP_START" "heap_end h = HEAP_START + HEAP_SIZE" "live_blocks h = {}"
proof -
  have h: "h = heap_empty\<lparr>heap_start := HEAP_START, heap_end := HEAP_START + HEAP_SIZE, heap_next := HEAP_START\<rparr>"
    using assms by (auto simp: heap_init_def heap_empty_def split: option.splits)
  show "heap_inv h" "heap_start h = HEAP_START" "heap_end h = HEAP_START + HEAP_SIZE" "live_blocks h = {}"
    by (simp_all add: h heap_inv_def heap_empty_def live_blocks_def HEAP_START_def HEAP_SIZE_def usize_limit_def
        cover_replicate)
qed

lemma heap_history_inv:
  assumes "heap_history h owned"
  shows "heap_inv h \<and> owned = live_blocks h \<and> heap_start h = HEAP_START \<and> heap_end h = HEAP_START + HEAP_SIZE"
  using assms
proof induction
  case (boot h)
  then show ?case using heap_init_inv by simp
next
  case (alloc h owned l p h')
  then have "alloc_ok h l p h'" using heap_alloc_ok by blast
  with alloc obtain i where i: "i < length (live_allocations h)" "live_allocations h ! i = None"
    "live_allocations h' = (live_allocations h)[i := Some \<lparr>la_ptr = p, la_size = lay_size l\<rparr>]"
    and ok: "heap_inv h'" "heap_start h' = heap_start h" "heap_end h' = heap_end h"
    by (auto simp: alloc_ok_def)
  have "Some c \<in> set (live_allocations h') \<longleftrightarrow> c = \<lparr>la_ptr = p, la_size = lay_size l\<rparr> \<or> Some c \<in> set (live_allocations h)" for c
    unfolding i(3) live.set_update_Some [OF i(1)] using i(2) by (metis in_set_conv_nth option.distinct(1) option.inject)
  then have "{c. Some c \<in> set (live_allocations h')} = insert \<lparr>la_ptr = p, la_size = lay_size l\<rparr> {c. Some c \<in> set (live_allocations h)}"
    by auto
  then have "live_blocks h' = insert (p, lay_size l) (live_blocks h)" by (simp add: live_blocks_def setcompr_eq_image)
  with alloc.IH ok show ?case by simp
next
  case (fail h owned l h')
  then have "alloc_ok h l 0 h'" using heap_alloc_ok by blast
  with fail.IH show ?case by (auto simp: alloc_ok_def live_blocks_def)
next
  case (free h owned p n)
  with live_blocks_free heap_dealloc_ok(1-3) show ?case by auto
qed

lemma live_cover_member:
  assumes "heap_inv h" "(q, n) \<in> live_blocks h"
  shows "piece q n x \<le> live_cover h x"
proof -
  obtain a where a: "Some a \<in> set (live_allocations h)" "q = la_ptr a" "n = la_size a"
    using assms(2) by (auto simp: live_blocks_def)
  then obtain i where "i < length (live_allocations h)" "live_allocations h ! i = Some a"
    by (metis in_set_conv_nth)
  with cover_ge [of i "live_allocations h" la_ptr la_size x] a show ?thesis by simp
qed

text \<open>
  C15: Exclusive heap blocks. In every history in which callers free only blocks they own, an
  allocation that succeeds returns a block that has the requested alignment, lies inside the
  heap window and overlaps no block that any caller owns.
\<close>

theorem heap_blocks_exclusive:
  assumes hist: "heap_history h owned" and l: "layout_ok l" and al: "heap_alloc h l = (p, h')" and p: "p \<noteq> 0"
  shows "lay_align l dvd p \<and> HEAP_START \<le> p \<and> p + lay_size l \<le> HEAP_START + HEAP_SIZE \<and>
    (\<forall>(q, n)\<in>owned. p + lay_size l \<le> q \<or> q + n \<le> p)"
proof -
  note inv = heap_history_inv [OF hist]
  then have hi: "heap_inv h" and own: "owned = live_blocks h" by auto
  have ok: "alloc_ok h l p h'" using heap_alloc_ok [OF hi l al] .
  then have once: "live_cover h x + piece p (lay_size l) x \<le> 1" for x using p by (simp add: alloc_ok_def)
  have "p + lay_size l \<le> q \<or> q + n \<le> p" if qn: "(q, n) \<in> owned" for q n
  proof (rule ccontr)
    assume over: "\<not> (p + lay_size l \<le> q \<or> q + n \<le> p)"
    let ?x = "max p q"
    have "0 < n" using qn own hi by (auto simp: live_blocks_def heap_inv_def)
    moreover have "0 < lay_size l" using l by (simp add: layout_ok_def)
    ultimately have "piece q n ?x = 1" "piece p (lay_size l) ?x = 1" using over by (auto simp: piece_def)
    with once [of ?x] live_cover_member [OF hi, of q n ?x] qn own show False by simp
  qed
  with ok inv p show ?thesis by (auto simp: alloc_ok_def)
qed

text \<open>Instance: the first allocation after boot.\<close>

definition test_layout :: Layout where
  "test_layout = \<lparr>lay_size = 64, lay_align = 8\<rparr>"

lemma test_layout_ok: "layout_ok test_layout"
proof -
  have "is_power_of_two (8 :: u64)" by code_simp
  then show ?thesis by (simp add: layout_ok_def test_layout_def usize_limit_def)
qed

theorem heap_blocks_exclusive_witness:
  "\<exists>h h'. heap_history h {} \<and> heap_alloc h test_layout = (HEAP_START, h') \<and> lay_align test_layout dvd HEAP_START"
proof -
  define h where "h = heap_empty\<lparr>heap_start := HEAP_START, heap_end := HEAP_START + HEAP_SIZE, heap_next := HEAP_START\<rparr>"
  have "heap_init True heap_empty = (Inr (), h)"
    by (simp add: heap_init_def heap_empty_def h_def checked_add_usize_def HEAP_START_def HEAP_SIZE_def usize_limit_def)
  then have hist: "heap_history h {}" by (rule heap_history.boot)
  have pow: "is_power_of_two (8 :: u64)" by code_simp
  have "usize_and_not (HEAP_START + 7) (2 ^ 3 - 1) = HEAP_START"
    by (subst usize_and_not_pow2) (simp_all add: HEAP_START_def usize_limit_def)
  then have al: "heap_align_up HEAP_START 8 = Some HEAP_START"
    using pow by (simp add: heap_align_up_def checked_add_usize_def HEAP_START_def usize_limit_def)
  have slot: "free_slot (replicate MAX_ALLOCATIONS (None :: LiveAllocation option)) = Some 0"
    by (simp add: free_slot_def MAX_ALLOCATIONS_def numeral_eq_Suc)
  have "fst (heap_alloc h test_layout) = HEAP_START"
    using al slot
    by (simp add: heap_alloc_def h_def find_free_def heap_empty_def test_layout_def checked_add_usize_def
        HEAP_START_def HEAP_SIZE_def usize_limit_def)
  then obtain h' where a: "heap_alloc h test_layout = (HEAP_START, h')" by (metis prod.collapse)
  have "HEAP_START \<noteq> 0" by (simp add: HEAP_START_def)
  from heap_blocks_exclusive [OF hist test_layout_ok a this] hist a show ?thesis by blast
qed

section \<open>Reuse of freed memory\<close>

lemma insert_free_full: "free_count h = MAX_FREE_BLOCKS \<Longrightarrow> insert_free_block h b = h"
  by (simp add: insert_free_block_def)

lemma find_free_full:
  assumes "free_count h = MAX_FREE_BLOCKS"
  shows "snd (find_free h l) = h \<or> (\<exists>i. snd (find_free h l) = h\<lparr>free_list := (free_list h)[i := None]\<rparr>)"
  using insert_free_full assms by (auto simp: find_free_def Let_def split: option.splits)



end
