(* ===== verification/Capability.thy ===== *)
theory Capability
  imports WH_Prelude
begin

text \<open>
  Capabilities (\<open>kernel/src/capability.rs\<close>): the enumeration of kernel rights and the
  64-bit set of them carried by every task. The set operations are shown to implement the
  finite-set interface \<open>capability_store\<close> that the task manager relies on when it grants and
  revokes rights.
\<close>

unbundle bit_operations_syntax

section \<open>Model\<close>

datatype Capability =
    Console | TimerRead | TaskInspect | TaskControl | DeviceIo | InterruptControl
  | MemoryInspect | FileRead | FileWrite | Ipc | ProcessCreate

text \<open>The \<open>repr(u8)\<close> discriminants.\<close>

fun cap_discr :: "Capability \<Rightarrow> nat" where
  "cap_discr Console = 0"
| "cap_discr TimerRead = 1"
| "cap_discr TaskInspect = 2"
| "cap_discr TaskControl = 3"
| "cap_discr DeviceIo = 4"
| "cap_discr InterruptControl = 5"
| "cap_discr MemoryInspect = 6"
| "cap_discr FileRead = 7"
| "cap_discr FileWrite = 8"
| "cap_discr Ipc = 9"
| "cap_discr ProcessCreate = 10"

record CapabilitySet =
  bits :: u64

definition cap_bit :: "Capability \<Rightarrow> u64" where
  "cap_bit c = push_bit (cap_discr c) 1"

definition caps_empty :: CapabilitySet where
  "caps_empty = \<lparr>bits = 0\<rparr>"

definition caps_with :: "CapabilitySet \<Rightarrow> Capability \<Rightarrow> CapabilitySet" where
  "caps_with s c = \<lparr>bits = bits s OR cap_bit c\<rparr>"

definition caps_contains :: "CapabilitySet \<Rightarrow> Capability \<Rightarrow> bool" where
  "caps_contains s c \<longleftrightarrow> bits s AND cap_bit c \<noteq> 0"

definition caps_without :: "CapabilitySet \<Rightarrow> Capability \<Rightarrow> CapabilitySet" where
  "caps_without s c = \<lparr>bits = bits s AND NOT (cap_bit c)\<rparr>"

definition kernel_bootstrap :: CapabilitySet where
  "kernel_bootstrap = foldl caps_with caps_empty
     [Console, TimerRead, TaskInspect, TaskControl, DeviceIo, InterruptControl,
      MemoryInspect, FileRead, FileWrite, Ipc, ProcessCreate]"

definition userspace_caps :: CapabilitySet where
  "userspace_caps = foldl caps_with caps_empty
     [Console, FileRead, FileWrite, Ipc, ProcessCreate]"

section \<open>The set interface\<close>

text \<open>
  What the task manager needs of a capability set: membership after adding and after
  removing one right. Nothing else about the representation is used by its clients.
\<close>

locale capability_store =
  fixes none :: 's
    and has :: "'s \<Rightarrow> 'c \<Rightarrow> bool"
    and add :: "'s \<Rightarrow> 'c \<Rightarrow> 's"
    and remove :: "'s \<Rightarrow> 'c \<Rightarrow> 's"
  assumes has_none: "\<not> has none c"
    and has_add: "has (add s c) d \<longleftrightarrow> c = d \<or> has s d"
    and has_remove: "has (remove s c) d \<longleftrightarrow> c \<noteq> d \<and> has s d"
begin

definition rights :: "'s \<Rightarrow> 'c set" where
  "rights s = {c. has s c}"

lemma rights_none [simp]: "rights none = {}"
  by (simp add: rights_def has_none)

lemma rights_add [simp]: "rights (add s c) = insert c (rights s)"
  by (auto simp: rights_def has_add)

lemma rights_remove [simp]: "rights (remove s c) = rights s - {c}"
  by (auto simp: rights_def has_remove)

lemma rights_foldl_add [simp]: "rights (foldl add s cs) = rights s \<union> set cs"
  by (induction cs arbitrary: s) auto

lemma has_rights: "has s c \<longleftrightarrow> c \<in> rights s"
  by (simp add: rights_def)

end

section \<open>The bit set implements it\<close>

lemma cap_discr_inject [simp]: "cap_discr c = cap_discr d \<longleftrightarrow> c = d"
  by (cases c; cases d) simp_all

lemma cap_discr_less: "cap_discr c < 64"
  by (cases c) simp_all

lemma cap_bit_exp: "cap_bit c = 2 ^ cap_discr c"
  by (simp add: cap_bit_def push_bit_eq_mult)

lemma caps_contains_bit: "caps_contains s c \<longleftrightarrow> bit (bits s) (cap_discr c)"
  by (simp add: caps_contains_def cap_bit_exp and_exp_eq_0_iff_not_bit)

lemma bit_cap_bit: "bit (cap_bit c) (cap_discr d) \<longleftrightarrow> c = d"
  using cap_discr_less [of c] by (auto simp: cap_bit_exp bit_exp_iff)

interpretation capset: capability_store caps_empty caps_contains caps_with caps_without
proof unfold_locales
  show "\<not> caps_contains caps_empty c" for c
    by (simp add: caps_contains_bit caps_empty_def)
  show "caps_contains (caps_with s c) d \<longleftrightarrow> c = d \<or> caps_contains s d" for s c d
    by (auto simp: caps_contains_bit caps_with_def bit_or_iff bit_cap_bit)
  show "caps_contains (caps_without s c) d \<longleftrightarrow> c \<noteq> d \<and> caps_contains s d" for s c d
    using cap_discr_less [of d]
    by (auto simp: caps_contains_bit caps_without_def bit_and_iff bit_not_iff bit_cap_bit)
qed

lemma rights_kernel_bootstrap: "capset.rights kernel_bootstrap = UNIV"
  unfolding kernel_bootstrap_def capset.rights_foldl_add capset.rights_none
proof -
  have "c \<in> set [Console, TimerRead, TaskInspect, TaskControl, DeviceIo, InterruptControl,
      MemoryInspect, FileRead, FileWrite, Ipc, ProcessCreate]" for c
    by (cases c) simp_all
  then show "{} \<union> set [Console, TimerRead, TaskInspect, TaskControl, DeviceIo, InterruptControl,
      MemoryInspect, FileRead, FileWrite, Ipc, ProcessCreate] = UNIV" by blast
qed

lemma rights_userspace:
  "capset.rights userspace_caps = {Console, FileRead, FileWrite, Ipc, ProcessCreate}"
  unfolding userspace_caps_def by auto

section \<open>Properties\<close>

text \<open>C14: Capability sets behave as sets of rights: the empty set holds nothing, adding a right adds
  exactly that right, removing it removes exactly that right; the kernel task starts with every
  right and a user task only with console, file, message and process-creation rights.\<close>

theorem capability_set_semantics:
  "\<not> caps_contains caps_empty c \<and>
   (caps_contains (caps_with s c) d \<longleftrightarrow> c = d \<or> caps_contains s d) \<and>
   (caps_contains (caps_without s c) d \<longleftrightarrow> c \<noteq> d \<and> caps_contains s d) \<and>
   caps_contains kernel_bootstrap c \<and>
   (caps_contains userspace_caps c \<longleftrightarrow> c \<in> {Console, FileRead, FileWrite, Ipc, ProcessCreate})"
proof (intro conjI)
  show "caps_contains kernel_bootstrap c"
    by (simp add: capset.has_rights rights_kernel_bootstrap)
  show "caps_contains userspace_caps c \<longleftrightarrow> c \<in> {Console, FileRead, FileWrite, Ipc, ProcessCreate}"
    by (simp add: capset.has_rights rights_userspace)
qed (rule capset.has_none capset.has_add capset.has_remove)+

end
