(* ===== verification/Audit_Log.thy ===== *)
theory Audit_Log
  imports WH_Prelude
begin

text \<open>
  The security audit log (\<open>kernel/src/audit.rs\<close>): a ring of the last 64 security events,
  each stamped with a sequence number. The theory shows that the ring always holds exactly the
  most recent events, in the order they were recorded and with consecutive stamps.
\<close>

section \<open>Model\<close>

definition LOG_CAPACITY :: nat where
  "LOG_CAPACITY = 64"

datatype Action =
    CapabilityGrant | CapabilityRevoke | IpcSend | AuditFileWrite
  | ProcessFault | ProcessExec | ProcessFork

record Event =
  sequence :: u64
  tick :: u64
  actor :: u64
  action :: Action
  target :: u64
  allowed :: bool

record Log =
  events :: "Event option list"
  log_next :: nat
  log_count :: nat
  log_sequence :: u64

definition log_new :: Log where
  "log_new = \<lparr>events = replicate LOG_CAPACITY None, log_next = 0, log_count = 0, log_sequence = 0\<rparr>"

definition log_record :: "Event \<Rightarrow> Log \<Rightarrow> Log" where
  "log_record e l =
     \<lparr>events = (events l)[log_next l := Some (e\<lparr>sequence := log_sequence l\<rparr>)],
      log_next = (log_next l + 1) mod LOG_CAPACITY,
      log_count = min (log_count l + 1) LOG_CAPACITY,
      log_sequence = log_sequence l + 1\<rparr>"

definition log_latest :: "Log \<Rightarrow> Event option" where
  "log_latest l =
     (if log_count l = 0 then None
      else events l ! ((log_next l + LOG_CAPACITY - 1) mod LOG_CAPACITY))"

text \<open>The public entry point; the caller's tick stands for \<open>timer::ticks()\<close>.\<close>

definition audit_record :: "u64 \<Rightarrow> u64 \<Rightarrow> Action \<Rightarrow> u64 \<Rightarrow> bool \<Rightarrow> Log \<Rightarrow> Log" where
  "audit_record now who act tgt ok =
     log_record \<lparr>sequence = 0, tick = now, actor = who, action = act, target = tgt, allowed = ok\<rparr>"

definition audit_count :: "Log \<Rightarrow> nat" where
  "audit_count l = log_count l"

text \<open>The boot-time self test: 65 records into a fresh log.\<close>

definition audit_test_event :: "nat \<Rightarrow> Event" where
  "audit_test_event i =
     \<lparr>sequence = 0, tick = of_nat i, actor = 1, action = CapabilityGrant, target = 2,
      allowed = even i\<rparr>"

definition audit_self_test :: bool where
  "audit_self_test \<longleftrightarrow>
     (let l = fold log_record (map audit_test_event [0..<LOG_CAPACITY + 1]) log_new
      in log_count l = LOG_CAPACITY \<and>
         (case log_latest l of
            None \<Rightarrow> False
          | Some e \<Rightarrow> sequence e = of_nat LOG_CAPACITY \<and> tick e = of_nat LOG_CAPACITY \<and>
              actor e = 1 \<and> target e = 2 \<and> allowed e))"

section \<open>The history a log stands for\<close>

definition log_start :: "Log \<Rightarrow> nat" where
  "log_start l = (log_next l + LOG_CAPACITY - log_count l) mod LOG_CAPACITY"

definition log_history :: "Log \<Rightarrow> Event option list" where
  "log_history l = ring (events l) (log_start l) (log_count l)"

definition wf_log :: "Log \<Rightarrow> bool" where
  "wf_log l \<longleftrightarrow> length (events l) = LOG_CAPACITY \<and> log_next l < LOG_CAPACITY \<and>
     log_count l \<le> LOG_CAPACITY"

lemma wf_log_new [simp]: "wf_log log_new" and log_history_new [simp]: "log_history log_new = []"
  by (simp_all add: wf_log_def log_new_def log_history_def LOG_CAPACITY_def)

lemma ring_start_step:
  fixes n c :: nat
  assumes "n < 64" "c < 64"
  shows "(Suc n mod 64 + 64 - Suc c) mod 64 = (n + 64 - c) mod 64"
proof (cases "n = 63")
  case True
  have "127 - c = (63 - c) + 64" using assms by simp
  then have "(127 - c) mod 64 = (63 - c) mod 64" by (simp only: mod_add_self2)
  with True show ?thesis by (simp del: mod_add_self2)
next
  case False
  with assms show ?thesis by (simp add: add.commute)
qed

lemma ring_last_index:
  fixes n k :: nat
  assumes "k < 64"
  shows "((n + 64 - Suc k) mod 64 + k) mod 64 = (n + 63) mod 64"
proof -
  have "n + 64 - Suc k + k = n + 63" using assms by simp
  then show ?thesis by (simp only: mod_add_left_eq)
qed

text \<open>One record appends the stamped event and forgets the oldest one when the ring is full.\<close>

lemma log_record_step:
  assumes "wf_log l"
  shows "wf_log (log_record e l)"
    and "log_history (log_record e l) =
      drop (log_count l + 1 - LOG_CAPACITY) (log_history l) @ [Some (e\<lparr>sequence := log_sequence l\<rparr>)]"
proof -
  let ?s = "log_start l" and ?x = "Some (e\<lparr>sequence := log_sequence l\<rparr>)"
  from assms have len: "length (events l) = LOG_CAPACITY" and nx: "log_next l < LOG_CAPACITY"
    and ct: "log_count l \<le> LOG_CAPACITY" by (simp_all add: wf_log_def)
  have s: "?s < LOG_CAPACITY" by (simp add: log_start_def LOG_CAPACITY_def)
  show "wf_log (log_record e l)"
    using assms by (simp add: wf_log_def log_record_def LOG_CAPACITY_def)
  show "log_history (log_record e l) = drop (log_count l + 1 - LOG_CAPACITY) (log_history l) @ [?x]"
  proof (cases "log_count l < LOG_CAPACITY")
    case True
    have "(?s + log_count l) mod LOG_CAPACITY = log_next l"
      using nx True mod_add_left_eq [of "log_next l + LOG_CAPACITY - log_count l" LOG_CAPACITY "log_count l"]
      unfolding log_start_def by simp
    moreover have "log_start (log_record e l) = ?s"
      using nx True ring_start_step [of "log_next l" "log_count l"]
      by (simp add: log_start_def log_record_def LOG_CAPACITY_def)
    ultimately show ?thesis
      using ring_push [of "log_count l" "events l" ?s ?x] True len
      by (simp add: log_history_def log_record_def)
  next
    case False
    with ct have full: "log_count l = LOG_CAPACITY" by simp
    with nx have sn: "?s = log_next l" by (simp add: log_start_def)
    have c: "LOG_CAPACITY = Suc 63" by (simp add: LOG_CAPACITY_def)
    let ?s' = "(?s + 1) mod LOG_CAPACITY"
    have i: "(?s' + 63) mod LOG_CAPACITY = ?s"
      using s mod_add_left_eq [of "?s + 1" LOG_CAPACITY 63] by (simp add: LOG_CAPACITY_def)
    have "log_history l = events l ! ?s # ring (events l) ?s' 63"
      using ring_pop [of ?s "events l" 63] s len unfolding log_history_def full c by simp
    moreover have "ring ((events l)[?s := ?x]) ?s' (Suc 63) = ring (events l) ?s' 63 @ [?x]"
      using ring_push [of 63 "events l" ?s' ?x] len i by (simp only: c)
    moreover have "log_history (log_record e l) = ring ((events l)[?s := ?x]) ?s' (Suc 63)"
      using full sn c by (simp add: log_history_def log_start_def log_record_def)
    ultimately show ?thesis using full by simp
  qed
qed

lemma log_sequence_record [simp]: "log_sequence (log_record e l) = log_sequence l + 1"
  by (simp add: log_record_def)

lemma log_count_history [simp]: "length (log_history l) = log_count l"
  by (simp add: log_history_def)

lemma log_latest_history:
  assumes "wf_log l"
  shows "log_latest l = (if log_history l = [] then None else last (log_history l))"
proof (cases "log_count l")
  case 0
  then have "log_history l = []" by (simp add: log_history_def)
  with 0 show ?thesis by (simp add: log_latest_def)
next
  case (Suc n)
  have "(log_start l + n) mod LOG_CAPACITY = (log_next l + LOG_CAPACITY - 1) mod LOG_CAPACITY"
    using assms Suc ring_last_index [of n "log_next l"]
    by (simp add: log_start_def wf_log_def LOG_CAPACITY_def add.commute)
  with Suc assms show ?thesis
    by (simp add: log_latest_def log_history_def ring_Suc wf_log_def)
qed

text \<open>The stamps a sequence of records receives, starting at \<open>s\<close>.\<close>

fun stamp_from :: "u64 \<Rightarrow> Event list \<Rightarrow> Event list" where
  "stamp_from s [] = []"
| "stamp_from s (e # es) = e\<lparr>sequence := s\<rparr> # stamp_from (s + 1) es"

lemma length_stamp_from [simp]: "length (stamp_from s es) = length es"
  by (induction es arbitrary: s) auto

lemma stamp_from_append:
  "stamp_from s (xs @ ys) = stamp_from s xs @ stamp_from (s + of_nat (length xs)) ys"
  by (induction xs arbitrary: s) (simp_all add: add.assoc add.commute)

lemma log_run:
  shows "wf_log (fold log_record es log_new) \<and>
    log_sequence (fold log_record es log_new) = of_nat (length es) \<and>
    log_history (fold log_record es log_new) =
      map Some (drop (length es - LOG_CAPACITY) (stamp_from 0 es))"
proof (induction es rule: rev_induct)
  case Nil
  show ?case by (simp, simp add: log_new_def)
next
  case (snoc e es)
  let ?l = "fold log_record es log_new"
  from snoc have wf: "wf_log ?l" and sq: "log_sequence ?l = of_nat (length es)"
    and h: "log_history ?l = map Some (drop (length es - LOG_CAPACITY) (stamp_from 0 es))" by auto
  have ct: "log_count ?l = min (length es) LOG_CAPACITY"
    using arg_cong [OF h, of length] by simp
  have "drop (log_count ?l + 1 - LOG_CAPACITY) (drop (length es - LOG_CAPACITY) (stamp_from 0 es))
      = drop (length es + 1 - LOG_CAPACITY) (stamp_from 0 es)"
    unfolding drop_drop ct by (rule arg_cong [where f = "\<lambda>k. drop k _"]) (auto simp: LOG_CAPACITY_def)
  then have "log_history (log_record e ?l) =
      map Some (drop (length es + 1 - LOG_CAPACITY) (stamp_from 0 es) @ [e\<lparr>sequence := of_nat (length es)\<rparr>])"
    unfolding log_record_step(2) [OF wf] h sq by (simp add: drop_map)
  then show ?case
    using log_record_step(1) [OF wf, of e] sq
    by (simp add: stamp_from_append add.commute LOG_CAPACITY_def)
qed

lemma audit_self_test_passes: "audit_self_test"
proof -
  let ?es = "map audit_test_event [0..<64] @ [audit_test_event 64]"
  let ?l = "fold log_record ?es log_new"
  have es: "map audit_test_event [0..<LOG_CAPACITY + 1] = ?es"
    using upt_Suc_append [of 0 64] by (simp add: LOG_CAPACITY_def del: upt_rec_numeral upt_Suc)
  have h: "log_history ?l = map Some (drop 1 (stamp_from 0 ?es))"
    using log_run [of ?es] by (simp add: LOG_CAPACITY_def del: upt_rec_numeral)
  have "log_count ?l = 64"
    using arg_cong [OF h, of length] by (simp del: upt_rec_numeral)
  moreover have "log_latest ?l = Some ((audit_test_event 64)\<lparr>sequence := 64\<rparr>)"
    using log_latest_history [OF conjunct1 [OF log_run [of ?es]]] unfolding h
    by (simp add: stamp_from_append del: upt_rec_numeral)
  ultimately show ?thesis
    unfolding audit_self_test_def es by (simp add: LOG_CAPACITY_def audit_test_event_def Let_def)
qed

section \<open>Properties\<close>

text \<open>C13: After any sequence of records into a fresh log, the log holds exactly the last 64 of them,
  oldest first, each stamped with its position in the whole sequence (modulo the 64-bit counter),
  and \<open>latest\<close> returns the newest one.\<close>

theorem audit_log_keeps_latest:
  "log_history (fold log_record es log_new) =
     map Some (drop (length es - LOG_CAPACITY) (stamp_from 0 es)) \<and>
   audit_count (fold log_record es log_new) = min (length es) LOG_CAPACITY \<and>
   log_latest (fold log_record es log_new) =
     (if es = [] then None else Some (last (stamp_from 0 es)))"
proof (intro conjI)
  let ?l = "fold log_record es log_new"
  show h: "log_history ?l = map Some (drop (length es - LOG_CAPACITY) (stamp_from 0 es))"
    using log_run by blast
  have "length (log_history ?l) = min (length es) LOG_CAPACITY" unfolding h by simp
  then show "audit_count ?l = min (length es) LOG_CAPACITY" by (simp add: audit_count_def)
  have ne: "stamp_from 0 es \<noteq> []" if "es \<noteq> []"
    using that by (metis length_0_conv length_stamp_from)
  have lt: "length es - LOG_CAPACITY < length (stamp_from 0 es)" if "es \<noteq> []"
    using that by (cases es) (simp_all add: LOG_CAPACITY_def)
  show "log_latest ?l = (if es = [] then None else Some (last (stamp_from 0 es)))"
    unfolding log_latest_history [OF conjunct1 [OF log_run]] h
    using ne lt by (cases "es = []") (simp_all add: last_map)
qed

end
