(* ===== verification/Ipc.thy ===== *)
theory Ipc
  imports Slot_Table Bounded_Fifo
begin

text \<open>
  Inter-process messages (\<open>kernel/src/ipc.rs\<close>): a table of at most 32 endpoints, one per
  owner, each a queue of at most 16 messages of at most 256 bytes. The table is shown to
  implement an abstract mailbox machine, a map from owners to lists of messages, on every
  branch of every operation.
\<close>

section \<open>Model\<close>

definition MAX_ENDPOINTS :: nat where
  "MAX_ENDPOINTS = 32"

definition QUEUE_DEPTH :: nat where
  "QUEUE_DEPTH = 16"

definition MAX_MESSAGE_SIZE :: nat where
  "MAX_MESSAGE_SIZE = 256"

record Message =
  msg_sender :: u64
  msg_length :: nat
  msg_bytes :: bytes

definition message_empty :: Message where
  "message_empty = \<lparr>msg_sender = 0, msg_length = 0, msg_bytes = replicate MAX_MESSAGE_SIZE 0\<rparr>"

definition payload :: "Message \<Rightarrow> bytes" where
  "payload m = take (msg_length m) (msg_bytes m)"

datatype ipc_error =
    EndpointExists | NoEndpoint | RegistryFull | QueueFull | QueueEmpty | MessageTooLarge

record Endpoint =
  owner :: u64
  messages :: "Message list"
  ep_length :: nat

definition endpoint_empty :: Endpoint where
  "endpoint_empty = \<lparr>owner = 0, messages = replicate QUEUE_DEPTH message_empty, ep_length = 0\<rparr>"

definition enqueue :: "Endpoint \<Rightarrow> Message \<Rightarrow> ipc_error + Endpoint" where
  "enqueue ep m =
     (if ep_length ep = QUEUE_DEPTH then Inl QueueFull
      else Inr (ep\<lparr>messages := (messages ep)[ep_length ep := m], ep_length := ep_length ep + 1\<rparr>))"

text \<open>\<open>copy_within(1..length, 0)\<close> shifts the live messages down; the freed slot is cleared.\<close>

definition dequeue :: "Endpoint \<Rightarrow> ipc_error + Message \<times> Endpoint" where
  "dequeue ep =
     (if ep_length ep = 0 then Inl QueueEmpty
      else let n = ep_length ep;
               shifted = copy_at (messages ep) 0 (slice (messages ep) 1 (n - 1))
           in Inr (messages ep ! 0,
                   ep\<lparr>messages := shifted[n - 1 := message_empty], ep_length := n - 1\<rparr>))"

record IpcState =
  endpoints :: "Endpoint option list"

definition ipc_new :: IpcState where
  "ipc_new = \<lparr>endpoints = replicate MAX_ENDPOINTS None\<rparr>"

definition endpoint :: "IpcState \<Rightarrow> u64 \<Rightarrow> Endpoint option" where
  "endpoint s own = slot_find (\<lambda>ep. owner ep = own) (endpoints s)"

text \<open>\<open>endpoint_mut\<close>: the slot the mutable reference points into.\<close>

definition endpoint_slot :: "IpcState \<Rightarrow> u64 \<Rightarrow> nat option" where
  "endpoint_slot s own = slot_where (\<lambda>ep. owner ep = own) (endpoints s)"

definition set_slot :: "IpcState \<Rightarrow> nat \<Rightarrow> Endpoint option \<Rightarrow> IpcState" where
  "set_slot s i e = s\<lparr>endpoints := (endpoints s)[i := e]\<rparr>"

definition ipc_register :: "IpcState \<Rightarrow> u64 \<Rightarrow> ipc_error + IpcState" where
  "ipc_register s own =
     (if endpoint s own \<noteq> None then Inl EndpointExists
      else case free_slot (endpoints s) of
        None \<Rightarrow> Inl RegistryFull
      | Some i \<Rightarrow> Inr (set_slot s i (Some (endpoint_empty\<lparr>owner := own\<rparr>))))"

definition ipc_unregister :: "IpcState \<Rightarrow> u64 \<Rightarrow> ipc_error + IpcState" where
  "ipc_unregister s own =
     (case endpoint_slot s own of
        None \<Rightarrow> Inl NoEndpoint
      | Some i \<Rightarrow> Inr (set_slot s i None))"

definition ipc_send :: "IpcState \<Rightarrow> u64 \<Rightarrow> u64 \<Rightarrow> bytes \<Rightarrow> ipc_error + IpcState" where
  "ipc_send s sender rcv data =
     (if length data > MAX_MESSAGE_SIZE then Inl MessageTooLarge
      else if endpoint s sender = None then Inl NoEndpoint
      else case endpoint_slot s rcv of
        None \<Rightarrow> Inl NoEndpoint
      | Some i \<Rightarrow>
          (let m = message_empty\<lparr>msg_sender := sender, msg_length := length data,
                     msg_bytes := copy_at (msg_bytes message_empty) 0 data\<rparr>
           in case endpoints s ! i of
             None \<Rightarrow> Inl NoEndpoint
           | Some ep \<Rightarrow>
               (case enqueue ep m of
                  Inl e \<Rightarrow> Inl e
                | Inr ep' \<Rightarrow> Inr (set_slot s i (Some ep')))))"

definition ipc_receive :: "IpcState \<Rightarrow> u64 \<Rightarrow> ipc_error + Message \<times> IpcState" where
  "ipc_receive s rcv =
     (case endpoint_slot s rcv of
        None \<Rightarrow> Inl NoEndpoint
      | Some i \<Rightarrow>
          (case endpoints s ! i of
             None \<Rightarrow> Inl NoEndpoint
           | Some ep \<Rightarrow>
               (case dequeue ep of
                  Inl e \<Rightarrow> Inl e
                | Inr (m, ep') \<Rightarrow> Inr (m, set_slot s i (Some ep')))))"

definition ipc_peek :: "IpcState \<Rightarrow> u64 \<Rightarrow> ipc_error + Message" where
  "ipc_peek s rcv =
     (case endpoint s rcv of
        None \<Rightarrow> Inl NoEndpoint
      | Some ep \<Rightarrow> if ep_length ep \<noteq> 0 \<and> messages ep \<noteq> [] then Inr (messages ep ! 0) else Inl QueueEmpty)"

definition endpoint_count :: "IpcState \<Rightarrow> nat" where
  "endpoint_count s = slots_used (endpoints s)"

text \<open>The boot-time self test.\<close>

definition ipc_self_test :: bool where
  "ipc_self_test \<longleftrightarrow>
     (let data = ascii ''wovenhat-ipc'' in
      case ipc_register ipc_new 10 of Inl _ \<Rightarrow> False | Inr s1 \<Rightarrow>
      case ipc_register s1 20 of Inl _ \<Rightarrow> False | Inr s2 \<Rightarrow>
      if ipc_register s2 10 \<noteq> Inl EndpointExists then False
      else case ipc_send s2 10 20 data of Inl _ \<Rightarrow> False | Inr s3 \<Rightarrow>
      case ipc_receive s3 20 of Inl _ \<Rightarrow> False | Inr (m, s4) \<Rightarrow>
        msg_sender m = 10 \<and> payload m = data \<and> ipc_receive s4 20 = Inl QueueEmpty \<and>
        ipc_send s4 99 20 data = Inl NoEndpoint \<and>
        (case ipc_unregister s4 10 of Inl _ \<Rightarrow> False
         | Inr s5 \<Rightarrow> ipc_unregister s5 10 = Inl NoEndpoint))"

section \<open>Endpoints are bounded queues\<close>

definition wf_message :: "Message \<Rightarrow> bool" where
  [wf_simps]: "wf_message m \<longleftrightarrow> length (msg_bytes m) = MAX_MESSAGE_SIZE \<and> msg_length m \<le> MAX_MESSAGE_SIZE"

definition ep_queue :: "Endpoint \<Rightarrow> Message list" where
  "ep_queue ep = take (ep_length ep) (messages ep)"

definition wf_endpoint :: "Endpoint \<Rightarrow> bool" where
  [wf_simps]: "wf_endpoint ep \<longleftrightarrow> length (messages ep) = QUEUE_DEPTH \<and> ep_length ep \<le> QUEUE_DEPTH"

definition ep_push :: "Message \<Rightarrow> Endpoint \<Rightarrow> Endpoint option" where
  "ep_push m ep = (case enqueue ep m of Inl _ \<Rightarrow> None | Inr ep' \<Rightarrow> Some ep')"

definition ep_pop :: "Endpoint \<Rightarrow> (Message \<times> Endpoint) option" where
  "ep_pop ep = (case dequeue ep of Inl _ \<Rightarrow> None | Inr p \<Rightarrow> Some p)"

lemma length_ep_queue: "wf_endpoint ep \<Longrightarrow> length (ep_queue ep) = ep_length ep"
  by (simp add: ep_queue_def wf_simps)

lemma enqueue_queue:
  assumes "wf_endpoint ep" "enqueue ep m = Inr ep'"
  shows "wf_endpoint ep' \<and> ep_queue ep' = ep_queue ep @ [m] \<and> owner ep' = owner ep"
  using assms
  by (auto simp: enqueue_def ep_queue_def wf_simps take_Suc_conv_app_nth split: if_splits)

lemma dequeue_queue:
  assumes wf: "wf_endpoint ep" and dq: "dequeue ep = Inr (m, ep')"
  shows "wf_endpoint ep' \<and> ep_queue ep = m # ep_queue ep' \<and> owner ep' = owner ep"
proof -
  obtain n where n: "ep_length ep = Suc n"
    using dq by (cases "ep_length ep") (auto simp: dequeue_def)
  with wf have len: "length (messages ep) = QUEUE_DEPTH" "Suc n \<le> QUEUE_DEPTH"
    by (simp_all add: wf_simps)
  obtain a rest where ms: "messages ep = a # rest" using len by (cases "messages ep") auto
  from dq n ms have m: "m = a" and ep': "ep' = ep\<lparr>messages :=
      (copy_at (messages ep) 0 (take n rest))[n := message_empty], ep_length := n\<rparr>"
    by (auto simp: dequeue_def Let_def slice_def)
  have "take n (copy_at (messages ep) 0 (take n rest)) = take n rest"
    using ms len by (simp add: copy_at_def)
  then have "ep_queue ep' = take n rest" using ep' by (simp add: ep_queue_def)
  moreover have "wf_endpoint ep'"
    using ep' ms len by (simp add: wf_simps copy_at_def)
  ultimately show ?thesis using m n ms ep' by (simp add: ep_queue_def)
qed

lemma enqueue_Inl: "enqueue ep m = Inl e \<longleftrightarrow> ep_length ep = QUEUE_DEPTH \<and> e = QueueFull"
  by (auto simp: enqueue_def)

lemma dequeue_Inl: "dequeue ep = Inl e \<longleftrightarrow> ep_length ep = 0 \<and> e = QueueEmpty"
  by (auto simp: dequeue_def Let_def)

interpretation epq: bounded_fifo endpoint_empty ep_push ep_pop ep_queue wf_endpoint QUEUE_DEPTH
proof unfold_locales
  show "wf_endpoint endpoint_empty" "ep_queue endpoint_empty = []"
    by (simp_all add: wf_simps endpoint_empty_def ep_queue_def)
  fix q :: Endpoint assume wf: "wf_endpoint q"
  show "length (ep_queue q) \<le> QUEUE_DEPTH"
    using wf by (simp add: length_ep_queue wf_simps)
  show "ep_push x q = None" if "length (ep_queue q) = QUEUE_DEPTH" for x
    using that wf by (simp add: length_ep_queue ep_push_def enqueue_def)
  show "\<exists>q'. ep_push x q = Some q' \<and> wf_endpoint q' \<and> ep_queue q' = ep_queue q @ [x]"
    if room: "length (ep_queue q) < QUEUE_DEPTH" for x
  proof -
    obtain q' where q': "enqueue q x = Inr q'"
      using room length_ep_queue [OF wf] by (simp add: enqueue_def)
    with enqueue_queue [OF wf q'] show ?thesis by (simp add: ep_push_def)
  qed
  show "ep_pop q = None" if "ep_queue q = []"
    using that length_ep_queue [OF wf] by (simp add: ep_pop_def dequeue_def)
  show "\<exists>q'. ep_pop q = Some (x, q') \<and> wf_endpoint q' \<and> ep_queue q' = xs"
    if ne: "ep_queue q = x # xs" for x xs
  proof -
    obtain m q' where q': "dequeue q = Inr (m, q')"
      using ne length_ep_queue [OF wf] by (auto simp: dequeue_def Let_def)
    with dequeue_queue [OF wf q'] ne show ?thesis by (simp add: ep_pop_def)
  qed
qed

section \<open>The abstract mailbox machine\<close>

type_synonym letter = "u64 \<times> bytes"
type_synonym mailboxes = "u64 \<Rightarrow> letter list option"

datatype ipc_op =
    Register u64 | Unregister u64 | Send u64 u64 bytes | Receive u64 | Peek u64

datatype ipc_reply = Done | Got letter | Failed ipc_error

text \<open>
  The contract of the component, with no arrays: registration and removal of owners, and one
  list of letters per owner. The registry bound is the number of registered owners.
\<close>

fun mailbox_step :: "ipc_op \<Rightarrow> mailboxes \<Rightarrow> ipc_reply \<times> mailboxes" where
  "mailbox_step (Register a) M =
     (if M a \<noteq> None then (Failed EndpointExists, M)
      else if card (dom M) = MAX_ENDPOINTS then (Failed RegistryFull, M)
      else (Done, M(a \<mapsto> [])))"
| "mailbox_step (Unregister a) M =
     (if M a = None then (Failed NoEndpoint, M) else (Done, M(a := None)))"
| "mailbox_step (Send a b data) M =
     (if length data > MAX_MESSAGE_SIZE then (Failed MessageTooLarge, M)
      else if M a = None then (Failed NoEndpoint, M)
      else case M b of
        None \<Rightarrow> (Failed NoEndpoint, M)
      | Some q \<Rightarrow> if length q = QUEUE_DEPTH then (Failed QueueFull, M)
                  else (Done, M(b \<mapsto> q @ [(a, data)])))"
| "mailbox_step (Receive a) M =
     (case M a of
        None \<Rightarrow> (Failed NoEndpoint, M)
      | Some [] \<Rightarrow> (Failed QueueEmpty, M)
      | Some (x # xs) \<Rightarrow> (Got x, M(a \<mapsto> xs)))"
| "mailbox_step (Peek a) M =
     (case M a of
        None \<Rightarrow> (Failed NoEndpoint, M)
      | Some [] \<Rightarrow> (Failed QueueEmpty, M)
      | Some (x # xs) \<Rightarrow> (Got x, M))"

definition letter_of :: "Message \<Rightarrow> letter" where
  "letter_of m = (msg_sender m, payload m)"

text \<open>The kernel's operations, as steps of the same machine.\<close>

fun ipc_step :: "ipc_op \<Rightarrow> IpcState \<Rightarrow> ipc_reply \<times> IpcState" where
  "ipc_step (Register a) s =
     (case ipc_register s a of Inl e \<Rightarrow> (Failed e, s) | Inr s' \<Rightarrow> (Done, s'))"
| "ipc_step (Unregister a) s =
     (case ipc_unregister s a of Inl e \<Rightarrow> (Failed e, s) | Inr s' \<Rightarrow> (Done, s'))"
| "ipc_step (Send a b data) s =
     (case ipc_send s a b data of Inl e \<Rightarrow> (Failed e, s) | Inr s' \<Rightarrow> (Done, s'))"
| "ipc_step (Receive a) s =
     (case ipc_receive s a of Inl e \<Rightarrow> (Failed e, s) | Inr (m, s') \<Rightarrow> (Got (letter_of m), s'))"
| "ipc_step (Peek a) s =
     (case ipc_peek s a of Inl e \<Rightarrow> (Failed e, s) | Inr m \<Rightarrow> (Got (letter_of m), s))"

section \<open>Refinement\<close>

interpretation owners: slot_table owner .

definition wf_ipc :: "IpcState \<Rightarrow> bool" where
  "wf_ipc s \<longleftrightarrow> length (endpoints s) = MAX_ENDPOINTS \<and> owners.unique (endpoints s) \<and>
     (\<forall>ep. Some ep \<in> set (endpoints s) \<longrightarrow> wf_endpoint ep)"

definition ep_letters :: "Endpoint \<Rightarrow> letter list" where
  "ep_letters ep = map letter_of (ep_queue ep)"

definition mailboxes_of :: "IpcState \<Rightarrow> mailboxes" where
  "mailboxes_of s a = map_option ep_letters (endpoint s a)"

lemma endpoint_table: "endpoint s = owners.table (endpoints s)"
  by (rule ext) (simp add: endpoint_def owners.table_def)

lemma wf_ipc_new: "wf_ipc ipc_new" "mailboxes_of ipc_new = Map.empty"
  by (auto simp: wf_ipc_def ipc_new_def mailboxes_of_def endpoint_table)

lemma endpoint_slot_Some:
  assumes "endpoint_slot s a = Some i"
  obtains ep where "i < length (endpoints s)" "endpoints s ! i = Some ep" "owner ep = a"
    "endpoint s a = Some ep"
  using assms by (auto simp: endpoint_slot_def endpoint_def slot_find_where elim!: slot_where_Some)

lemma endpoint_slot_None: "endpoint_slot s a = None \<longleftrightarrow> endpoint s a = None"
  by (simp add: endpoint_slot_def endpoint_def)

lemma mailboxes_of_None [simp]: "mailboxes_of s a = None \<longleftrightarrow> endpoint s a = None"
  by (simp add: mailboxes_of_def)

lemma wf_ipc_set:
  assumes "wf_ipc s" "owners.unique ((endpoints s)[i := e])" "\<And>ep. e = Some ep \<Longrightarrow> wf_endpoint ep"
  shows "wf_ipc (set_slot s i e)"
  using assms set_update_subset_insert [of "endpoints s" i e] by (auto simp: wf_ipc_def set_slot_def)

lemma set_slot_replace:
  assumes "wf_ipc s" "i < length (endpoints s)" "endpoints s ! i = Some ep"
    and "wf_endpoint ep'" "owner ep' = owner ep"
  shows "wf_ipc (set_slot s i (Some ep'))"
    and "mailboxes_of (set_slot s i (Some ep')) = (mailboxes_of s)(owner ep \<mapsto> ep_letters ep')"
proof -
  from assms(1) have u: "owners.unique (endpoints s)" by (simp add: wf_ipc_def)
  show "wf_ipc (set_slot s i (Some ep'))"
    using owners.unique_replace [OF u assms(2,3,5)] assms(1,4) by (intro wf_ipc_set) auto
  show "mailboxes_of (set_slot s i (Some ep')) = (mailboxes_of s)(owner ep \<mapsto> ep_letters ep')"
    unfolding mailboxes_of_def endpoint_table set_slot_def
    by (rule ext) (simp add: owners.table_replace [OF u assms(2,3,5)])
qed

lemma wf_ipc_endpoint: "wf_ipc s \<Longrightarrow> endpoint s a = Some ep \<Longrightarrow> wf_endpoint ep"
  unfolding endpoint_table wf_ipc_def using owners.table_SomeD(1) by blast

lemma card_mailboxes:
  assumes "wf_ipc s"
  shows "card (dom (mailboxes_of s)) = slots_used (endpoints s)"
proof -
  let ?es = "endpoints s"
  let ?I = "{i. i < length ?es \<and> ?es ! i \<noteq> None}"
  from assms have u: "owners.unique ?es" by (simp add: wf_ipc_def)
  have "dom (mailboxes_of s) = (\<lambda>i. owner (the (?es ! i))) ` ?I"
    unfolding dom_def mailboxes_of_def endpoint_table
    using owners.table_iff [OF u] by (force simp: image_iff in_set_conv_nth)
  moreover have "inj_on (\<lambda>i. owner (the (?es ! i))) ?I"
    by (rule inj_onI) (auto intro: owners.uniqueD [OF u])
  ultimately have "card (dom (mailboxes_of s)) = card ?I" by (simp add: card_image)
  then show ?thesis by (simp add: slots_used_def length_filter_conv_card)
qed

lemma ipc_register_refines:
  assumes wf: "wf_ipc s" and st: "ipc_step (Register a) s = (r, s')"
  shows "wf_ipc s' \<and> mailbox_step (Register a) (mailboxes_of s) = (r, mailboxes_of s')"
proof (cases "endpoint s a")
  case (Some ep)
  with st wf show ?thesis by (auto simp: ipc_register_def mailboxes_of_def)
next
  case None
  from wf have u: "owners.unique (endpoints s)" and len: "length (endpoints s) = MAX_ENDPOINTS"
    by (simp_all add: wf_ipc_def)
  let ?ep = "endpoint_empty\<lparr>owner := a\<rparr>"
  have card: "card (dom (mailboxes_of s)) = MAX_ENDPOINTS \<longleftrightarrow> free_slot (endpoints s) = None"
    using card_mailboxes [OF wf] slots_used_full [of "endpoints s"] len by simp
  show ?thesis
  proof (cases "free_slot (endpoints s)")
    case None': None
    with None st wf card show ?thesis by (auto simp: ipc_register_def)
  next
    case (Some i)
    then have i: "i < length (endpoints s)" "endpoints s ! i = None" by (auto dest: free_slot_Some)
    have t: "owners.table (endpoints s) (owner ?ep) = None"
      using None by (simp add: endpoint_table)
    have s': "s' = set_slot s i (Some ?ep)" "r = Done"
      using st None Some by (auto simp: ipc_register_def)
    have "mailboxes_of s' = (mailboxes_of s)(a \<mapsto> [])"
      unfolding s' mailboxes_of_def endpoint_table set_slot_def
      using owners.table_occupy [OF u i t]
      by (auto simp: ep_letters_def ep_queue_def endpoint_empty_def fun_eq_iff)
    moreover have "wf_ipc s'"
      unfolding s' using owners.unique_occupy [OF u t]
      by (intro wf_ipc_set [OF wf]) (auto simp: wf_simps endpoint_empty_def)
    ultimately show ?thesis using None Some card s'(2) by simp
  qed
qed

lemma ipc_unregister_refines:
  assumes wf: "wf_ipc s" and st: "ipc_step (Unregister a) s = (r, s')"
  shows "wf_ipc s' \<and> mailbox_step (Unregister a) (mailboxes_of s) = (r, mailboxes_of s')"
proof (cases "endpoint_slot s a")
  case None
  then have "endpoint s a = None" by (simp add: endpoint_slot_None)
  with None st wf show ?thesis by (auto simp: ipc_unregister_def)
next
  case (Some i)
  then obtain ep where i: "i < length (endpoints s)" "endpoints s ! i = Some ep" "owner ep = a"
    and ep: "endpoint s a = Some ep" by (rule endpoint_slot_Some)
  from wf have u: "owners.unique (endpoints s)" by (simp add: wf_ipc_def)
  from st Some have s': "s' = set_slot s i None" "r = Done" by (auto simp: ipc_unregister_def)
  have "mailboxes_of s' = (mailboxes_of s)(a := None)"
    unfolding s' mailboxes_of_def endpoint_table set_slot_def
    using owners.table_release [OF u i(1,2)] i(3) by (auto simp: fun_eq_iff)
  moreover have "wf_ipc s'"
    unfolding s' using owners.unique_release [OF u] by (intro wf_ipc_set [OF wf]) auto
  ultimately show ?thesis using ep s'(2) by simp
qed

lemma ipc_send_refines:
  assumes wf: "wf_ipc s" and st: "ipc_step (Send a b data) s = (r, s')"
  shows "wf_ipc s' \<and> mailbox_step (Send a b data) (mailboxes_of s) = (r, mailboxes_of s')"
proof (cases "length data > MAX_MESSAGE_SIZE \<or> endpoint s a = None \<or> endpoint_slot s b = None")
  case True
  then consider "length data > MAX_MESSAGE_SIZE \<or> endpoint s a = None"
    | "endpoint_slot s b = None" "endpoint s b = None" by (auto simp: endpoint_slot_None)
  then show ?thesis
    by cases (use st wf in \<open>auto simp: ipc_send_def mailboxes_of_def\<close>)
next
  case False
  then obtain i where i: "endpoint_slot s b = Some i" by auto
  then obtain ep where ep: "i < length (endpoints s)" "endpoints s ! i = Some ep" "owner ep = b"
    "endpoint s b = Some ep" by (rule endpoint_slot_Some)
  have wep: "wf_endpoint ep" using wf_ipc_endpoint [OF wf ep(4)] .
  define m where "m = message_empty\<lparr>msg_sender := a, msg_length := length data,
      msg_bytes := copy_at (msg_bytes message_empty) 0 data\<rparr>"
  have lm: "letter_of m = (a, data)"
    using False by (simp add: letter_of_def payload_def m_def take_copy_at_0 message_empty_def)
  have lq: "mailboxes_of s b = Some (ep_letters ep)" "length (ep_letters ep) = ep_length ep"
    using ep(4) length_ep_queue [OF wep] by (simp_all add: mailboxes_of_def ep_letters_def)
  show ?thesis
  proof (cases "enqueue ep m")
    case (Inl e)
    then have "ep_length ep = QUEUE_DEPTH" "e = QueueFull" by (simp_all add: enqueue_Inl)
    with Inl False i ep st lq wf show ?thesis
      by (auto simp: ipc_send_def m_def Let_def)
  next
    case (Inr ep')
    from enqueue_queue [OF wep Inr]
    have ep': "wf_endpoint ep'" "owner ep' = owner ep" "ep_letters ep' = ep_letters ep @ [(a, data)]"
      by (simp_all add: ep_letters_def lm)
    have s': "s' = set_slot s i (Some ep')" "r = Done"
      using Inr False i ep st by (auto simp: ipc_send_def m_def Let_def)
    have "ep_length ep \<noteq> QUEUE_DEPTH" using Inr by (auto simp: enqueue_def)
    with set_slot_replace [OF wf ep(1,2) ep'(1,2)] s' ep' lq False ep show ?thesis by auto
  qed
qed

lemma ipc_receive_refines:
  assumes wf: "wf_ipc s" and st: "ipc_step (Receive a) s = (r, s')"
  shows "wf_ipc s' \<and> mailbox_step (Receive a) (mailboxes_of s) = (r, mailboxes_of s')"
proof (cases "endpoint_slot s a")
  case None
  then have "endpoint s a = None" by (simp add: endpoint_slot_None)
  with None st wf show ?thesis by (auto simp: ipc_receive_def mailboxes_of_def)
next
  case (Some i)
  then obtain ep where ep: "i < length (endpoints s)" "endpoints s ! i = Some ep" "owner ep = a"
    "endpoint s a = Some ep" by (rule endpoint_slot_Some)
  have wep: "wf_endpoint ep" using wf_ipc_endpoint [OF wf ep(4)] .
  show ?thesis
  proof (cases "dequeue ep")
    case (Inl e)
    then have "ep_letters ep = []" "e = QueueEmpty"
      using length_ep_queue [OF wep] by (simp_all add: dequeue_Inl ep_letters_def)
    with Inl Some ep st wf show ?thesis by (auto simp: ipc_receive_def mailboxes_of_def)
  next
    case (Inr p)
    obtain m ep' where p: "p = (m, ep')" by (cases p)
    from dequeue_queue [OF wep Inr [unfolded p]]
    have ep': "wf_endpoint ep'" "owner ep' = owner ep" "ep_letters ep = letter_of m # ep_letters ep'"
      by (simp_all add: ep_letters_def)
    have s': "s' = set_slot s i (Some ep')" "r = Got (letter_of m)"
      using Inr p Some ep st by (auto simp: ipc_receive_def)
    from set_slot_replace [OF wf ep(1,2) ep'(1,2)] s' ep' ep show ?thesis
      by (simp add: mailboxes_of_def [of s])
  qed
qed

lemma ipc_peek_refines:
  assumes wf: "wf_ipc s" and st: "ipc_step (Peek a) s = (r, s')"
  shows "wf_ipc s' \<and> mailbox_step (Peek a) (mailboxes_of s) = (r, mailboxes_of s')"
proof (cases "endpoint s a")
  case None
  with st wf show ?thesis by (auto simp: ipc_peek_def mailboxes_of_def)
next
  case (Some ep)
  from wf_ipc_endpoint [OF wf Some] have wep: "wf_endpoint ep" .
  then have ne: "messages ep \<noteq> []" by (auto simp: wf_simps QUEUE_DEPTH_def)
  show ?thesis
  proof (cases "ep_length ep")
    case 0
    with Some st wf show ?thesis
      by (auto simp: ipc_peek_def mailboxes_of_def ep_letters_def ep_queue_def)
  next
    case (Suc n)
    from ne obtain x xs where "messages ep = x # xs" by (cases "messages ep") auto
    with Some Suc st wf show ?thesis
      by (auto simp: ipc_peek_def mailboxes_of_def ep_letters_def ep_queue_def)
  qed
qed

lemma ipc_step_simulates:
  assumes "wf_ipc s" "ipc_step op s = (r, s')"
  shows "wf_ipc s' \<and> mailbox_step op (mailboxes_of s) = (r, mailboxes_of s')"
proof (cases op)
  case (Register a)
  show ?thesis using ipc_register_refines [OF assms [unfolded Register]] unfolding Register .
next
  case (Unregister a)
  show ?thesis using ipc_unregister_refines [OF assms [unfolded Unregister]] unfolding Unregister .
next
  case (Send a b data)
  show ?thesis using ipc_send_refines [OF assms [unfolded Send]] unfolding Send .
next
  case (Receive a)
  show ?thesis using ipc_receive_refines [OF assms [unfolded Receive]] unfolding Receive .
next
  case (Peek a)
  show ?thesis using ipc_peek_refines [OF assms [unfolded Peek]] unfolding Peek .
qed

text \<open>Whole runs, from the empty registry.\<close>

fun ipc_run :: "ipc_op list \<Rightarrow> IpcState \<Rightarrow> ipc_reply list \<times> IpcState" where
  "ipc_run [] s = ([], s)"
| "ipc_run (p # ps) s =
     (let (r, s1) = ipc_step p s; (rs, s2) = ipc_run ps s1 in (r # rs, s2))"

fun mailbox_run :: "ipc_op list \<Rightarrow> mailboxes \<Rightarrow> ipc_reply list \<times> mailboxes" where
  "mailbox_run [] M = ([], M)"
| "mailbox_run (p # ps) M =
     (let (r, M1) = mailbox_step p M; (rs, M2) = mailbox_run ps M1 in (r # rs, M2))"

lemma ipc_run_simulates:
  assumes "wf_ipc s" "ipc_run ps s = (rs, s')"
  shows "wf_ipc s' \<and> mailbox_run ps (mailboxes_of s) = (rs, mailboxes_of s')"
  using assms
proof (induction ps arbitrary: s rs s')
  case Nil
  then show ?case by simp
next
  case (Cons p ps)
  obtain r s1 where s1: "ipc_step p s = (r, s1)" by (cases "ipc_step p s")
  obtain rs1 s2 where s2: "ipc_run ps s1 = (rs1, s2)" by (cases "ipc_run ps s1")
  from ipc_step_simulates [OF Cons.prems(1) s1]
  have p: "wf_ipc s1" "mailbox_step p (mailboxes_of s) = (r, mailboxes_of s1)" by simp_all
  from Cons.IH [OF p(1) s2] p(2) Cons.prems(2) s1 s2 show ?case by simp
qed

lemma ipc_self_test_passes: "ipc_self_test"
  by code_simp

section \<open>Properties\<close>

text \<open>The letters accepted for, and handed out to, one owner during a run.\<close>

fun accepted_for :: "u64 \<Rightarrow> ipc_op list \<Rightarrow> ipc_reply list \<Rightarrow> letter list" where
  "accepted_for b (Send a c data # ps) (Done # rs) =
     (if b = c then [(a, data)] else []) @ accepted_for b ps rs"
| "accepted_for b (p # ps) (r # rs) = accepted_for b ps rs"
| "accepted_for b _ _ = []"

fun delivered_to :: "u64 \<Rightarrow> ipc_op list \<Rightarrow> ipc_reply list \<Rightarrow> letter list" where
  "delivered_to b (Receive c # ps) (Got l # rs) =
     (if b = c then [l] else []) @ delivered_to b ps rs"
| "delivered_to b (p # ps) (r # rs) = delivered_to b ps rs"
| "delivered_to b _ _ = []"

lemma mailbox_step_queue:
  assumes "M b = Some q" "p \<noteq> Unregister b" "mailbox_step p M = (r, M')"
  shows "\<exists>q'. M' b = Some q' \<and> q @ accepted_for b [p] [r] = delivered_to b [p] [r] @ q'"
proof (cases p)
  case (Register a)
  then show ?thesis using assms by (auto split: if_splits)
next
  case (Unregister a)
  then show ?thesis using assms by (auto split: if_splits)
next
  case (Send a c data)
  then show ?thesis using assms by (auto split: if_splits option.splits)
next
  case (Receive a)
  then show ?thesis using assms by (auto split: if_splits option.splits list.splits)
next
  case (Peek a)
  then show ?thesis using assms by (auto split: if_splits option.splits list.splits)
qed

lemma accepted_for_Cons:
  "accepted_for b (p # ps) (r # rs) = accepted_for b [p] [r] @ accepted_for b ps rs"
  by (cases p; cases r) simp_all

lemma delivered_to_Cons:
  "delivered_to b (p # ps) (r # rs) = delivered_to b [p] [r] @ delivered_to b ps rs"
  by (cases p; cases r) simp_all

lemma mailbox_run_queue:
  assumes "M b = Some q" "Unregister b \<notin> set ps" "mailbox_run ps M = (rs, M')"
  shows "\<exists>q'. M' b = Some q' \<and> q @ accepted_for b ps rs = delivered_to b ps rs @ q'"
  using assms
proof (induction ps arbitrary: M q rs M')
  case Nil
  then show ?case by simp
next
  case (Cons p ps)
  obtain r M1 where 1: "mailbox_step p M = (r, M1)" by (cases "mailbox_step p M")
  obtain rs1 M2 where 2: "mailbox_run ps M1 = (rs1, M2)" by (cases "mailbox_run ps M1")
  have p: "p \<noteq> Unregister b" "Unregister b \<notin> set ps" using Cons.prems(2) by auto
  have eq: "rs = r # rs1" "M' = M2" using Cons.prems(3) 1 2 by auto
  from mailbox_step_queue [OF Cons.prems(1) p(1) 1] obtain q1 where
    q1: "M1 b = Some q1" "q @ accepted_for b [p] [r] = delivered_to b [p] [r] @ q1" by blast
  from Cons.IH [OF q1(1) p(2) 2] obtain q2 where
    q2: "M2 b = Some q2" "q1 @ accepted_for b ps rs1 = delivered_to b ps rs1 @ q2" by blast
  have "q @ accepted_for b [p] [r] @ accepted_for b ps rs1 = delivered_to b [p] [r] @ delivered_to b ps rs1 @ q2"
    using q1(2) q2(2) by (metis append_assoc)
  then have "q @ accepted_for b (p # ps) rs = delivered_to b (p # ps) rs @ q2"
    using accepted_for_Cons [of b p ps r rs1] delivered_to_Cons [of b p ps r rs1] eq(1) by simp
  with q2(1) eq(2) show ?case by blast
qed

text \<open>C1: The endpoint table refines the mailbox machine: from the empty registry, every sequence of
  register, unregister, send, receive and peek calls gives the same replies, errors included, as a
  map from owners to lists of at most 16 messages, and ends in the corresponding state.\<close>

theorem ipc_refines_mailboxes:
  "mailbox_run ops Map.empty =
     (fst (ipc_run ops ipc_new), mailboxes_of (snd (ipc_run ops ipc_new)))"
  using ipc_run_simulates [OF wf_ipc_new(1), of ops] wf_ipc_new(2)
  by (cases "ipc_run ops ipc_new") simp

text \<open>C2: Message delivery is first-in first-out, without loss or duplication: while an owner's endpoint
  stays registered, the messages it had queued followed by the messages accepted for it are the
  messages delivered to it followed by those still queued.\<close>

theorem ipc_delivery_fifo:
  assumes "wf_ipc s" "ipc_run ops s = (replies, s')"
    and "mailboxes_of s b = Some q" "Unregister b \<notin> set ops"
  shows "\<exists>q'. mailboxes_of s' b = Some q' \<and>
    q @ accepted_for b ops replies = delivered_to b ops replies @ q'"
  using mailbox_run_queue [where M = "mailboxes_of s", OF assms(3,4)] ipc_run_simulates [OF assms(1,2)]
  by blast

theorem ipc_delivery_fifo_witness:
  "let s = snd (ipc_run [Register 1, Register 2] ipc_new);
       ops = [Send 1 2 [7], Send 1 2 [8], Receive 2];
       (replies, s') = ipc_run ops s
   in wf_ipc s \<and> mailboxes_of s 2 = Some [] \<and> delivered_to 2 ops replies = [(1, [7])] \<and>
      (\<exists>q'. mailboxes_of s' 2 = Some q' \<and>
        [] @ accepted_for 2 ops replies = delivered_to 2 ops replies @ q')"
proof -
  let ?s = "snd (ipc_run [Register 1, Register 2] ipc_new)"
  let ?ops = "[Send 1 2 [7], Send 1 2 [8], Receive 2]"
  have wf: "wf_ipc ?s"
    using ipc_run_simulates [OF wf_ipc_new(1), of "[Register 1, Register 2]" "fst (ipc_run [Register 1, Register 2] ipc_new)" ?s]
    by simp
  have m: "mailboxes_of ?s 2 = Some []" by code_simp
  have d: "delivered_to 2 ?ops (fst (ipc_run ?ops ?s)) = [(1, [7])]" by code_simp
  obtain rs s' where r: "ipc_run ?ops ?s = (rs, s')" by (cases "ipc_run ?ops ?s")
  have "Unregister 2 \<notin> set ?ops" by simp
  from ipc_delivery_fifo [OF wf r m this] wf m d r show ?thesis by (simp add: Let_def)
qed

end
