(* ===== verification/Block_Cache.thy ===== *)
theory Block_Cache
  imports Partition_Table
begin

text \<open>
  The write-back sector cache (\<open>kernel/src/block_cache.rs\<close>) that the kernel puts between its
  filesystems and its disks. On any device that satisfies the block-device contract the
  cached device satisfies it again; acknowledged writes survive every later failure of the
  device, a successful flush makes them durable, and the sectors kept are the most recently
  used ones.
\<close>

section \<open>Model\<close>

record CacheEntry =
  lba :: u64
  data :: bytes
  valid :: bool
  dirty :: bool
  age :: u64

definition cache_entry_empty :: CacheEntry where
  "cache_entry_empty =
     \<lparr>lba = 0, data = replicate SECTOR_SIZE 0, valid = False, dirty = False, age = 0\<rparr>"

text \<open>The array size \<open>N\<close> of the source is the length of \<open>entries\<close>.\<close>

record 'd CachedDevice =
  inner :: 'd
  entries :: "CacheEntry list"
  writebacks :: u64
  evictions :: u64
  hits :: u64
  misses :: u64

definition cached_new :: "nat \<Rightarrow> 'd \<Rightarrow> 'd CachedDevice" where
  "cached_new n d =
     \<lparr>inner = d, entries = replicate n cache_entry_empty,
      writebacks = 0, evictions = 0, hits = 0, misses = 0\<rparr>"

definition touch :: "'d CachedDevice \<Rightarrow> nat \<Rightarrow> 'd CachedDevice" where
  "touch c index =
     (let es = map (\<lambda>e. if valid e then e\<lparr>age := saturating_add (age e) 1\<rparr> else e) (entries c)
      in c\<lparr>entries := es[index := (es ! index)\<lparr>age := 0\<rparr>]\<rparr>)"

definition cache_find :: "'d CachedDevice \<Rightarrow> u64 \<Rightarrow> nat option" where
  "cache_find c l = position (\<lambda>e. valid e \<and> lba e = l) (entries c)"

definition victim :: "'d CachedDevice \<Rightarrow> nat" where
  "victim c =
     (case position (\<lambda>e. \<not> valid e) (entries c) of
        Some index \<Rightarrow> index
      | None \<Rightarrow> (case max_index age (entries c) of Some i \<Rightarrow> i | None \<Rightarrow> 0))"

definition write_back ::
  "'d BlockDevice \<Rightarrow> 'd CachedDevice \<Rightarrow> nat \<Rightarrow> (block_error + unit) \<times> 'd CachedDevice" where
  "write_back ops c index =
     (let e = entries c ! index in
      if valid e \<and> dirty e then
        (case dev_write ops (inner c) (lba e) (data e) of
           (Inl err, d') \<Rightarrow> (Inl err, c\<lparr>inner := d'\<rparr>)
         | (Inr _, d') \<Rightarrow>
             (Inr (), c\<lparr>inner := d', entries := (entries c)[index := e\<lparr>dirty := False\<rparr>],
                        writebacks := saturating_add (writebacks c) 1\<rparr>))
      else (Inr (), c))"

definition count_eviction :: "'d CachedDevice \<Rightarrow> nat \<Rightarrow> 'd CachedDevice" where
  "count_eviction c index =
     (if valid (entries c ! index) then c\<lparr>evictions := saturating_add (evictions c) 1\<rparr> else c)"

definition load ::
  "'d BlockDevice \<Rightarrow> 'd CachedDevice \<Rightarrow> u64 \<Rightarrow> (block_error + nat) \<times> 'd CachedDevice" where
  "load ops c l =
     (case cache_find c l of
        Some index \<Rightarrow> (Inr index, touch (c\<lparr>hits := saturating_add (hits c) 1\<rparr>) index)
      | None \<Rightarrow>
          (let c = c\<lparr>misses := saturating_add (misses c) 1\<rparr>;
               index = victim c
           in case write_back ops c index of
                (Inl e, c) \<Rightarrow> (Inl e, c)
              | (Inr _, c) \<Rightarrow>
                  (case dev_read ops (inner c) l (replicate SECTOR_SIZE 0) of
                     (Inl e, _, d') \<Rightarrow> (Inl e, c\<lparr>inner := d'\<rparr>)
                   | (Inr _, dat, d') \<Rightarrow>
                       (let c = count_eviction (c\<lparr>inner := d'\<rparr>) index;
                            c = c\<lparr>entries := (entries c)[index :=
                                   \<lparr>lba = l, data = dat, valid = True, dirty = False, age = 0\<rparr>]\<rparr>
                        in (Inr index, touch c index)))))"

fun flush_loop ::
  "'d BlockDevice \<Rightarrow> 'd CachedDevice \<Rightarrow> nat list \<Rightarrow> (block_error + unit) \<times> 'd CachedDevice" where
  "flush_loop ops c [] = (Inr (), c)"
| "flush_loop ops c (index # rest) =
     (case write_back ops c index of
        (Inl e, c') \<Rightarrow> (Inl e, c')
      | (Inr _, c') \<Rightarrow> flush_loop ops c' rest)"

definition cached_flush ::
  "'d BlockDevice \<Rightarrow> 'd CachedDevice \<Rightarrow> (block_error + unit) \<times> 'd CachedDevice" where
  "cached_flush ops c =
     (case flush_loop ops c [0..<length (entries c)] of
        (Inl e, c') \<Rightarrow> (Inl e, c')
      | (Inr _, c') \<Rightarrow> (let (r, d') = dev_flush ops (inner c') in (r, c'\<lparr>inner := d'\<rparr>)))"

record CacheStats =
  stat_hits :: u64
  stat_misses :: u64
  stat_writebacks :: u64
  stat_evictions :: u64
  stat_capacity :: nat
  stat_resident :: nat
  stat_dirty :: nat

definition cache_stats :: "'d CachedDevice \<Rightarrow> CacheStats" where
  "cache_stats c =
     \<lparr>stat_hits = hits c, stat_misses = misses c, stat_writebacks = writebacks c,
      stat_evictions = evictions c, stat_capacity = length (entries c),
      stat_resident = length (filter valid (entries c)),
      stat_dirty = length (filter (\<lambda>e. valid e \<and> dirty e) (entries c))\<rparr>"

definition cached_read_sector ::
  "'d BlockDevice \<Rightarrow> 'd CachedDevice \<Rightarrow> u64 \<Rightarrow> bytes \<Rightarrow>
     (block_error + unit) \<times> bytes \<times> 'd CachedDevice" where
  "cached_read_sector ops c l sec =
     (if length sec \<noteq> SECTOR_SIZE then (Inl InvalidBuffer, sec, c)
      else if dev_sector_count ops (inner c) \<le> l then (Inl OutOfBounds, sec, c)
      else if length (entries c) = 0 then
        (let (r, sec', d') = dev_read ops (inner c) l sec in (r, sec', c\<lparr>inner := d'\<rparr>))
      else case load ops c l of
             (Inl e, c') \<Rightarrow> (Inl e, sec, c')
           | (Inr index, c') \<Rightarrow> (Inr (), data (entries c' ! index), c'))"

text \<open>The slot a write goes to: the one holding the sector, or the victim once written back.\<close>

definition write_slot ::
  "'d BlockDevice \<Rightarrow> 'd CachedDevice \<Rightarrow> u64 \<Rightarrow> (block_error + nat) \<times> 'd CachedDevice" where
  "write_slot ops c l =
     (case cache_find c l of
        Some index \<Rightarrow> (Inr index, c\<lparr>hits := saturating_add (hits c) 1\<rparr>)
      | None \<Rightarrow>
          (let c = c\<lparr>misses := saturating_add (misses c) 1\<rparr>;
               index = victim c
           in case write_back ops c index of
                (Inl e, c) \<Rightarrow> (Inl e, c)
              | (Inr _, c) \<Rightarrow>
                  (let c = count_eviction c index
                   in (Inr index, c\<lparr>entries := (entries c)[index :=
                        \<lparr>lba = l, data = replicate SECTOR_SIZE 0, valid = True, dirty = False, age = 0\<rparr>]\<rparr>))))"

definition cached_write_sector ::
  "'d BlockDevice \<Rightarrow> 'd CachedDevice \<Rightarrow> u64 \<Rightarrow> bytes \<Rightarrow> (block_error + unit) \<times> 'd CachedDevice" where
  "cached_write_sector ops c l sec =
     (if length sec \<noteq> SECTOR_SIZE then (Inl InvalidBuffer, c)
      else if dev_sector_count ops (inner c) \<le> l then (Inl OutOfBounds, c)
      else if dev_is_read_only ops (inner c) then (Inl ReadOnly, c)
      else if length (entries c) = 0 then
        (let (r, d') = dev_write ops (inner c) l sec in (r, c\<lparr>inner := d'\<rparr>))
      else case write_slot ops c l of
             (Inl e, c') \<Rightarrow> (Inl e, c')
           | (Inr index, c') \<Rightarrow>
               (Inr (), touch (c'\<lparr>entries := (entries c')[index :=
                   (entries c' ! index)\<lparr>data := sec, dirty := True\<rparr>]\<rparr>) index))"

definition cached_ops :: "'d BlockDevice \<Rightarrow> 'd CachedDevice BlockDevice" where
  "cached_ops ops =
     \<lparr>dev_sector_count = (\<lambda>c. dev_sector_count ops (inner c)),
      dev_is_read_only = (\<lambda>c. dev_is_read_only ops (inner c)),
      dev_flush = cached_flush ops, dev_read = cached_read_sector ops,
      dev_write = cached_write_sector ops\<rparr>"

section \<open>Contents of a cached device\<close>

definition cached_sector :: "('d \<Rightarrow> u64 \<Rightarrow> bytes) \<Rightarrow> 'd CachedDevice \<Rightarrow> u64 \<Rightarrow> bytes" where
  "cached_sector sct c l =
     (case cache_find c l of Some i \<Rightarrow> data (entries c ! i) | None \<Rightarrow> sct (inner c) l)"

definition unique_lbas :: "CacheEntry list \<Rightarrow> bool" where
  "unique_lbas es \<longleftrightarrow> (\<forall>i j. i < length es \<longrightarrow> j < length es \<longrightarrow> valid (es ! i) \<longrightarrow> valid (es ! j) \<longrightarrow>
     lba (es ! i) = lba (es ! j) \<longrightarrow> i = j)"

text \<open>A valid entry holds a sector of the disk, and the disk's own copy unless it is dirty.\<close>

definition entry_ok :: "'d BlockDevice \<Rightarrow> ('d \<Rightarrow> u64 \<Rightarrow> bytes) \<Rightarrow> 'd \<Rightarrow> CacheEntry \<Rightarrow> bool" where
  "entry_ok ops sct d e \<longleftrightarrow> (valid e \<longrightarrow>
     length (data e) = SECTOR_SIZE \<and> lba e < dev_sector_count ops d \<and>
     (dirty e \<or> data e = sct d (lba e)))"

definition cache_inv ::
  "'d BlockDevice \<Rightarrow> ('d \<Rightarrow> bool) \<Rightarrow> ('d \<Rightarrow> u64 \<Rightarrow> bytes) \<Rightarrow> 'd CachedDevice \<Rightarrow> bool" where
  "cache_inv ops I sct c \<longleftrightarrow> I (inner c) \<and> unique_lbas (entries c) \<and>
     (\<forall>i<length (entries c). entry_ok ops sct (inner c) (entries c ! i))"

lemma cache_find_Some:
  assumes "unique_lbas (entries c)"
  shows "cache_find c l = Some i \<longleftrightarrow>
    i < length (entries c) \<and> valid (entries c ! i) \<and> lba (entries c ! i) = l"
proof
  show "cache_find c l = Some i \<Longrightarrow> i < length (entries c) \<and> valid (entries c ! i) \<and> lba (entries c ! i) = l"
    by (auto simp: cache_find_def dest: position_SomeD)
  assume i: "i < length (entries c) \<and> valid (entries c ! i) \<and> lba (entries c ! i) = l"
  show "cache_find c l = Some i"
    unfolding cache_find_def
    by (rule position_unique) (use i assms in \<open>auto simp: unique_lbas_def\<close>)
qed

lemma cache_find_None:
  "cache_find c l = None \<longleftrightarrow> (\<forall>i<length (entries c). valid (entries c ! i) \<longrightarrow> lba (entries c ! i) \<noteq> l)"
  unfolding cache_find_def position_None by (metis in_set_conv_nth)

text \<open>Counters and ages are invisible to a client.\<close>

definition same_view :: "CacheEntry \<Rightarrow> CacheEntry \<Rightarrow> bool" where
  "same_view e f \<longleftrightarrow> lba e = lba f \<and> data e = data f \<and> valid e = valid f \<and> dirty e = dirty f"

definition same_cache :: "'d CachedDevice \<Rightarrow> 'd CachedDevice \<Rightarrow> bool" where
  "same_cache c c' \<longleftrightarrow> inner c' = inner c \<and> list_all2 same_view (entries c) (entries c')"

lemma same_cacheD:
  assumes "same_cache c c'"
  shows "inner c' = inner c" "length (entries c') = length (entries c)"
    "i < length (entries c) \<Longrightarrow> same_view (entries c ! i) (entries c' ! i)"
  using assms by (auto simp: same_cache_def list_all2_conv_all_nth)

lemma same_cache_find:
  assumes "same_cache c c'"
  shows "cache_find c' l = cache_find c l"
proof -
  have "position (\<lambda>e. valid e \<and> lba e = l) xs = position (\<lambda>e. valid e \<and> lba e = l) ys"
    if "list_all2 same_view ys xs" for xs ys
    using that by (induction rule: list_all2_induct) (auto simp: same_view_def)
  then show ?thesis using assms by (simp add: cache_find_def same_cache_def)
qed

lemma same_cache_sector:
  assumes "same_cache c c'"
  shows "cached_sector sct c' = cached_sector sct c"
proof
  fix l
  show "cached_sector sct c' l = cached_sector sct c l"
  proof (cases "cache_find c l")
    case None
    then show ?thesis using same_cache_find [OF assms, of l] same_cacheD(1) [OF assms]
      by (simp add: cached_sector_def)
  next
    case (Some i)
    then have "i < length (entries c)" by (auto simp: cache_find_def dest: position_SomeD)
    from same_cacheD(3) [OF assms this] Some same_cache_find [OF assms, of l] show ?thesis
      by (simp add: cached_sector_def same_view_def)
  qed
qed

lemma same_cache_inv:
  assumes "same_cache c c'" "cache_inv ops I sct c"
  shows "cache_inv ops I sct c'"
proof -
  have v: "same_view (entries c ! i) (entries c' ! i)" if "i < length (entries c')" for i
    using same_cacheD(2,3) [OF assms(1)] that by simp
  have "unique_lbas (entries c')"
    using assms(2) v same_cacheD(2) [OF assms(1)]
    unfolding unique_lbas_def same_view_def cache_inv_def by metis
  moreover have "entry_ok ops sct (inner c') (entries c' ! i)" if "i < length (entries c')" for i
    using assms(2) v [OF that] that same_cacheD(1,2) [OF assms(1)]
    by (auto simp: cache_inv_def entry_ok_def same_view_def)
  ultimately show ?thesis using assms(2) same_cacheD(1) [OF assms(1)] by (simp add: cache_inv_def)
qed

lemma same_cache_trans: "same_cache a b \<Longrightarrow> same_cache b c \<Longrightarrow> same_cache a c"
  by (auto simp: same_cache_def same_view_def list_all2_conv_all_nth)

lemma same_cache_touch: "i < length (entries c) \<Longrightarrow> same_cache c (touch c i)"
  by (auto simp: same_cache_def touch_def Let_def list_all2_conv_all_nth nth_list_update same_view_def)

lemma same_cache_counters:
  "same_cache c (c\<lparr>hits := h\<rparr>)" "same_cache c (c\<lparr>misses := h\<rparr>)" "same_cache c (c\<lparr>evictions := h\<rparr>)"
  "same_cache c (c\<lparr>writebacks := h\<rparr>)" "same_cache c (count_eviction c i)"
  by (simp_all add: same_cache_def count_eviction_def list_all2_refl same_view_def)

lemma count_eviction_simps [simp]:
  "inner (count_eviction c i) = inner c" "entries (count_eviction c i) = entries c"
  by (simp_all add: count_eviction_def)

section \<open>The operations on contents\<close>

text \<open>
  Placing an entry: at the slot that held the sector, or at a slot that holds nothing or a
  clean copy of another sector.
\<close>

lemma place_entry:
  assumes inv: "cache_inv ops I sct c" and i: "i < length (entries c)"
    and e: "valid e" "length (data e) = SECTOR_SIZE" "lba e < dev_sector_count ops (inner c)"
      "dirty e \<or> data e = sct (inner c) (lba e)"
    and others: "\<And>j. j < length (entries c) \<Longrightarrow> j \<noteq> i \<Longrightarrow> valid (entries c ! j) \<Longrightarrow> lba (entries c ! j) \<noteq> lba e"
    and old: "valid (entries c ! i) \<Longrightarrow> lba (entries c ! i) = lba e \<or> \<not> dirty (entries c ! i)"
  shows "cache_inv ops I sct (c\<lparr>entries := (entries c)[i := e]\<rparr>)"
    and "cached_sector sct (c\<lparr>entries := (entries c)[i := e]\<rparr>) = (cached_sector sct c)(lba e := data e)"
proof -
  let ?c = "c\<lparr>entries := (entries c)[i := e]\<rparr>"
  from inv have u: "unique_lbas (entries c)" by (simp add: cache_inv_def)
  have u': "unique_lbas (entries ?c)"
    unfolding unique_lbas_def
  proof (intro allI impI)
    fix a b assume ab: "a < length (entries ?c)" "b < length (entries ?c)" "valid (entries ?c ! a)"
      "valid (entries ?c ! b)" "lba (entries ?c ! a) = lba (entries ?c ! b)"
    show "a = b"
      using ab others [of a] others [of b] u
      by (cases "a = i"; cases "b = i") (auto simp: unique_lbas_def)
  qed
  have "entry_ok ops sct (inner c) e" using e by (simp add: entry_ok_def)
  with inv u' show "cache_inv ops I sct ?c"
    by (simp add: cache_inv_def nth_list_update i)
  show "cached_sector sct ?c = (cached_sector sct c)(lba e := data e)"
  proof
    fix l
    show "cached_sector sct ?c l = ((cached_sector sct c)(lba e := data e)) l"
    proof (cases "l = lba e")
      case True
      then have "cache_find ?c l = Some i" using i e(1) by (subst cache_find_Some [OF u']) simp
      with True i show ?thesis by (simp add: cached_sector_def)
    next
      case False
      show ?thesis
      proof (cases "cache_find c l")
        case None
        then have "cache_find ?c l = None" using False i by (auto simp: cache_find_None nth_list_update)
        with None False show ?thesis by (simp add: cached_sector_def)
      next
        case (Some j)
        then have j: "j < length (entries c)" "valid (entries c ! j)" "lba (entries c ! j) = l"
          by (simp_all add: cache_find_Some [OF u])
        show ?thesis
        proof (cases "j = i")
          case True
          with old j False have clean: "\<not> dirty (entries c ! i)" by auto
          have "cache_find ?c l = None"
            unfolding cache_find_None using False True j u
            by (auto simp: nth_list_update unique_lbas_def)
          moreover have "data (entries c ! i) = sct (inner c) l"
            using inv clean j True by (auto simp: cache_inv_def entry_ok_def)
          ultimately show ?thesis using Some True False by (simp add: cached_sector_def)
        next
          case False
          then have "cache_find ?c l = Some j" using j by (subst cache_find_Some [OF u']) simp
          with Some \<open>l \<noteq> lba e\<close> False show ?thesis by (simp add: cached_sector_def)
        qed
      qed
    qed
  qed
qed

text \<open>The entries after a write-back: slot \<open>i\<close> may have become clean, nothing else changed.\<close>

definition cleaned :: "CacheEntry list \<Rightarrow> nat \<Rightarrow> CacheEntry list \<Rightarrow> bool" where
  "cleaned es i es' \<longleftrightarrow> es' = es \<or> es' = es[i := (es ! i)\<lparr>dirty := False\<rparr>]"

lemma cleaned_nth:
  assumes "cleaned es i es'"
  shows "length es' = length es" "j \<noteq> i \<Longrightarrow> es' ! j = es ! j"
    "valid (es' ! j) = valid (es ! j)" "lba (es' ! j) = lba (es ! j)" "data (es' ! j) = data (es ! j)"
    "age (es' ! j) = age (es ! j)"
proof -
  have "es[i := (es ! i)\<lparr>dirty := False\<rparr>] ! j =
      (if j = i \<and> i < length es then (es ! i)\<lparr>dirty := False\<rparr> else es ! j)"
    by (cases "i < length es") (simp_all add: list_update_beyond nth_list_update)
  then show "length es' = length es" "j \<noteq> i \<Longrightarrow> es' ! j = es ! j"
    "valid (es' ! j) = valid (es ! j)" "lba (es' ! j) = lba (es ! j)" "data (es' ! j) = data (es ! j)"
    "age (es' ! j) = age (es ! j)"
    using assms unfolding cleaned_def by (auto split: if_splits)
qed

locale cached = disk: block_device ops inv sector
  for ops :: "'d BlockDevice" and inv and sector
begin

text \<open>
  Replacing the disk below the cache: by one that may differ at the sector of a dirty entry,
  which hides it, or by one that a client cannot tell apart.
\<close>

lemma inner_changed:
  assumes c: "cache_inv ops inv sector c" and i: "i < length (entries c)"
    and e: "valid (entries c ! i)" "dirty (entries c ! i)"
    and d': "inv d'" "same_shape ops (inner c) d'"
      "\<And>l. l \<noteq> lba (entries c ! i) \<Longrightarrow> sector d' l = sector (inner c) l"
  shows "cache_inv ops inv sector (c\<lparr>inner := d'\<rparr>)"
    and "cached_sector sector (c\<lparr>inner := d'\<rparr>) = cached_sector sector c"
proof -
  from c have u: "unique_lbas (entries c)" by (simp add: cache_inv_def)
  have "entry_ok ops sector d' (entries c ! j)" if j: "j < length (entries c)" for j
  proof (cases "j = i")
    case True
    with e c i d'(2) show ?thesis by (auto simp: cache_inv_def entry_ok_def same_shape_def)
  next
    case False
    have "lba (entries c ! j) \<noteq> lba (entries c ! i)" if "valid (entries c ! j)"
      using u False e(1) that j i by (auto simp: unique_lbas_def)
    with c d'(2,3) j show ?thesis by (auto simp: cache_inv_def entry_ok_def same_shape_def)
  qed
  with d'(1) u show "cache_inv ops inv sector (c\<lparr>inner := d'\<rparr>)" by (simp add: cache_inv_def)
  have find: "cache_find (c\<lparr>inner := d'\<rparr>) l = cache_find c l" for l by (simp add: cache_find_def)
  show "cached_sector sector (c\<lparr>inner := d'\<rparr>) = cached_sector sector c"
  proof
    fix l
    show "cached_sector sector (c\<lparr>inner := d'\<rparr>) l = cached_sector sector c l"
    proof (cases "cache_find c l")
      case None
      with i e(1) have "l \<noteq> lba (entries c ! i)" by (auto simp: cache_find_None)
      with None d'(3) show ?thesis by (simp add: cached_sector_def find)
    qed (simp add: cached_sector_def find)
  qed
qed

lemma inner_same:
  assumes "cache_inv ops inv sector c" "inv d'" "same_shape ops (inner c) d'" "sector d' = sector (inner c)"
  shows "cache_inv ops inv sector (c\<lparr>inner := d'\<rparr>)"
    and "cached_sector sector (c\<lparr>inner := d'\<rparr>) = cached_sector sector c"
proof -
  show "cache_inv ops inv sector (c\<lparr>inner := d'\<rparr>)"
    using assms by (simp add: cache_inv_def entry_ok_def same_shape_def)
  show "cached_sector sector (c\<lparr>inner := d'\<rparr>) = cached_sector sector c"
    by (rule ext) (simp add: cached_sector_def cache_find_def assms(4) cong: option.case_cong)
qed

lemma write_back_keeps:
  assumes c: "cache_inv ops inv sector c" and i: "i < length (entries c)"
    and wb: "write_back ops c i = (r, c')"
  shows "cache_inv ops inv sector c' \<and> cached_sector sector c' = cached_sector sector c \<and>
    same_shape ops (inner c) (inner c') \<and> cleaned (entries c) i (entries c') \<and>
    (r = Inr () \<longrightarrow> \<not> (valid (entries c' ! i) \<and> dirty (entries c' ! i)))"
proof (cases "valid (entries c ! i) \<and> dirty (entries c ! i)")
  case False
  with wb c show ?thesis by (auto simp: write_back_def Let_def cleaned_def)
next
  case True
  let ?e = "entries c ! i"
  obtain r' d' where w: "dev_write ops (inner c) (lba ?e) (data ?e) = (r', d')" by force
  from c have I: "inv (inner c)" and u: "unique_lbas (entries c)" by (simp_all add: cache_inv_def)
  from disk.write_keeps [OF I w] have d': "inv d'" "same_shape ops (inner c) d'"
    "\<And>l. l \<noteq> lba ?e \<Longrightarrow> sector d' l = sector (inner c) l" by auto
  note c1 = inner_changed [OF c i _ _ d', simplified True, simplified]
  show ?thesis
  proof (cases r')
    case (Inl e)
    with wb True w have "c' = c\<lparr>inner := d'\<rparr>" "r = Inl e" by (simp_all add: write_back_def Let_def)
    with c1 d'(2) show ?thesis by (simp add: cleaned_def)
  next
    case (Inr v)
    let ?f = "?e\<lparr>dirty := False\<rparr>"
    let ?c = "(c\<lparr>inner := d'\<rparr>)\<lparr>entries := (entries (c\<lparr>inner := d'\<rparr>))[i := ?f]\<rparr>"
    from wb True w Inr have c': "c' = ?c\<lparr>writebacks := saturating_add (writebacks c) 1\<rparr>"
      by (simp add: write_back_def Let_def)
    from disk.write_ok [OF I] w Inr have wok: "sector d' (lba ?e) = data ?e" by simp
    have "entry_ok ops sector (inner c) ?e" using c i by (simp add: cache_inv_def)
    with wok d'(2) True have f: "valid ?f" "length (data ?f) = SECTOR_SIZE"
      "lba ?f < dev_sector_count ops (inner (c\<lparr>inner := d'\<rparr>))"
      "dirty ?f \<or> data ?f = sector (inner (c\<lparr>inner := d'\<rparr>)) (lba ?f)"
      by (simp_all add: entry_ok_def same_shape_def)
    have other: "lba (entries (c\<lparr>inner := d'\<rparr>) ! j) \<noteq> lba ?f"
      if "j < length (entries (c\<lparr>inner := d'\<rparr>))" "j \<noteq> i" "valid (entries (c\<lparr>inner := d'\<rparr>) ! j)" for j
      using u True that i by (auto simp: unique_lbas_def)
    have i': "i < length (entries (c\<lparr>inner := d'\<rparr>))" using i by simp
    have "cache_inv ops inv sector ?c"
      "cached_sector sector ?c = (cached_sector sector (c\<lparr>inner := d'\<rparr>))(lba ?f := data ?f)"
      using place_entry [OF c1(1) i' f other] by simp_all
    moreover have "cached_sector sector c (lba ?e) = data ?e"
      using cache_find_Some [OF u, of "lba ?e" i] i True by (simp add: cached_sector_def)
    moreover have "same_cache ?c c'" unfolding c' by (rule same_cache_counters)
    ultimately have "cache_inv ops inv sector c'" "cached_sector sector c' = cached_sector sector c"
      using same_cache_inv [of ?c c'] same_cache_sector [of ?c c' sector] c1(2) by auto
    with d'(2) c' i show ?thesis by (simp add: cleaned_def)
  qed
qed

lemma victim_bound: "entries c \<noteq> [] \<Longrightarrow> victim c < length (entries c)"
  by (auto simp: victim_def split: option.splits dest: position_SomeD max_index_Some)

lemma cleaned_find:
  assumes "cleaned (entries c) i (entries c')"
  shows "cache_find c' l = None \<longleftrightarrow> cache_find c l = None"
  unfolding cache_find_None by (simp add: cleaned_nth [OF assms])

text \<open>Making room for a sector that is not in the cache, for a read and for a write.\<close>

lemma evict_keeps:
  assumes c: "cache_inv ops inv sector c" and ne: "entries c \<noteq> []" and miss: "cache_find c l = None"
    and wb: "write_back ops (c\<lparr>misses := m\<rparr>) (victim (c\<lparr>misses := m\<rparr>)) = (r, c')"
  shows "cache_inv ops inv sector c'" "cached_sector sector c' = cached_sector sector c"
    "same_shape ops (inner c) (inner c')" "length (entries c') = length (entries c)"
    "cache_find c' l = None" "victim (c\<lparr>misses := m\<rparr>) < length (entries c')"
    "r = Inr () \<Longrightarrow> valid (entries c' ! victim (c\<lparr>misses := m\<rparr>)) \<Longrightarrow> \<not> dirty (entries c' ! victim (c\<lparr>misses := m\<rparr>))"
proof -
  let ?c = "c\<lparr>misses := m\<rparr>"
  have v: "victim ?c < length (entries ?c)" using victim_bound [of ?c] ne by simp
  have sc: "same_cache c ?c" by (rule same_cache_counters)
  note wb' = write_back_keeps [OF same_cache_inv [OF sc c] v wb]
  from wb' same_cache_sector [OF sc] cleaned_find [of ?c "victim ?c" c' l] miss v
    cleaned_nth(1) [of "entries ?c" "victim ?c" "entries c'"]
  show "cache_inv ops inv sector c'" "cached_sector sector c' = cached_sector sector c"
    "same_shape ops (inner c) (inner c')" "length (entries c') = length (entries c)"
    "cache_find c' l = None" "victim ?c < length (entries c')"
    "r = Inr () \<Longrightarrow> valid (entries c' ! victim ?c) \<Longrightarrow> \<not> dirty (entries c' ! victim ?c)"
    by (auto simp: cache_find_def)
qed

lemma fill_slot:
  assumes c: "cache_inv ops inv sector c" and miss: "cache_find c (lba e) = None"
    and i: "i < length (entries c)" "valid (entries c ! i) \<Longrightarrow> \<not> dirty (entries c ! i)"
    and e: "valid e" "length (data e) = SECTOR_SIZE" "lba e < dev_sector_count ops (inner c)"
      "dirty e \<or> data e = sector (inner c) (lba e)"
    and c': "same_cache (c\<lparr>entries := (entries c)[i := e]\<rparr>) c'"
  shows "cache_inv ops inv sector c'" "cached_sector sector c' = (cached_sector sector c)(lba e := data e)"
    "cache_find c' (lba e) = Some i" "length (entries c') = length (entries c)" "inner c' = inner c"
proof -
  let ?c = "c\<lparr>entries := (entries c)[i := e]\<rparr>"
  have other: "valid (entries c ! j) \<Longrightarrow> lba (entries c ! j) \<noteq> lba e" if "j < length (entries c)" for j
    using miss that by (simp add: cache_find_None)
  note pl = place_entry [OF c i(1) e other]
  have p: "cache_inv ops inv sector ?c" "cached_sector sector ?c = (cached_sector sector c)(lba e := data e)"
    using pl i(2) by blast+
  from p(1) have u: "unique_lbas (entries ?c)" by (simp add: cache_inv_def)
  have "cache_find ?c (lba e) = Some i" using i(1) e(1) by (subst cache_find_Some [OF u]) simp
  with p same_cache_inv [OF c'] same_cache_sector [OF c', of sector] same_cache_find [OF c'] same_cacheD(1,2) [OF c']
  show "cache_inv ops inv sector c'" "cached_sector sector c' = (cached_sector sector c)(lba e := data e)"
    "cache_find c' (lba e) = Some i" "length (entries c') = length (entries c)" "inner c' = inner c"
    by simp_all
qed

lemma load_keeps:
  assumes c: "cache_inv ops inv sector c" and ne: "entries c \<noteq> []"
    and ld: "load ops c l = (r, c')"
  shows "cache_inv ops inv sector c' \<and> cached_sector sector c' = cached_sector sector c \<and>
    same_shape ops (inner c) (inner c') \<and> length (entries c') = length (entries c) \<and>
    (\<forall>i. r = Inr i \<longrightarrow> cache_find c' l = Some i)"
proof (cases "cache_find c l")
  case (Some i)
  then have i: "i < length (entries c)" by (auto simp: cache_find_def dest: position_SomeD)
  let ?c = "c\<lparr>hits := saturating_add (hits c) 1\<rparr>"
  from ld Some have r: "r = Inr i" and c': "c' = touch ?c i" by (simp_all add: load_def)
  have "same_cache c ?c" "same_cache ?c c'"
    using same_cache_counters same_cache_touch [of i ?c] i c' by simp_all
  then have sc: "same_cache c c'" by (rule same_cache_trans)
  show ?thesis
    using same_cache_inv [OF sc c] same_cache_sector [OF sc] same_cache_find [OF sc] same_cacheD(1,2) [OF sc] r Some
    by simp
next
  case None
  let ?m = "c\<lparr>misses := saturating_add (misses c) 1\<rparr>"
  let ?v = "victim ?m"
  obtain r1 c1 where wb: "write_back ops ?m ?v = (r1, c1)" by force
  note e = evict_keeps [OF c ne None wb]
  obtain r2 dat d2 where rd: "dev_read ops (inner c1) l (replicate SECTOR_SIZE 0) = (r2, dat, d2)"
    by (metis prod_cases3)
  from e(1) have I: "inv (inner c1)" by (simp add: cache_inv_def)
  from disk.read_keeps [OF I rd] have d2: "inv d2" "same_shape ops (inner c1) d2" "sector d2 = sector (inner c1)"
    by auto
  note c2 = inner_same [OF e(1) d2]
  from e(3) d2(2) have shape: "same_shape ops (inner c) d2" by (rule same_shape_trans)
  consider (wb_err) err where "r1 = Inl err" | (rd_err) err where "r1 = Inr ()" "r2 = Inl err"
    | (ok) "r1 = Inr ()" "r2 = Inr ()"
    by (cases r1; cases r2) auto
  then show ?thesis
  proof cases
    case wb_err
    with ld None wb have "r = Inl err" "c' = c1" by (simp_all add: load_def Let_def)
    with e show ?thesis by simp
  next
    case rd_err
    with ld None wb rd have "r = Inl err" "c' = c1\<lparr>inner := d2\<rparr>" by (simp_all add: load_def Let_def)
    with e c2 shape show ?thesis by simp
  next
    case ok
    let ?e = "\<lparr>lba = l, data = dat, valid = True, dirty = False, age = 0\<rparr>"
    let ?c2 = "c1\<lparr>inner := d2\<rparr>"
    let ?c3 = "count_eviction ?c2 ?v\<lparr>entries := (entries c1)[?v := ?e]\<rparr>"
    from ld None wb rd ok have r: "r = Inr ?v" and c': "c' = touch ?c3 ?v"
      by (simp_all add: load_def Let_def)
    have "same_cache (?c2\<lparr>entries := (entries ?c2)[?v := ?e]\<rparr>) ?c3"
      by (simp add: count_eviction_def same_cache_def list_all2_refl same_view_def)
    then have sc: "same_cache (?c2\<lparr>entries := (entries ?c2)[?v := ?e]\<rparr>) c'"
      using same_cache_touch [of ?v ?c3] e(6) c' by (auto intro: same_cache_trans)
    from disk.read_ok [OF I] rd ok have dat: "l < dev_sector_count ops (inner c1)" "dat = sector (inner c1) l"
      by auto
    have "cached_sector sector c1 l = dat" using e(5) dat(2) by (simp add: cached_sector_def)
    then have same: "(cached_sector sector c)(l := dat) = cached_sector sector c" using e(2) by auto
    have miss: "cache_find ?c2 (lba ?e) = None" using e(5) by (simp add: cache_find_def)
    have v: "?v < length (entries ?c2)" "valid (entries ?c2 ! ?v) \<Longrightarrow> \<not> dirty (entries ?c2 ! ?v)"
      using e(6,7) ok by simp_all
    have ef: "valid ?e" "length (data ?e) = SECTOR_SIZE" "lba ?e < dev_sector_count ops (inner ?c2)"
      "dirty ?e \<or> data ?e = sector (inner ?c2) (lba ?e)"
      using dat disk.sector_size [OF I dat(1)] d2(2,3) by (simp_all add: same_shape_def)
    from fill_slot [OF c2(1) miss v ef sc] c2(2) e(2,4) r same shape show ?thesis by simp
  qed
qed

lemma write_slot_keeps:
  assumes c: "cache_inv ops inv sector c" and ne: "entries c \<noteq> []"
    and ws: "write_slot ops c l = (r, c')"
  shows "(\<forall>err. r = Inl err \<longrightarrow> cache_inv ops inv sector c' \<and> cached_sector sector c' = cached_sector sector c) \<and>
    same_shape ops (inner c) (inner c') \<and> length (entries c') = length (entries c) \<and>
    (\<forall>i. r = Inr i \<longrightarrow> i < length (entries c) \<and> lba (entries c' ! i) = l \<and> valid (entries c' ! i)) \<and>
    (\<forall>i e. r = Inr i \<longrightarrow> lba e = l \<longrightarrow> valid e \<longrightarrow> dirty e \<longrightarrow> length (data e) = SECTOR_SIZE \<longrightarrow>
       l < dev_sector_count ops (inner c) \<longrightarrow>
       cache_inv ops inv sector (c'\<lparr>entries := (entries c')[i := e]\<rparr>) \<and>
       cached_sector sector (c'\<lparr>entries := (entries c')[i := e]\<rparr>) = (cached_sector sector c)(l := data e))"
proof (cases "cache_find c l")
  case (Some i)
  let ?c = "c\<lparr>hits := saturating_add (hits c) 1\<rparr>"
  from ws Some have r: "r = Inr i" "c' = ?c" by (simp_all add: write_slot_def)
  from c have u: "unique_lbas (entries c)" by (simp add: cache_inv_def)
  from Some have i: "i < length (entries c)" "valid (entries c ! i)" "lba (entries c ! i) = l"
    by (simp_all add: cache_find_Some [OF u])
  have sc: "same_cache c ?c" by (rule same_cache_counters)
  have other: "lba (entries ?c ! j) \<noteq> l" if "j < length (entries ?c)" "j \<noteq> i" "valid (entries ?c ! j)" for j
    using u i that by (auto simp: unique_lbas_def)
  show ?thesis
    using place_entry [OF same_cache_inv [OF sc c], of i] i r other same_cache_sector [OF sc, of sector] by auto
next
  case None
  let ?m = "c\<lparr>misses := saturating_add (misses c) 1\<rparr>"
  let ?v = "victim ?m"
  obtain r1 c1 where wb: "write_back ops ?m ?v = (r1, c1)" by force
  note e = evict_keeps [OF c ne None wb]
  show ?thesis
  proof (cases r1)
    case (Inl err)
    with ws None wb have "r = Inl err" "c' = c1" by (simp_all add: write_slot_def Let_def)
    with e show ?thesis by simp
  next
    case (Inr u)
    let ?z = "\<lparr>lba = l, data = replicate SECTOR_SIZE 0, valid = True, dirty = False, age = 0\<rparr>"
    let ?c2 = "count_eviction c1 ?v"
    from ws None wb Inr have r: "r = Inr ?v" "c' = ?c2\<lparr>entries := (entries c1)[?v := ?z]\<rparr>"
      by (simp_all add: write_slot_def Let_def)
    have v: "?v < length (entries c1)" "valid (entries c1 ! ?v) \<Longrightarrow> \<not> dirty (entries c1 ! ?v)"
      using e(6,7) Inr by simp_all
    have fill: "cache_inv ops inv sector (c'\<lparr>entries := (entries c')[?v := f]\<rparr>) \<and>
        cached_sector sector (c'\<lparr>entries := (entries c')[?v := f]\<rparr>) = (cached_sector sector c)(l := data f)"
      if f: "lba f = l" "valid f" "dirty f" "length (data f) = SECTOR_SIZE" "l < dev_sector_count ops (inner c)" for f
    proof -
      have sc: "same_cache (c1\<lparr>entries := (entries c1)[?v := f]\<rparr>) (c'\<lparr>entries := (entries c')[?v := f]\<rparr>)"
        using r(2) by (simp add: same_cache_def list_all2_refl same_view_def)
      have miss: "cache_find c1 (lba f) = None" using e(5) f(1) by simp
      have ef: "lba f < dev_sector_count ops (inner c1)" "dirty f \<or> data f = sector (inner c1) (lba f)"
        using f e(3) by (simp_all add: same_shape_def)
      from fill_slot [OF e(1) miss v f(2,4) ef sc] e(2) f(1) show ?thesis by simp
    qed
    with e r show ?thesis by simp
  qed
qed

lemma cached_read_keeps:
  assumes c: "cache_inv ops inv sector c" and rd: "cached_read_sector ops c l buf = (r, buf', c')"
  shows "cache_inv ops inv sector c' \<and> cached_sector sector c' = cached_sector sector c \<and>
    same_shape ops (inner c) (inner c') \<and>
    length (entries c') = length (entries c) \<and>
    (r = Inr () \<longrightarrow> length buf = SECTOR_SIZE \<and> l < dev_sector_count ops (inner c) \<and>
       buf' = cached_sector sector c l) \<and>
    (r \<noteq> Inr () \<longrightarrow> buf' = buf)"
proof -
  consider (bad) "length buf \<noteq> SECTOR_SIZE \<or> dev_sector_count ops (inner c) \<le> l"
    | (bypass) "length buf = SECTOR_SIZE" "\<not> dev_sector_count ops (inner c) \<le> l" "entries c = []"
    | (cache) "length buf = SECTOR_SIZE" "\<not> dev_sector_count ops (inner c) \<le> l" "entries c \<noteq> []"
    by fastforce
  then show ?thesis
  proof cases
    case bad
    with rd c show ?thesis by (auto simp: cached_read_sector_def split: if_splits)
  next
    case bypass
    obtain d' where d: "dev_read ops (inner c) l buf = (r, buf', d')" "c' = c\<lparr>inner := d'\<rparr>"
      using rd bypass by (auto simp: cached_read_sector_def split: prod.splits)
    from c have I: "inv (inner c)" by (simp add: cache_inv_def)
    from disk.read_keeps [OF I d(1)] inner_same [OF c] d(2)
    have keep: "cache_inv ops inv sector c'" "cached_sector sector c' = cached_sector sector c"
      "same_shape ops (inner c) (inner c')" "length (entries c') = length (entries c)" by auto
    have "cached_sector sector c l = sector (inner c) l"
      using bypass(3) by (simp add: cached_sector_def cache_find_def)
    with disk.read_ok [OF I] disk.read_err [OF I] d(1) bypass have "r = Inr () \<longrightarrow> buf' = cached_sector sector c l"
      and "r \<noteq> Inr () \<longrightarrow> buf' = buf" by (auto, cases r, auto)
    with keep bypass show ?thesis by (simp add: not_le)
  next
    case cache
    obtain r1 where ld: "load ops c l = (r1, c')"
      using rd cache by (auto simp: cached_read_sector_def split: prod.splits sum.splits)
    note k = load_keeps [OF c cache(3) ld]
    show ?thesis
    proof (cases r1)
      case (Inl e)
      with k rd cache ld show ?thesis by (auto simp: cached_read_sector_def)
    next
      case (Inr i)
      with rd cache ld have b: "r = Inr ()" "buf' = data (entries c' ! i)"
        by (simp_all add: cached_read_sector_def)
      from k Inr have "cache_find c' l = Some i" by simp
      then have "cached_sector sector c' l = data (entries c' ! i)" by (simp add: cached_sector_def)
      with k b cache show ?thesis by (simp add: not_le)
    qed
  qed
qed

text \<open>
  A failed write leaves the contents as they were, whatever the disk below did; only with no
  entries at all is the write passed through and the sector left to the disk.
\<close>

lemma cached_write_keeps:
  assumes c: "cache_inv ops inv sector c" and wr: "cached_write_sector ops c l buf = (r, c')"
  shows "cache_inv ops inv sector c' \<and> same_shape ops (inner c) (inner c') \<and>
    length (entries c') = length (entries c) \<and>
    (r = Inr () \<longrightarrow> length buf = SECTOR_SIZE \<and> l < dev_sector_count ops (inner c) \<and>
       cached_sector sector c' = (cached_sector sector c)(l := buf)) \<and>
    (r \<noteq> Inr () \<longrightarrow> (if entries c = [] then \<forall>k. k \<noteq> l \<longrightarrow> cached_sector sector c' k = cached_sector sector c k
       else cached_sector sector c' = cached_sector sector c))"
proof -
  consider (bad) "length buf \<noteq> SECTOR_SIZE \<or> dev_sector_count ops (inner c) \<le> l \<or> dev_is_read_only ops (inner c)"
    | (bypass) "length buf = SECTOR_SIZE" "\<not> dev_sector_count ops (inner c) \<le> l"
        "\<not> dev_is_read_only ops (inner c)" "entries c = []"
    | (cache) "length buf = SECTOR_SIZE" "\<not> dev_sector_count ops (inner c) \<le> l"
        "\<not> dev_is_read_only ops (inner c)" "entries c \<noteq> []"
    by fastforce
  then show ?thesis
  proof cases
    case bad
    with wr c show ?thesis by (auto simp: cached_write_sector_def split: if_splits)
  next
    case bypass
    obtain d' where d: "dev_write ops (inner c) l buf = (r, d')" "c' = c\<lparr>inner := d'\<rparr>"
      using wr bypass by (auto simp: cached_write_sector_def split: prod.splits)
    from c have I: "inv (inner c)" by (simp add: cache_inv_def)
    have sec: "cached_sector sector x = sector (inner x)" if "entries x = []" for x
      using that by (simp add: cached_sector_def cache_find_def fun_eq_iff)
    from disk.write_keeps [OF I d(1)] have k: "inv d'" "same_shape ops (inner c) d'"
      "\<forall>k. k \<noteq> l \<longrightarrow> sector d' k = sector (inner c) k" by auto
    with d(2) bypass c have "cache_inv ops inv sector c'" by (simp add: cache_inv_def)
    moreover have "r = Inr () \<Longrightarrow> sector d' l = buf" using disk.write_ok [OF I] d(1) by simp
    ultimately show ?thesis using k d(2) bypass sec [of c] sec [of c'] by (auto simp: fun_eq_iff not_le)
  next
    case cache
    obtain r1 c1 where ws: "write_slot ops c l = (r1, c1)" by force
    note k = write_slot_keeps [OF c cache(4) ws]
    show ?thesis
    proof (cases r1)
      case (Inl e)
      with wr cache ws have "r = Inl e" "c' = c1" by (simp_all add: cached_write_sector_def)
      with k Inl cache show ?thesis by simp
    next
      case (Inr i)
      let ?e = "(entries c1 ! i)\<lparr>data := buf, dirty := True\<rparr>"
      let ?c = "c1\<lparr>entries := (entries c1)[i := ?e]\<rparr>"
      have slot: "i < length (entries c)" "lba ?e = l" "valid ?e"
        using k Inr by auto
      have stored: "cache_inv ops inv sector ?c" "cached_sector sector ?c = (cached_sector sector c)(l := buf)"
        using k Inr slot cache by (auto simp: not_le)
      from wr cache ws Inr have c': "r = Inr ()" "c' = touch ?c i"
        by (simp_all add: cached_write_sector_def)
      have sc: "same_cache ?c c'" using c'(2) same_cache_touch [of i ?c] slot(1) k by simp
      from same_cache_inv [OF sc] same_cache_sector [OF sc, of sector] same_cacheD(1,2) [OF sc] stored k c' cache
      show ?thesis by (simp add: not_le)
    qed
  qed
qed

lemma flush_loop_keeps:
  assumes "cache_inv ops inv sector c" "\<forall>i\<in>set is. i < length (entries c)"
    "flush_loop ops c is = (r, c')"
  shows "cache_inv ops inv sector c' \<and> cached_sector sector c' = cached_sector sector c \<and>
    same_shape ops (inner c) (inner c') \<and> length (entries c') = length (entries c) \<and>
    (r = Inr () \<longrightarrow> (\<forall>i<length (entries c). i \<in> set is \<or> \<not> (valid (entries c ! i) \<and> dirty (entries c ! i)) \<longrightarrow>
       \<not> (valid (entries c' ! i) \<and> dirty (entries c' ! i))))"
  using assms
proof (induction "is" arbitrary: c)
  case Nil
  then show ?case by auto
next
  case (Cons i rest)
  obtain r1 c1 where wb: "write_back ops c i = (r1, c1)" by force
  have i: "i < length (entries c)" using Cons.prems by simp
  note k = write_back_keeps [OF Cons.prems(1) i wb]
  then have cl: "cleaned (entries c) i (entries c1)" by simp
  note nth = cleaned_nth(1,2) [OF cl]
  show ?case
  proof (cases r1)
    case (Inl e)
    with Cons.prems wb have "r = Inl e" "c' = c1" by simp_all
    with k nth show ?thesis by simp
  next
    case (Inr u)
    have "\<forall>j\<in>set rest. j < length (entries c1)" "flush_loop ops c1 rest = (r, c')"
      using Cons.prems wb Inr nth(1) by auto
    with Cons.IH [of c1] k have ih: "cache_inv ops inv sector c' \<and> cached_sector sector c' = cached_sector sector c1 \<and>
      same_shape ops (inner c1) (inner c') \<and> length (entries c') = length (entries c1) \<and>
      (r = Inr () \<longrightarrow> (\<forall>i<length (entries c1). i \<in> set rest \<or> \<not> (valid (entries c1 ! i) \<and> dirty (entries c1 ! i)) \<longrightarrow>
         \<not> (valid (entries c' ! i) \<and> dirty (entries c' ! i))))" by simp
    have "\<not> (valid (entries c' ! j) \<and> dirty (entries c' ! j))" if "r = Inr ()" "j < length (entries c)"
      "j \<in> set (i # rest) \<or> \<not> (valid (entries c ! j) \<and> dirty (entries c ! j))" for j
      using ih that k Inr nth by (cases "j = i") auto
    with ih k nth same_shape_trans [of ops "inner c" "inner c1" "inner c'"] show ?thesis by simp
  qed
qed

lemma cached_flush_keeps:
  assumes c: "cache_inv ops inv sector c" and fl: "cached_flush ops c = (r, c')"
  shows "cache_inv ops inv sector c' \<and> cached_sector sector c' = cached_sector sector c \<and>
    same_shape ops (inner c) (inner c') \<and> length (entries c') = length (entries c) \<and>
    (r = Inr () \<longrightarrow> (\<forall>e\<in>set (entries c'). \<not> (valid e \<and> dirty e)) \<and> sector (inner c') = cached_sector sector c)"
proof -
  obtain r1 c1 where lp: "flush_loop ops c [0..<length (entries c)] = (r1, c1)" by force
  have k: "cache_inv ops inv sector c1 \<and> cached_sector sector c1 = cached_sector sector c \<and>
    same_shape ops (inner c) (inner c1) \<and> length (entries c1) = length (entries c) \<and>
    (r1 = Inr () \<longrightarrow> (\<forall>i<length (entries c). \<not> (valid (entries c1 ! i) \<and> dirty (entries c1 ! i))))"
    using flush_loop_keeps [OF c _ lp] by simp
  show ?thesis
  proof (cases r1)
    case (Inl e)
    with fl lp have "r = Inl e" "c' = c1" by (simp_all add: cached_flush_def)
    with k show ?thesis by simp
  next
    case (Inr u)
    obtain d' where d: "dev_flush ops (inner c1) = (r, d')" "c' = c1\<lparr>inner := d'\<rparr>"
      using fl lp Inr by (auto simp: cached_flush_def split: prod.splits)
    from k have I: "inv (inner c1)" by (simp add: cache_inv_def)
    from disk.flush_keeps [OF I d(1)] have d': "inv d'" "same_shape ops (inner c1) d'" "sector d' = sector (inner c1)"
      by auto
    from inner_same [OF _ d'] k d(2) have c': "cache_inv ops inv sector c'"
      "cached_sector sector c' = cached_sector sector c" by auto
    have clean: "\<not> (valid e \<and> dirty e)" if "e \<in> set (entries c')" for e
      using that k Inr d(2) by (auto simp: in_set_conv_nth)
    have "sector (inner c') = cached_sector sector c'"
    proof
      fix l
      show "sector (inner c') l = cached_sector sector c' l"
      proof (cases "cache_find c' l")
        case None
        then show ?thesis by (simp add: cached_sector_def)
      next
        case (Some i)
        then have "i < length (entries c')" "valid (entries c' ! i)" "lba (entries c' ! i) = l"
          by (auto simp: cache_find_def dest: position_SomeD)
        with Some c'(1) clean [of "entries c' ! i"] show ?thesis
          by (auto simp: cached_sector_def cache_inv_def entry_ok_def)
      qed
    qed
    with c' k d(2) d'(2) clean same_shape_trans [of ops "inner c" "inner c1" d'] show ?thesis by auto
  qed
qed

lemma cached_sector_size:
  assumes c: "cache_inv ops inv sector c" and l: "l < dev_sector_count ops (inner c)"
  shows "length (cached_sector sector c l) = SECTOR_SIZE"
proof (cases "cache_find c l")
  case None
  then show ?thesis using disk.sector_size [OF _ l] c by (simp add: cached_sector_def cache_inv_def)
next
  case (Some i)
  then have "i < length (entries c)" "valid (entries c ! i)" by (auto simp: cache_find_def dest: position_SomeD)
  with Some c show ?thesis by (simp add: cached_sector_def cache_inv_def entry_ok_def)
qed

lemma cached_new_inv:
  "inv d \<Longrightarrow> cache_inv ops inv sector (cached_new n d)"
  "cached_sector sector (cached_new n d) = sector d"
proof -
  have "cache_find (cached_new n d) l = None" for l
    by (simp add: cache_find_def cached_new_def cache_entry_empty_def)
  then show "cached_sector sector (cached_new n d) = sector d"
    by (simp add: cached_sector_def cached_new_def fun_eq_iff)
  show "inv d \<Longrightarrow> cache_inv ops inv sector (cached_new n d)"
    by (simp add: cache_inv_def cached_new_def cache_entry_empty_def unique_lbas_def entry_ok_def)
qed

end

lemma cached_ops_simps [simp]:
  "dev_sector_count (cached_ops ops) c = dev_sector_count ops (inner c)"
  "dev_is_read_only (cached_ops ops) c = dev_is_read_only ops (inner c)"
  "dev_flush (cached_ops ops) = cached_flush ops"
  "dev_read (cached_ops ops) = cached_read_sector ops"
  "dev_write (cached_ops ops) = cached_write_sector ops"
  by (simp_all add: cached_ops_def)

lemma same_shape_cached: "same_shape (cached_ops ops) c c' \<longleftrightarrow> same_shape ops (inner c) (inner c')"
  by (simp add: same_shape_def)

sublocale cached \<subseteq> cache: block_device "cached_ops ops" "cache_inv ops inv sector" "cached_sector sector"
proof unfold_locales
  fix c assume inv: "cache_inv ops inv sector c"
  show "length (cached_sector sector c l) = SECTOR_SIZE"
    if "l < dev_sector_count (cached_ops ops) c" for l
    using cached_sector_size [OF inv] that by simp
  fix l buf
  show "cache_inv ops inv sector c' \<and> same_shape (cached_ops ops) c c' \<and>
      cached_sector sector c' = cached_sector sector c"
    if "dev_read (cached_ops ops) c l buf = (r, buf', c')" for r buf' c'
    using cached_read_keeps [OF inv, of l buf r buf' c'] that by (simp add: same_shape_cached)
  show "length buf = SECTOR_SIZE \<and> l < dev_sector_count (cached_ops ops) c \<and> buf' = cached_sector sector c l"
    if "dev_read (cached_ops ops) c l buf = (Inr u, buf', c')" for u buf' c'
    using cached_read_keeps [OF inv, of l buf "Inr u" buf' c'] that by simp
  show "buf' = buf" if "dev_read (cached_ops ops) c l buf = (Inl e, buf', c')" for e buf' c'
    using cached_read_keeps [OF inv, of l buf "Inl e" buf' c'] that by simp
  show "cache_inv ops inv sector c' \<and> same_shape (cached_ops ops) c c' \<and>
      (\<forall>k. k \<noteq> l \<longrightarrow> cached_sector sector c' k = cached_sector sector c k)"
    if "dev_write (cached_ops ops) c l buf = (r, c')" for r c'
    using cached_write_keeps [OF inv, of l buf r c'] that
    by (cases "r = Inr ()"; cases "entries c = []") (auto simp: same_shape_cached)
  show "length buf = SECTOR_SIZE \<and> l < dev_sector_count (cached_ops ops) c \<and> cached_sector sector c' l = buf"
    if "dev_write (cached_ops ops) c l buf = (Inr u, c')" for u c'
    using cached_write_keeps [OF inv, of l buf "Inr u" c'] that by simp
  show "cache_inv ops inv sector c' \<and> same_shape (cached_ops ops) c c' \<and>
      cached_sector sector c' = cached_sector sector c"
    if "dev_flush (cached_ops ops) c = (r, c')" for r c'
    using cached_flush_keeps [OF inv, of r c'] that by (simp add: same_shape_cached)
qed

interpretation ram_cache: cached ramdisk_ops ramdisk_inv ramdisk_sector
  by unfold_locales

text \<open>The stack the kernel mounts: a cache over a partition view of a disk.\<close>

interpretation ram_part_cache: cached "partition_ops ramdisk_ops" "view_inv ramdisk_ops ramdisk_inv"
  "view_sector ramdisk_sector"
  by unfold_locales

section \<open>The probe device of the self tests\<close>

record Probe =
  disk :: RamDisk
  reads :: nat
  writes :: nat
  flushes :: nat
  fail_read :: bool
  fail_write :: bool
  fail_flush :: bool

definition probe_new :: Probe where
  "probe_new = \<lparr>disk = ramdisk_new 4, reads = 0, writes = 0, flushes = 0,
     fail_read = False, fail_write = False, fail_flush = False\<rparr>"

definition probe_read_sector :: "Probe \<Rightarrow> u64 \<Rightarrow> bytes \<Rightarrow> (block_error + unit) \<times> bytes \<times> Probe" where
  "probe_read_sector p l out =
     (let p = p\<lparr>reads := reads p + 1\<rparr> in
      if fail_read p then (Inl DeviceFault, out, p)
      else let (r, out', d') = ramdisk_read_sector (disk p) l out in (r, out', p\<lparr>disk := d'\<rparr>))"

definition probe_write_sector :: "Probe \<Rightarrow> u64 \<Rightarrow> bytes \<Rightarrow> (block_error + unit) \<times> Probe" where
  "probe_write_sector p l dat =
     (let p = p\<lparr>writes := writes p + 1\<rparr> in
      if fail_write p then (Inl DeviceFault, p)
      else let (r, d') = ramdisk_write_sector (disk p) l dat in (r, p\<lparr>disk := d'\<rparr>))"

definition probe_flush :: "Probe \<Rightarrow> (block_error + unit) \<times> Probe" where
  "probe_flush p =
     (let p = p\<lparr>flushes := flushes p + 1\<rparr> in
      if fail_flush p then (Inl DeviceFault, p) else (Inr (), p))"

definition probe_ops :: "Probe BlockDevice" where
  "probe_ops =
     \<lparr>dev_sector_count = (\<lambda>p. ramdisk_sector_count (disk p)),
      dev_is_read_only = (\<lambda>p. ramdisk_is_read_only (disk p)),
      dev_flush = probe_flush, dev_read = probe_read_sector, dev_write = probe_write_sector\<rparr>"

definition probe_inv :: "Probe \<Rightarrow> bool" where
  "probe_inv p = ramdisk_inv (disk p)"

definition probe_sector :: "Probe \<Rightarrow> u64 \<Rightarrow> bytes" where
  "probe_sector p = ramdisk_sector (disk p)"

lemma probe_ops_simps [simp]:
  "dev_sector_count probe_ops p = ramdisk_sector_count (disk p)"
  "dev_is_read_only probe_ops p = ramdisk_is_read_only (disk p)"
  "dev_flush probe_ops = probe_flush"
  "dev_read probe_ops = probe_read_sector"
  "dev_write probe_ops = probe_write_sector"
  by (simp_all add: probe_ops_def)

interpretation probe: block_device probe_ops probe_inv probe_sector
proof unfold_locales
  fix p :: Probe assume "probe_inv p"
  then have inv: "ramdisk_inv (disk p)" by (simp add: probe_inv_def)
  have shape: "same_shape probe_ops p p' \<longleftrightarrow> same_shape ramdisk_ops (disk p) (disk p')" for p'
    by (simp add: same_shape_def)
  note rd = probe_read_sector_def Let_def probe_inv_def probe_sector_def shape
  note wr = probe_write_sector_def Let_def probe_inv_def probe_sector_def shape
  show "length (probe_sector p l) = SECTOR_SIZE" if "l < dev_sector_count probe_ops p" for l
    using ram.sector_size [OF inv, of l] that by (simp add: probe_sector_def)
  fix l buf
  show "probe_inv p' \<and> same_shape probe_ops p p' \<and> probe_sector p' = probe_sector p"
    if "dev_read probe_ops p l buf = (r, buf', p')" for r buf' p'
    using that inv ram.read_keeps [OF inv] by (auto simp: rd split: if_splits prod.splits)
  show "length buf = SECTOR_SIZE \<and> l < dev_sector_count probe_ops p \<and> buf' = probe_sector p l"
    if "dev_read probe_ops p l buf = (Inr u, buf', p')" for u buf' p'
    using that ram.read_ok [OF inv] by (auto simp: rd split: if_splits prod.splits)
  show "buf' = buf" if "dev_read probe_ops p l buf = (Inl e, buf', p')" for e buf' p'
    using that ram.read_err [OF inv] by (auto simp: rd split: if_splits prod.splits)
  show "probe_inv p' \<and> same_shape probe_ops p p' \<and> (\<forall>k. k \<noteq> l \<longrightarrow> probe_sector p' k = probe_sector p k)"
    if "dev_write probe_ops p l buf = (r, p')" for r p'
    using that inv ram.write_keeps [OF inv] by (auto simp: wr split: if_splits prod.splits)
  show "length buf = SECTOR_SIZE \<and> l < dev_sector_count probe_ops p \<and> probe_sector p' l = buf"
    if "dev_write probe_ops p l buf = (Inr u, p')" for u p'
    using that ram.write_ok [OF inv] by (auto simp: wr split: if_splits prod.splits)
  show "probe_inv p' \<and> same_shape probe_ops p p' \<and> probe_sector p' = probe_sector p"
    if "dev_flush probe_ops p = (r, p')" for r p'
    using that inv by (auto simp: probe_flush_def Let_def probe_inv_def probe_sector_def shape split: if_splits)
qed

interpretation probe_cache: cached probe_ops probe_inv probe_sector
  by unfold_locales

text \<open>The three self tests, with the device's results threaded as in the source.\<close>

definition reuse_and_eviction_test :: bool where
  "reuse_and_eviction_test \<longleftrightarrow>
     (let z = replicate SECTOR_SIZE 0; a = replicate SECTOR_SIZE 1; b = replicate SECTOR_SIZE 2;
          c = cached_new 2 probe_new;
          (r1, o1, c) = cached_read_sector probe_ops c 0 z;
          (r2, o2, c) = cached_read_sector probe_ops c 0 o1;
          reads1 = reads (inner c);
          (r3, c) = cached_write_sector probe_ops c 1 a;
          (r4, c) = cached_write_sector probe_ops c 1 b;
          reads2 = reads (inner c); writes2 = writes (inner c);
          (r5, o5, c) = cached_read_sector probe_ops c 1 o2;
          dirty5 = stat_dirty (cache_stats c);
          (r6, o6, c) = cached_read_sector probe_ops c 0 o5;
          (r7, o7, c) = cached_read_sector probe_ops c 2 o6;
          writes7 = writes (inner c); stats7 = cache_stats c;
          (r8, o8, d8) = ramdisk_read_sector (disk (inner c)) 1 o7;
          c = c\<lparr>inner := (inner c)\<lparr>disk := d8\<rparr>\<rparr>;
          (r9, c) = cached_flush probe_ops c;
          (r10, c) = cached_flush probe_ops c;
          writes10 = writes (inner c); flushes10 = flushes (inner c); dirty10 = stat_dirty (cache_stats c);
          (r11, o11, c) = cached_read_sector probe_ops c 0 o8
      in r1 = Inr () \<and> r2 = Inr () \<and> reads1 = 1 \<and> r3 = Inr () \<and> r4 = Inr () \<and> reads2 = 1 \<and>
         writes2 = 0 \<and> r5 = Inr () \<and> o5 = b \<and> dirty5 = 1 \<and> r6 = Inr () \<and> r7 = Inr () \<and> writes7 = 1 \<and>
         stat_writebacks stats7 = 1 \<and> stat_evictions stats7 = 1 \<and> stat_resident stats7 = 2 \<and>
         r8 = Inr () \<and> o8 = b \<and> r9 = Inr () \<and> r10 = Inr () \<and> writes10 = 1 \<and> flushes10 = 2 \<and>
         dirty10 = 0 \<and> r11 = Inr () \<and> reads (inner c) = 2 \<and> hits c = 5 \<and> misses c = 3)"

lemma reuse_and_eviction_test_passes: reuse_and_eviction_test
  by code_simp

definition set_faults :: "Probe CachedDevice \<Rightarrow> bool \<Rightarrow> bool \<Rightarrow> bool \<Rightarrow> Probe CachedDevice" where
  "set_faults c fr fw ff =
     c\<lparr>inner := (inner c)\<lparr>fail_read := fr, fail_write := fw, fail_flush := ff\<rparr>\<rparr>"

definition failure_recovery_test :: bool where
  "failure_recovery_test \<longleftrightarrow>
     (let dat = replicate SECTOR_SIZE 7; z = replicate SECTOR_SIZE 0; three = replicate SECTOR_SIZE 3;
          c = cached_new 1 probe_new;
          (r1, c) = cached_write_sector probe_ops c 0 dat;
          c = set_faults c False True False;
          (r2, c) = cached_flush probe_ops c;
          (r3, o3, c) = cached_read_sector probe_ops c 1 z;
          (r4, c) = cached_write_sector probe_ops c 1 (replicate SECTOR_SIZE 9);
          stats4 = cache_stats c;
          (r5, o5, c) = cached_read_sector probe_ops c 0 o3;
          c = set_faults c False False False;
          (r6, c) = cached_flush probe_ops c;
          dirty6 = stat_dirty (cache_stats c);
          (r7, o7, d7) = ramdisk_read_sector (disk (inner c)) 0 o5;
          c = c\<lparr>inner := (inner c)\<lparr>disk := d7\<rparr>\<rparr>;
          c = set_faults c True False False;
          (r8, o8, c) = cached_read_sector probe_ops c 1 three;
          (r9, o9, c) = cached_read_sector probe_ops c 0 o8;
          c = set_faults c False False True;
          (r10, c) = cached_flush probe_ops c;
          c = set_faults c False False False;
          (r11, c) = cached_flush probe_ops c;
          (r12, o12, c) = cached_read_sector probe_ops c 1 o9
      in r1 = Inr () \<and> r2 = Inl DeviceFault \<and> r3 = Inl DeviceFault \<and> r4 = Inl DeviceFault \<and>
         stat_dirty stats4 = 1 \<and> stat_evictions stats4 = 0 \<and> r5 = Inr () \<and> o5 = dat \<and>
         r6 = Inr () \<and> dirty6 = 0 \<and> r7 = Inr () \<and> o7 = dat \<and> r8 = Inl DeviceFault \<and> o8 = three \<and>
         r9 = Inr () \<and> o9 = dat \<and> r10 = Inl DeviceFault \<and> r11 = Inr () \<and> r12 = Inr () \<and> o12 = z)"

lemma failure_recovery_test_passes: failure_recovery_test
  by code_simp

definition validation_and_bypass_test :: bool where
  "validation_and_bypass_test \<longleftrightarrow>
     (let z = replicate SECTOR_SIZE 0; dat = replicate SECTOR_SIZE 8;
          c = cached_new 1 probe_new;
          (r1, o1, c) = cached_read_sector probe_ops c 4 z;
          (r2, c) = cached_write_sector probe_ops c 4 o1;
          (r3, o3, c) = cached_read_sector probe_ops c 0 (take 1 o1);
          (r4, c) = cached_write_sector probe_ops c 0 (take 1 o1);
          reads4 = reads (inner c); writes4 = writes (inner c);
          c = c\<lparr>inner := (inner c)\<lparr>disk := set_read_only (disk (inner c)) True\<rparr>\<rparr>;
          (r5, c) = cached_write_sector probe_ops c 0 o1;
          dirty5 = stat_dirty (cache_stats c);
          e = cached_new 0 probe_new;
          (r6, e) = cached_write_sector probe_ops e 2 dat;
          (r7, o7, e) = cached_read_sector probe_ops e 2 o1;
          writes7 = writes (inner e); reads7 = reads (inner e); resident7 = stat_resident (cache_stats e);
          (r8, e) = cached_flush probe_ops e
      in r1 = Inl OutOfBounds \<and> r2 = Inl OutOfBounds \<and> r3 = Inl InvalidBuffer \<and> r4 = Inl InvalidBuffer \<and>
         reads4 = 0 \<and> writes4 = 0 \<and> r5 = Inl ReadOnly \<and> dirty5 = 0 \<and>
         r6 = Inr () \<and> r7 = Inr () \<and> o7 = dat \<and> writes7 = 1 \<and> reads7 = 1 \<and> resident7 = 0 \<and>
         r8 = Inr () \<and> flushes (inner e) = 1)"

lemma validation_and_bypass_test_passes: validation_and_bypass_test
  by code_simp

definition cache_self_test :: bool where
  "cache_self_test \<longleftrightarrow>
     reuse_and_eviction_test \<and> failure_recovery_test \<and> validation_and_bypass_test"

end
