(* ===== verification/Cache_Properties.thy ===== *)
theory Cache_Properties
  imports Block_Cache
begin

text \<open>
  What a filesystem may rely on when it works through the sector cache: reads return the last
  acknowledged write whatever the disk below does, a successful flush makes every
  acknowledged write durable, and the sectors kept in memory are the most recently used ones.
\<close>

section \<open>Sequences of operations\<close>

datatype cache_op = CacheRead u64 | CacheWrite u64 bytes | CacheFlush

text \<open>A reply carries the sector that a read filled into the caller's buffer.\<close>

type_synonym cache_reply = "block_error + bytes"

fun cache_step :: "'d BlockDevice \<Rightarrow> 'd CachedDevice \<Rightarrow> cache_op \<Rightarrow> cache_reply \<times> 'd CachedDevice" where
  "cache_step ops c (CacheRead l) =
     (case cached_read_sector ops c l (replicate SECTOR_SIZE 0) of
        (Inl e, _, c') \<Rightarrow> (Inl e, c')
      | (Inr _, buf, c') \<Rightarrow> (Inr buf, c'))"
| "cache_step ops c (CacheWrite l buf) =
     (case cached_write_sector ops c l buf of
        (Inl e, c') \<Rightarrow> (Inl e, c')
      | (Inr _, c') \<Rightarrow> (Inr [], c'))"
| "cache_step ops c CacheFlush =
     (case cached_flush ops c of
        (Inl e, c') \<Rightarrow> (Inl e, c')
      | (Inr _, c') \<Rightarrow> (Inr [], c'))"

fun cache_run ::
  "'d BlockDevice \<Rightarrow> 'd CachedDevice \<Rightarrow> cache_op list \<Rightarrow> cache_reply list \<times> 'd CachedDevice" where
  "cache_run ops c [] = ([], c)"
| "cache_run ops c (x # xs) =
     (let (r, c') = cache_step ops c x; (rs, c'') = cache_run ops c' xs in (r # rs, c''))"

text \<open>
  The specification: an ideal disk, on which an acknowledged write takes effect at once and a
  failed operation has no effect.
\<close>

fun ideal_step :: "(u64 \<Rightarrow> bytes) \<Rightarrow> cache_op \<Rightarrow> cache_reply \<Rightarrow> (u64 \<Rightarrow> bytes)" where
  "ideal_step st (CacheWrite l buf) (Inr _) = st(l := buf)"
| "ideal_step st _ _ = st"

fun ideal_reply :: "(u64 \<Rightarrow> bytes) \<Rightarrow> cache_op \<Rightarrow> cache_reply \<Rightarrow> bool" where
  "ideal_reply st (CacheRead l) (Inr buf) \<longleftrightarrow> buf = st l"
| "ideal_reply st _ _ \<longleftrightarrow> True"

fun ideal_run :: "(u64 \<Rightarrow> bytes) \<Rightarrow> cache_op list \<Rightarrow> cache_reply list \<Rightarrow> (u64 \<Rightarrow> bytes)" where
  "ideal_run st (x # xs) (r # rs) = ideal_run (ideal_step st x r) xs rs"
| "ideal_run st _ _ = st"

fun ideal_replies :: "(u64 \<Rightarrow> bytes) \<Rightarrow> cache_op list \<Rightarrow> cache_reply list \<Rightarrow> bool" where
  "ideal_replies st (x # xs) (r # rs) \<longleftrightarrow> ideal_reply st x r \<and> ideal_replies (ideal_step st x r) xs rs"
| "ideal_replies st _ _ \<longleftrightarrow> True"

context cached
begin

lemma cache_step_ideal:
  assumes c: "cache_inv ops inv sector c" and ne: "entries c \<noteq> []" and st: "cache_step ops c x = (r, c')"
  shows "cache_inv ops inv sector c' \<and> length (entries c') = length (entries c) \<and>
    ideal_reply (cached_sector sector c) x r \<and>
    cached_sector sector c' = ideal_step (cached_sector sector c) x r"
proof (cases x)
  case (CacheRead l)
  obtain r1 b where rd: "cached_read_sector ops c l (replicate SECTOR_SIZE 0) = (r1, b, c')"
    and r: "r = (case r1 of Inl e \<Rightarrow> Inl e | Inr _ \<Rightarrow> Inr b)"
    using st CacheRead by (auto split: prod.splits sum.splits)
  from cached_read_keeps [OF c rd] r CacheRead ne show ?thesis by (cases r1) auto
next
  case (CacheWrite l b)
  obtain r1 where wr: "cached_write_sector ops c l b = (r1, c')"
    and r: "r = (case r1 of Inl e \<Rightarrow> Inl e | Inr _ \<Rightarrow> Inr [])"
    using st CacheWrite by (auto split: prod.splits sum.splits)
  from cached_write_keeps [OF c wr] r CacheWrite ne show ?thesis by (cases r1) auto
next
  case CacheFlush
  obtain r1 where fl: "cached_flush ops c = (r1, c')"
    and r: "r = (case r1 of Inl e \<Rightarrow> Inl e | Inr _ \<Rightarrow> Inr [])"
    using st CacheFlush by (auto split: prod.splits sum.splits)
  from cached_flush_keeps [OF c fl] r CacheFlush ne show ?thesis by (cases r1) auto
qed

lemma cache_run_ideal:
  assumes "cache_inv ops inv sector c" "entries c \<noteq> []" "cache_run ops c xs = (rs, c')"
  shows "cache_inv ops inv sector c' \<and> length (entries c') = length (entries c) \<and>
    ideal_replies (cached_sector sector c) xs rs \<and>
    cached_sector sector c' = ideal_run (cached_sector sector c) xs rs"
  using assms
proof (induction xs arbitrary: c rs)
  case Nil
  then show ?case by simp
next
  case (Cons x xs)
  obtain r c1 where s: "cache_step ops c x = (r, c1)" by force
  obtain rs' where run: "cache_run ops c1 xs = (rs', c')" "rs = r # rs'"
    using Cons.prems(3) s by (auto split: prod.splits)
  note c1 = cache_step_ideal [OF Cons.prems(1,2) s]
  then have "entries c1 \<noteq> []" using Cons.prems(2) by auto
  with c1 Cons.IH [of c1 rs'] run show ?case by simp
qed

end

text \<open>
  C3: Reads see the last acknowledged write. Over any disk that satisfies the block-device
  contract, whichever of its reads, writes and flushes fail, a cache of at least one entry
  answers every sequence of operations as an ideal disk does: each successful read returns
  the data of the last successful write to that sector, or the disk's original data, and an
  operation that reports an error changes nothing a later read can see.
\<close>

theorem cache_reads_last_write:
  assumes "block_device ops I sct" "I d" "0 < n" "cache_run ops (cached_new n d) xs = (rs, c)"
  shows "ideal_replies (sct d) xs rs \<and> cached_sector sct c = ideal_run (sct d) xs rs"
proof -
  have loc: "cached ops I sct" using assms(1) by (simp add: cached_def)
  have "entries (cached_new n d) \<noteq> []" using assms(3) by (simp add: cached_new_def)
  from cached.cache_run_ideal [OF loc cached.cached_new_inv(1) [OF loc assms(2)] this assms(4)]
  show ?thesis by (simp add: cached.cached_new_inv(2) [OF loc])
qed

text \<open>Instance: a device that refuses every write keeps the data readable from the cache.\<close>

theorem cache_reads_last_write_witness:
  "let xs = [CacheWrite 0 (replicate 512 7), CacheFlush, CacheWrite 1 (replicate 512 9), CacheRead 0];
       rs = [Inr [], Inl DeviceFault, Inl DeviceFault, Inr (replicate 512 7)]
   in fst (cache_run probe_ops (cached_new 1 (probe_new\<lparr>fail_write := True\<rparr>)) xs) = rs \<and>
      ideal_replies (probe_sector (probe_new\<lparr>fail_write := True\<rparr>)) xs rs"
proof -
  let ?d = "probe_new\<lparr>fail_write := True\<rparr>"
  let ?xs = "[CacheWrite 0 (replicate 512 7), CacheFlush, CacheWrite 1 (replicate 512 9), CacheRead 0]"
  have inv: "probe_inv ?d"
    by (simp add: probe_inv_def probe_new_def ramdisk_inv_new usize_limit_def)
  have run: "fst (cache_run probe_ops (cached_new 1 ?d) ?xs) =
      [Inr [], Inl DeviceFault, Inl DeviceFault, Inr (replicate 512 7)]"
    by code_simp
  then obtain c where c: "cache_run probe_ops (cached_new 1 ?d) ?xs =
      ([Inr [], Inl DeviceFault, Inl DeviceFault, Inr (replicate 512 7)], c)"
    by (metis prod.collapse)
  from cache_reads_last_write [OF probe.block_device_axioms inv zero_less_one c] run show ?thesis
    unfolding Let_def by blast
qed

text \<open>
  C4: Flushing makes writes durable. When a flush of the cache reports success, every sector
  of the disk below holds what an ideal disk would hold after the operations so far, and no
  entry is left dirty; when it reports an error, nothing is lost: the contents a client sees
  are the same and the flush can be repeated.
\<close>

theorem cache_flush_durable:
  assumes "block_device ops I sct" "I d" "0 < n" "cache_run ops (cached_new n d) xs = (rs, c)"
    and "cached_flush ops c = (r, c')"
  shows "(r = Inr () \<longrightarrow> sct (inner c') = ideal_run (sct d) xs rs \<and> stat_dirty (cache_stats c') = 0) \<and>
    cached_sector sct c' = ideal_run (sct d) xs rs"
proof -
  have loc: "cached ops I sct" using assms(1) by (simp add: cached_def)
  have "entries (cached_new n d) \<noteq> []" using assms(3) by (simp add: cached_new_def)
  from cached.cache_run_ideal [OF loc cached.cached_new_inv(1) [OF loc assms(2)] this assms(4)]
  have run: "cache_inv ops I sct c" "cached_sector sct c = ideal_run (sct d) xs rs"
    by (simp_all add: cached.cached_new_inv(2) [OF loc])
  from cached.cached_flush_keeps [OF loc run(1) assms(5)] run(2) show ?thesis
    by (auto simp: cache_stats_def filter_empty_conv)
qed

text \<open>Instance: one written sector reaches the RAM disk.\<close>

theorem cache_flush_durable_witness:
  "let xs = [CacheWrite 3 (replicate 512 5)];
       c = snd (cache_run ramdisk_ops (cached_new 2 (ramdisk_new 4)) xs);
       (r, c') = cached_flush ramdisk_ops c
   in r = Inr () \<and> ramdisk_sector (inner c') = (ramdisk_sector (ramdisk_new 4))(3 := replicate 512 5)"
proof -
  let ?xs = "[CacheWrite 3 (replicate 512 5)] :: cache_op list"
  let ?run = "cache_run ramdisk_ops (cached_new 2 (ramdisk_new 4)) ?xs"
  obtain rs c where c: "?run = (rs, c)" by force
  obtain r c' where f: "cached_flush ramdisk_ops c = (r, c')" by force
  have "fst ?run = [Inr []] \<and> fst (cached_flush ramdisk_ops (snd ?run)) = Inr ()" by code_simp
  with c f have rr: "rs = [Inr []]" "r = Inr ()" by auto
  from cache_flush_durable [OF ram.block_device_axioms _ _ c f] rr c f show ?thesis
    by (simp add: ramdisk_inv_new usize_limit_def del: cache_run.simps)
qed

section \<open>Replacement order\<close>

text \<open>
  \<open>lru es k is\<close>: the indices \<open>is\<close> of the valid entries in order of increasing age, none older
  than \<open>k\<close> touches.
\<close>

definition lru :: "CacheEntry list \<Rightarrow> nat \<Rightarrow> nat list \<Rightarrow> bool" where
  "lru es k is \<longleftrightarrow> distinct is \<and> set is = {i. i < length es \<and> valid (es ! i)} \<and>
     sorted_wrt (\<lambda>i j. age (es ! i) < age (es ! j)) is \<and> (\<forall>i\<in>set is. unat (age (es ! i)) \<le> k)"

definition lru_lbas :: "CacheEntry list \<Rightarrow> nat list \<Rightarrow> u64 list" where
  "lru_lbas es is = map (\<lambda>i. lba (es ! i)) is"

lemma lru_cong:
  assumes "lru es k is" "length es' = length es"
    "\<And>i. i < length es \<Longrightarrow> valid (es' ! i) = valid (es ! i) \<and> age (es' ! i) = age (es ! i)"
  shows "lru es' k is"
proof -
  have "i < length es" if "i \<in> set is" for i using assms(1) that by (auto simp: lru_def)
  then have "sorted_wrt (\<lambda>i j. age (es' ! i) < age (es' ! j)) is"
    using assms(1,3) unfolding lru_def by (metis (mono_tags, lifting) sorted_wrt_mono_rel)
  moreover have "{i. i < length es' \<and> valid (es' ! i)} = {i. i < length es \<and> valid (es ! i)}"
    using assms(2,3) by auto
  moreover have "unat (age (es' ! i)) \<le> k" if "i \<in> set is" for i
    using assms(1,3) that by (simp add: lru_def)
  ultimately show ?thesis using assms(1) by (simp add: lru_def)
qed

lemma touch_nth:
  assumes "i < length (entries c)" "j < length (entries c)" "valid (entries c ! i)"
  shows "entries (touch c i) ! j = (if j = i then (entries c ! i)\<lparr>age := 0\<rparr>
    else if valid (entries c ! j) then (entries c ! j)\<lparr>age := saturating_add (age (entries c ! j)) 1\<rparr>
    else entries c ! j)"
  using assms by (simp add: touch_def Let_def nth_list_update)

lemma length_touch [simp]: "length (entries (touch c i)) = length (entries c)"
  by (simp add: touch_def Let_def)

lemma saturating_succ:
  fixes a b :: u64
  assumes "unat a < 2 ^ 64 - 1" "unat b < 2 ^ 64 - 1"
  shows "unat (saturating_add a 1) = unat a + 1" "0 < saturating_add a 1"
    "a < b \<Longrightarrow> saturating_add a 1 < saturating_add b 1"
  using assms by (simp_all add: unat_saturating_add word_less_nat_alt)

text \<open>Using an entry moves it to the front of the order.\<close>

lemma lru_touch:
  assumes l: "lru es k is" and k: "k < 2 ^ 64 - 1" and i: "i < length es"
    and c: "entries c = es[i := e]" "valid e"
  shows "lru (entries (touch c i)) (Suc k) (i # removeAll i is)"
proof -
  let ?es = "entries (touch c i)"
  have len: "length (entries c) = length es" using c by simp
  have at_i: "?es ! i = e\<lparr>age := 0\<rparr>" using touch_nth [of i c i] i c by simp
  have at_j: "valid (?es ! j) = valid (es ! j)"
    "valid (es ! j) \<Longrightarrow> age (?es ! j) = saturating_add (age (es ! j)) 1" if "j < length es" "j \<noteq> i" for j
    using touch_nth [of i c j] that i c by auto
  have el: "j < length es" "valid (es ! j)" "unat (age (es ! j)) \<le> k" "unat (age (es ! j)) < 2 ^ 64 - 1"
    if "j \<in> set is" for j
  proof -
    show "j < length es" "valid (es ! j)" and *: "unat (age (es ! j)) \<le> k"
      using l that by (auto simp: lru_def)
    from * k show "unat (age (es ! j)) < 2 ^ 64 - 1" by (rule le_less_trans)
  qed
  have "valid (?es ! j) \<longleftrightarrow> j = i \<or> valid (es ! j)" if "j < length es" for j
    using at_j(1) [OF that] at_i c(2) by (cases "j = i") auto
  then have "set (i # removeAll i is) = {j. j < length ?es \<and> valid (?es ! j)}"
    using l i len by (auto simp: lru_def)
  moreover have "sorted_wrt (\<lambda>a b. age (?es ! a) < age (?es ! b)) (removeAll i is)"
  proof -
    have "sorted_wrt (\<lambda>a b. age (es ! a) < age (es ! b)) (removeAll i is)"
      using l by (auto simp: lru_def removeAll_filter_not_eq intro: sorted_wrt_filter)
    moreover have "age (?es ! a) < age (?es ! b)"
      if "a \<in> set (removeAll i is)" "b \<in> set (removeAll i is)" "age (es ! a) < age (es ! b)" for a b
      using that at_j(2) [of a] at_j(2) [of b] el [of a] el [of b]
        saturating_succ(3) [of "age (es ! a)" "age (es ! b)"] by simp
    ultimately show ?thesis by (rule sorted_wrt_mono_rel [rotated])
  qed
  moreover have j: "age (?es ! i) < age (?es ! j) \<and> unat (age (?es ! j)) \<le> Suc k" if "j \<in> set (removeAll i is)" for j
    using that at_i at_j(2) [of j] el [of j] saturating_succ(1,2) [of "age (es ! j)" "age (es ! j)"] by simp
  ultimately have "sorted_wrt (\<lambda>a b. age (?es ! a) < age (?es ! b)) (i # removeAll i is)"
    "set (i # removeAll i is) = {j. j < length ?es \<and> valid (?es ! j)}" by simp_all
  moreover have "\<forall>a\<in>set (i # removeAll i is). unat (age (?es ! a)) \<le> Suc k"
  proof
    fix a assume "a \<in> set (i # removeAll i is)"
    then show "unat (age (?es ! a)) \<le> Suc k" using j [of a] at_i by (cases "a = i") auto
  qed
  moreover have "distinct (i # removeAll i is)" using l by (simp add: lru_def distinct_removeAll)
  ultimately show ?thesis unfolding lru_def by blast
qed

lemma lru_bound:
  assumes "lru es k is"
  shows "length is \<le> length es" and "length is = length es \<longleftrightarrow> (\<forall>i<length es. valid (es ! i))"
proof -
  from assms have d: "distinct is" "set is = {i. i < length es \<and> valid (es ! i)}" by (auto simp: lru_def)
  then have card: "length is = card {i. i < length es \<and> valid (es ! i)}" by (metis distinct_card)
  have sub: "{i. i < length es \<and> valid (es ! i)} \<subseteq> {..<length es}" by auto
  with card show "length is \<le> length es" by (metis card_lessThan card_mono finite_lessThan)
  show "length is = length es \<longleftrightarrow> (\<forall>i<length es. valid (es ! i))"
  proof
    assume "length is = length es"
    with card sub card_subset_eq [OF finite_lessThan sub]
    have "{i. i < length es \<and> valid (es ! i)} = {..<length es}" by simp
    then show "\<forall>i<length es. valid (es ! i)" by auto
  next
    assume "\<forall>i<length es. valid (es ! i)"
    then have "{i. i < length es \<and> valid (es ! i)} = {..<length es}" by auto
    with card show "length is = length es" by simp
  qed
qed

lemma lru_last:
  assumes l: "lru es k is" and all: "\<forall>j<length es. valid (es ! j)" and i: "i < length es"
    and oldest: "\<forall>j<length es. age (es ! j) \<le> age (es ! i)"
  shows "is \<noteq> []" and "last is = i"
proof -
  from l have "set is = {j. j < length es \<and> valid (es ! j)}" by (simp add: lru_def)
  with all have set: "j \<in> set is \<longleftrightarrow> j < length es" for j by auto
  with i have "i \<in> set is" by simp
  then show ne: "is \<noteq> []" by (cases "is") simp_all
  then obtain xs x where x: "is = xs @ [x]" by (metis append_butlast_last_id)
  have "x < length es" using set [of x] x by simp
  have "i \<notin> set xs"
  proof
    assume "i \<in> set xs"
    moreover have "sorted_wrt (\<lambda>a b. age (es ! a) < age (es ! b)) (xs @ [x])" using l x by (simp add: lru_def)
    ultimately have "age (es ! i) < age (es ! x)" by (simp add: sorted_wrt_append)
    moreover have "age (es ! x) \<le> age (es ! i)" using oldest \<open>x < length es\<close> by simp
    ultimately show False by simp
  qed
  with \<open>i \<in> set is\<close> x show "last is = i" by simp
qed

lemma removeAll_last:
  assumes "distinct xs" "xs \<noteq> []"
  shows "removeAll (last xs) xs = butlast xs"
proof -
  obtain ys y where "xs = ys @ [y]" using assms(2) by (metis append_butlast_last_id)
  with assms(1) show ?thesis by simp
qed

text \<open>
  One access: the sector moves to the front, and when the cache is full the least recently
  used one leaves.
\<close>

lemma lru_access:
  assumes l: "lru es k is" and k: "k < 2 ^ 64 - 1" and i: "i < length es" and u: "unique_lbas es"
    and c: "entries c = es[i := e]" "valid e" "lba e = l"
    and slot: "valid (es ! i) \<and> lba (es ! i) = l \<or>
      (\<forall>j<length es. valid (es ! j) \<longrightarrow> lba (es ! j) \<noteq> l) \<and>
      (\<not> valid (es ! i) \<or> (\<forall>j<length es. valid (es ! j)) \<and> (\<forall>j<length es. age (es ! j) \<le> age (es ! i)))"
  shows "\<exists>is'. lru (entries (touch c i)) (Suc k) is' \<and>
    lru_lbas (entries (touch c i)) is' = take (length es) (l # removeAll l (lru_lbas es is))"
proof (intro exI conjI)
  let ?es = "entries (touch c i)"
  let ?is = "i # removeAll i is"
  show new: "lru ?es (Suc k) ?is" by (rule lru_touch [OF l k i c(1,2)])
  have mem: "j < length es" "valid (es ! j)" if "j \<in> set is" for j using l that by (auto simp: lru_def)
  have "lba (?es ! j) = lba (es ! j)" if "j \<in> set is" "j \<noteq> i" for j
    using touch_nth [of i c j] mem [OF that(1)] that(2) i c by auto
  moreover have "lba (?es ! i) = l" using touch_nth [of i c i] i c by simp
  ultimately have lbas: "lru_lbas ?es ?is = l # lru_lbas es (removeAll i is)"
    by (simp add: lru_lbas_def removeAll_filter_not_eq)
  have len: "length ?is \<le> length es" using lru_bound(1) [OF new] c(1) by simp
  from slot consider (hit) "valid (es ! i)" "lba (es ! i) = l"
    | (free) "\<forall>j<length es. valid (es ! j) \<longrightarrow> lba (es ! j) \<noteq> l" "\<not> valid (es ! i)"
    | (full) "\<forall>j<length es. valid (es ! j) \<longrightarrow> lba (es ! j) \<noteq> l" "\<forall>j<length es. valid (es ! j)"
        "\<forall>j<length es. age (es ! j) \<le> age (es ! i)" by blast
  then show "lru_lbas ?es ?is = take (length es) (l # removeAll l (lru_lbas es is))"
  proof cases
    case hit
    have "l \<noteq> lba (es ! j) \<longleftrightarrow> i \<noteq> j" if "j \<in> set is" for j
      using u hit i mem [OF that] by (auto simp: unique_lbas_def)
    then have "filter (\<lambda>j. l \<noteq> lba (es ! j)) is = filter (\<lambda>j. i \<noteq> j) is" by (rule filter_cong [OF refl])
    then have "removeAll l (lru_lbas es is) = lru_lbas es (removeAll i is)"
      by (simp add: lru_lbas_def removeAll_filter_not_eq filter_map comp_def)
    with lbas len show ?thesis by (simp add: lru_lbas_def)
  next
    case free
    then have "i \<notin> set is" "l \<notin> set (lru_lbas es is)" using mem by (auto simp: lru_lbas_def)
    with lbas len show ?thesis by (simp add: lru_lbas_def)
  next
    case full
    note last = lru_last [OF l full(2) i full(3)]
    have "distinct is" using l by (simp add: lru_def)
    with last have rem: "removeAll i is = butlast is"
      by (metis removeAll_last)
    have "length is = length es" using lru_bound(2) [OF l] full(2) by simp
    moreover have "l \<notin> set (lru_lbas es is)" using full(1) mem by (auto simp: lru_lbas_def)
    ultimately show ?thesis using lbas rem last(1)
      by (cases "length es") (simp_all add: lru_lbas_def butlast_conv_take take_map)
  qed
qed

lemma lru_mono: "lru es k is \<Longrightarrow> k \<le> k' \<Longrightarrow> lru es k' is"
  unfolding lru_def by (meson order_trans)

text \<open>Entries that agree in address, validity and age are in the same order.\<close>

definition same_order :: "CacheEntry list \<Rightarrow> CacheEntry list \<Rightarrow> bool" where
  "same_order es es' \<longleftrightarrow> length es' = length es \<and>
     (\<forall>i<length es. lba (es' ! i) = lba (es ! i) \<and> valid (es' ! i) = valid (es ! i) \<and> age (es' ! i) = age (es ! i))"

lemma same_order_refl [simp]: "same_order es es"
  by (simp add: same_order_def)

lemma same_order_trans: "same_order a b \<Longrightarrow> same_order b c \<Longrightarrow> same_order a c"
  by (simp add: same_order_def)

lemma same_order_cleaned: "cleaned es i es' \<Longrightarrow> same_order es es'"
  by (simp add: same_order_def cleaned_nth)

lemma lru_same_order:
  assumes "lru es k is" "same_order es es'"
  shows "lru es' k is" and "lru_lbas es' is = lru_lbas es is"
proof -
  show "lru es' k is" by (rule lru_cong [OF assms(1)]) (use assms(2) in \<open>auto simp: same_order_def\<close>)
  show "lru_lbas es' is = lru_lbas es is"
    using assms by (auto simp: lru_lbas_def lru_def same_order_def)
qed

lemma victim_oldest:
  assumes "entries c \<noteq> []"
  shows "\<not> valid (entries c ! victim c) \<or> (\<forall>j<length (entries c). valid (entries c ! j)) \<and>
    (\<forall>j<length (entries c). age (entries c ! j) \<le> age (entries c ! victim c))"
proof (cases "position (\<lambda>e. \<not> valid e) (entries c)")
  case None
  moreover obtain i where i: "max_index age (entries c) = Some i"
    using assms max_index_None [of age "entries c"] by (cases "max_index age (entries c)") auto
  ultimately have "victim c = i" by (simp add: victim_def del: position_None)
  with max_index_Some [OF i] None show ?thesis by auto
next
  case (Some i)
  then show ?thesis using position_SomeD(2) [OF Some] by (simp add: victim_def)
qed

context cached
begin

text \<open>The slot an access ends in, for a hit and, after the write-back, for a miss.\<close>

lemma hit_lru:
  assumes c: "cache_inv ops inv sector c" and l: "lru (entries c) k is" "k < 2 ^ 64 - 1"
    and find: "cache_find c l = Some i" and e: "valid e" "lba e = l"
    and c': "entries c' = (entries c)[i := e]"
  shows "\<exists>is'. lru (entries (touch c' i)) (Suc k) is' \<and>
    lru_lbas (entries (touch c' i)) is' = take (length (entries c)) (l # removeAll l (lru_lbas (entries c) is))"
proof -
  from c have u: "unique_lbas (entries c)" by (simp add: cache_inv_def)
  from find have i: "i < length (entries c)" "valid (entries c ! i) \<and> lba (entries c ! i) = l"
    by (simp_all add: cache_find_Some [OF u])
  show ?thesis by (rule lru_access [OF l i(1) u c' e]) (use i in blast)
qed

lemma miss_lru:
  assumes c: "cache_inv ops inv sector c" and ne: "entries c \<noteq> []"
    and l: "lru (entries c) k is" "k < 2 ^ 64 - 1"
    and find: "cache_find c l = None" and e: "valid e" "lba e = l"
    and wb: "write_back ops (c\<lparr>misses := m\<rparr>) (victim (c\<lparr>misses := m\<rparr>)) = (r, c1)"
    and c': "entries c' = (entries c1)[victim (c\<lparr>misses := m\<rparr>) := e]"
  shows "\<exists>is'. lru (entries (touch c' (victim (c\<lparr>misses := m\<rparr>)))) (Suc k) is' \<and>
    lru_lbas (entries (touch c' (victim (c\<lparr>misses := m\<rparr>)))) is' =
      take (length (entries c)) (l # removeAll l (lru_lbas (entries c) is))"
proof -
  let ?m = "c\<lparr>misses := m\<rparr>" and ?v = "victim (c\<lparr>misses := m\<rparr>)"
  have v: "?v < length (entries ?m)" using victim_bound [of ?m] ne by simp
  have "cache_inv ops inv sector ?m" by (rule same_cache_inv [OF same_cache_counters(2) c])
  from write_back_keeps [OF this v wb] have c1: "cache_inv ops inv sector c1" "same_order (entries c) (entries c1)"
    using same_order_cleaned [of "entries ?m" ?v "entries c1"] by simp_all
  have u: "unique_lbas (entries c1)" using c1(1) by (simp add: cache_inv_def)
  have len: "length (entries c1) = length (entries c)" using c1(2) by (simp add: same_order_def)
  have same: "valid (entries c1 ! j) = valid (entries c ! j)" "lba (entries c1 ! j) = lba (entries c ! j)"
    "age (entries c1 ! j) = age (entries c ! j)" if "j < length (entries c)" for j
    using c1(2) that by (simp_all add: same_order_def)
  have "\<forall>j<length (entries c1). valid (entries c1 ! j) \<longrightarrow> lba (entries c1 ! j) \<noteq> l"
    using find len same by (simp add: cache_find_None)
  moreover have "\<not> valid (entries c1 ! ?v) \<or> (\<forall>j<length (entries c1). valid (entries c1 ! j)) \<and>
      (\<forall>j<length (entries c1). age (entries c1 ! j) \<le> age (entries c1 ! ?v))"
    using victim_oldest [of ?m] ne same v len by simp
  moreover note lru_access [OF lru_same_order(1) [OF l(1) c1(2)] l(2) _ u c' e] lru_same_order(2) [OF l(1) c1(2)]
  ultimately show ?thesis using v len by simp
qed

lemma load_lru:
  assumes c: "cache_inv ops inv sector c" and ne: "entries c \<noteq> []" and l: "lru (entries c) k is" "k < 2 ^ 64 - 1"
    and ld: "load ops c l = (Inr i, c')"
  shows "\<exists>is'. lru (entries c') (Suc k) is' \<and>
    lru_lbas (entries c') is' = take (length (entries c)) (l # removeAll l (lru_lbas (entries c) is))"
proof (cases "cache_find c l")
  case (Some j)
  from c have u: "unique_lbas (entries c)" by (simp add: cache_inv_def)
  from Some have j: "valid (entries c ! j)" "lba (entries c ! j) = l" by (simp_all add: cache_find_Some [OF u])
  from ld Some have "c' = touch (c\<lparr>hits := saturating_add (hits c) 1\<rparr>) j" by (auto simp: load_def)
  with hit_lru [OF c l Some j, of "c\<lparr>hits := saturating_add (hits c) 1\<rparr>"] show ?thesis by simp
next
  case None
  let ?m = "c\<lparr>misses := saturating_add (misses c) 1\<rparr>" and ?v = "victim (c\<lparr>misses := saturating_add (misses c) 1\<rparr>)"
  obtain c1 where wb: "write_back ops ?m ?v = (Inr (), c1)"
    using ld None by (auto simp: load_def Let_def split: prod.splits sum.splits)
  obtain dat d2 where rd: "dev_read ops (inner c1) l (replicate SECTOR_SIZE 0) = (Inr (), dat, d2)"
    using ld None wb by (auto simp: load_def Let_def split: prod.splits sum.splits)
  let ?e = "\<lparr>lba = l, data = dat, valid = True, dirty = False, age = 0\<rparr>"
  let ?c3 = "count_eviction (c1\<lparr>inner := d2\<rparr>) ?v\<lparr>entries := (entries c1)[?v := ?e]\<rparr>"
  from ld None wb rd have "c' = touch ?c3 ?v" by (auto simp: load_def Let_def)
  with miss_lru [OF c ne l None _ _ wb, of ?e ?c3] show ?thesis by simp
qed

lemma write_lru:
  assumes c: "cache_inv ops inv sector c" and ne: "entries c \<noteq> []" and l: "lru (entries c) k is" "k < 2 ^ 64 - 1"
    and wr: "cached_write_sector ops c l buf = (Inr u, c')"
  shows "\<exists>is'. lru (entries c') (Suc k) is' \<and>
    lru_lbas (entries c') is' = take (length (entries c)) (l # removeAll l (lru_lbas (entries c) is))"
proof -
  obtain i c2 where ws: "write_slot ops c l = (Inr i, c2)"
    and c': "c' = touch (c2\<lparr>entries := (entries c2)[i := (entries c2 ! i)\<lparr>data := buf, dirty := True\<rparr>]\<rparr>) i"
    using wr ne by (auto simp: cached_write_sector_def split: if_splits prod.splits sum.splits)
  show ?thesis
  proof (cases "cache_find c l")
    case (Some j)
    from c have u: "unique_lbas (entries c)" by (simp add: cache_inv_def)
    from Some have j: "valid (entries c ! j)" "lba (entries c ! j) = l" by (simp_all add: cache_find_Some [OF u])
    from ws Some have "i = j" "entries c2 = entries c" by (auto simp: write_slot_def)
    with hit_lru [OF c l Some, of "(entries c ! j)\<lparr>data := buf, dirty := True\<rparr>"
        "c2\<lparr>entries := (entries c2)[i := (entries c2 ! i)\<lparr>data := buf, dirty := True\<rparr>]\<rparr>"] j c'
    show ?thesis by simp
  next
    case None
    let ?m = "c\<lparr>misses := saturating_add (misses c) 1\<rparr>" and ?v = "victim (c\<lparr>misses := saturating_add (misses c) 1\<rparr>)"
    obtain c1 where wb: "write_back ops ?m ?v = (Inr (), c1)"
      using ws None by (auto simp: write_slot_def Let_def split: prod.splits sum.splits)
    let ?z = "\<lparr>lba = l, data = replicate SECTOR_SIZE 0, valid = True, dirty = False, age = 0\<rparr>"
    from ws None wb have c2: "i = ?v" "entries c2 = (entries c1)[?v := ?z]"
      by (auto simp: write_slot_def Let_def)
    have v: "?v < length (entries c1)" using evict_keeps(6) [OF c ne None wb] .
    let ?f = "?z\<lparr>data := buf, dirty := True\<rparr>"
    let ?c3 = "c2\<lparr>entries := (entries c2)[i := (entries c2 ! i)\<lparr>data := buf, dirty := True\<rparr>]\<rparr>"
    have "entries ?c3 = (entries c1)[?v := ?f]" using c2 v by simp
    with miss_lru [OF c ne l None _ _ wb, of ?f ?c3] c' c2(1) show ?thesis by simp
  qed
qed

text \<open>A failed access and a flush leave the order alone.\<close>

lemma write_back_order:
  assumes "cache_inv ops inv sector c" "i < length (entries c)" "write_back ops c i = (r, c')"
  shows "same_order (entries c) (entries c')"
  using write_back_keeps [OF assms] same_order_cleaned by blast

lemma load_err_order:
  assumes c: "cache_inv ops inv sector c" and ne: "entries c \<noteq> []" and ld: "load ops c l = (Inl e, c')"
  shows "same_order (entries c) (entries c')"
proof -
  let ?m = "c\<lparr>misses := saturating_add (misses c) 1\<rparr>" and ?v = "victim (c\<lparr>misses := saturating_add (misses c) 1\<rparr>)"
  obtain r1 c1 where wb: "write_back ops ?m ?v = (r1, c1)" by force
  have "entries c' = entries c1"
    using ld wb by (auto simp: load_def Let_def split: prod.splits sum.splits option.splits)
  moreover have "cache_inv ops inv sector ?m" by (rule same_cache_inv [OF same_cache_counters(2) c])
  moreover have "?v < length (entries ?m)" using victim_bound [of ?m] ne by simp
  ultimately show ?thesis using write_back_order [OF _ _ wb] by simp
qed

lemma write_err_order:
  assumes c: "cache_inv ops inv sector c" and ne: "entries c \<noteq> []"
    and wr: "cached_write_sector ops c l buf = (Inl e, c')"
  shows "same_order (entries c) (entries c')"
proof (cases "c' = c")
  case False
  let ?m = "c\<lparr>misses := saturating_add (misses c) 1\<rparr>" and ?v = "victim (c\<lparr>misses := saturating_add (misses c) 1\<rparr>)"
  obtain r1 c1 where wb: "write_back ops ?m ?v = (r1, c1)" by force
  have "c' = c1"
    using wr wb ne False
    by (auto simp: cached_write_sector_def write_slot_def Let_def split: if_splits prod.splits sum.splits option.splits)
  moreover have "cache_inv ops inv sector ?m" by (rule same_cache_inv [OF same_cache_counters(2) c])
  moreover have "?v < length (entries ?m)" using victim_bound [of ?m] ne by simp
  ultimately show ?thesis using write_back_order [OF _ _ wb] by simp
qed simp

lemma flush_loop_order:
  assumes "cache_inv ops inv sector c" "\<forall>i\<in>set is. i < length (entries c)" "flush_loop ops c is = (r, c')"
  shows "same_order (entries c) (entries c')"
  using assms
proof (induction "is" arbitrary: c)
  case Nil
  then show ?case by simp
next
  case (Cons i rest)
  obtain r1 c1 where wb: "write_back ops c i = (r1, c1)" by force
  have i: "i < length (entries c)" using Cons.prems by simp
  note o1 = write_back_order [OF Cons.prems(1) i wb]
  show ?case
  proof (cases r1)
    case (Inl e)
    with Cons.prems wb o1 show ?thesis by simp
  next
    case (Inr u)
    have "same_order (entries c1) (entries c')"
    proof (rule Cons.IH)
      show "cache_inv ops inv sector c1" using write_back_keeps [OF Cons.prems(1) i wb] by simp
      show "\<forall>i\<in>set rest. i < length (entries c1)" using Cons.prems(2) o1 by (simp add: same_order_def)
      show "flush_loop ops c1 rest = (r, c')" using Cons.prems(3) wb Inr by simp
    qed
    with o1 show ?thesis by (rule same_order_trans)
  qed
qed

lemma flush_order:
  assumes "cache_inv ops inv sector c" "cached_flush ops c = (r, c')"
  shows "same_order (entries c) (entries c')"
proof -
  obtain r1 c1 where lp: "flush_loop ops c [0..<length (entries c)] = (r1, c1)" by force
  have "same_order (entries c) (entries c1)" using flush_loop_order [OF assms(1) _ lp] by simp
  moreover have "entries c' = entries c1"
    using assms(2) lp by (auto simp: cached_flush_def split: prod.splits sum.splits)
  ultimately show ?thesis by simp
qed

end

text \<open>The sectors used by a sequence of operations: those of its successful reads and writes.\<close>

fun used_by :: "cache_op \<Rightarrow> cache_reply \<Rightarrow> u64 list" where
  "used_by (CacheRead l) (Inr _) = [l]"
| "used_by (CacheWrite l _) (Inr _) = [l]"
| "used_by _ _ = []"

fun sectors_used :: "cache_op list \<Rightarrow> cache_reply list \<Rightarrow> u64 list" where
  "sectors_used (x # xs) (r # rs) = used_by x r @ sectors_used xs rs"
| "sectors_used _ _ = []"

text \<open>The ideal replacement order: a list of at most \<open>n\<close> sectors, the last used first.\<close>

definition lru_use :: "nat \<Rightarrow> u64 list \<Rightarrow> u64 \<Rightarrow> u64 list" where
  "lru_use n r l = take n (l # removeAll l r)"

context cached
begin

lemma step_lru:
  assumes c: "cache_inv ops inv sector c" and ne: "entries c \<noteq> []" and l: "lru (entries c) k is" "k < 2 ^ 64 - 1"
    and st: "cache_step ops c x = (r, c')"
  shows "\<exists>is'. lru (entries c') (Suc k) is' \<and>
    lru_lbas (entries c') is' = foldl (lru_use (length (entries c))) (lru_lbas (entries c) is) (used_by x r)"
proof -
  have keep: ?thesis if "same_order (entries c) (entries c')" "used_by x r = []"
    using lru_same_order [OF l(1) that(1)] lru_mono [of "entries c'" k "is" "Suc k"] that(2) by auto
  show ?thesis
  proof (cases x)
    case (CacheRead a)
    obtain r1 b where rd: "cached_read_sector ops c a (replicate SECTOR_SIZE 0) = (r1, b, c')"
      and r: "r = (case r1 of Inl e \<Rightarrow> Inl e | Inr _ \<Rightarrow> Inr b)"
      using st CacheRead by (auto split: prod.splits sum.splits)
    show ?thesis
    proof (cases r1)
      case (Inl e)
      have "same_order (entries c) (entries c')"
        using rd Inl ne load_err_order [OF c ne, of a]
        by (auto simp: cached_read_sector_def split: if_splits prod.splits sum.splits)
      with keep CacheRead r Inl show ?thesis by simp
    next
      case (Inr u)
      obtain i where "load ops c a = (Inr i, c')"
        using rd Inr ne by (auto simp: cached_read_sector_def split: if_splits prod.splits sum.splits)
      from load_lru [OF c ne l this] CacheRead r Inr show ?thesis by (simp add: lru_use_def)
    qed
  next
    case (CacheWrite a b)
    obtain r1 where wr: "cached_write_sector ops c a b = (r1, c')"
      and r: "r = (case r1 of Inl e \<Rightarrow> Inl e | Inr _ \<Rightarrow> Inr [])"
      using st CacheWrite by (auto split: prod.splits sum.splits)
    show ?thesis
    proof (cases r1)
      case (Inl e)
      with keep CacheWrite r wr write_err_order [OF c ne] show ?thesis by simp
    next
      case (Inr u)
      with write_lru [OF c ne l] wr CacheWrite r show ?thesis by (simp add: lru_use_def)
    qed
  next
    case CacheFlush
    obtain r1 where "cached_flush ops c = (r1, c')"
      using st CacheFlush by (auto split: prod.splits sum.splits)
    from flush_order [OF c this] keep CacheFlush show ?thesis by simp
  qed
qed

lemma run_lru:
  assumes "cache_inv ops inv sector c" "entries c \<noteq> []" "lru (entries c) k is" "k + length xs < 2 ^ 64"
    "cache_run ops c xs = (rs, c')"
  shows "\<exists>k' is'. lru (entries c') k' is' \<and>
    lru_lbas (entries c') is' = foldl (lru_use (length (entries c))) (lru_lbas (entries c) is) (sectors_used xs rs)"
  using assms
proof (induction xs arbitrary: c k "is" rs)
  case Nil
  then show ?case by auto
next
  case (Cons x xs)
  obtain r c1 where s: "cache_step ops c x = (r, c1)" by force
  obtain rs' where run: "cache_run ops c1 xs = (rs', c')" "rs = r # rs'"
    using Cons.prems(5) s by (auto split: prod.splits)
  have k: "k < 2 ^ 64 - 1" "Suc k + length xs < 2 ^ 64" using Cons.prems(4) by simp_all
  obtain is1 where is1: "lru (entries c1) (Suc k) is1"
    "lru_lbas (entries c1) is1 = foldl (lru_use (length (entries c))) (lru_lbas (entries c) is) (used_by x r)"
    using step_lru [OF Cons.prems(1,2,3) k(1) s] by blast
  note c1 = cache_step_ideal [OF Cons.prems(1,2) s]
  then have "entries c1 \<noteq> []" using Cons.prems(2) by auto
  with Cons.IH [OF _ _ is1(1) k(2) run(1)] c1 is1(2) run(2) show ?case by simp
qed

end

lemma remdups_snoc: "remdups (xs @ [x]) = removeAll x (remdups xs) @ [x]"
  by (induction xs) auto

lemma take_use:
  assumes "distinct r" "0 < n"
  shows "take n (l # removeAll l (take n r)) = take n (l # removeAll l r)"
proof -
  obtain m where n: "n = Suc m" using assms(2) by (cases n) auto
  have "take m (removeAll l (take (Suc m) r)) = take m (removeAll l r)"
    using assms(1)
  proof (induction r arbitrary: m)
    case Nil
    then show ?case by simp
  next
    case (Cons a r)
    show ?case
    proof (cases m)
      case 0
      then show ?thesis by simp
    next
      case (Suc m')
      show ?thesis
      proof (cases "a = l")
        case True
        with Cons.prems have "l \<notin> set r" "l \<notin> set (take m r)" by (auto dest: in_set_takeD)
        with True show ?thesis by simp
      next
        case False
        with Suc Cons.IH [of m'] Cons.prems show ?thesis by simp
      qed
    qed
  qed
  with n show ?thesis by simp
qed

text \<open>The ideal order lists the distinct sectors used, the most recent first, cut at \<open>n\<close>.\<close>

lemma lru_use_recent:
  assumes "0 < n"
  shows "foldl (lru_use n) [] us = take n (rev (remdups us))"
proof (induction us rule: rev_induct)
  case Nil
  then show ?case by simp
next
  case (snoc l us)
  have "rev (removeAll l (remdups us)) = removeAll l (rev (remdups us))"
    by (simp add: removeAll_filter_not_eq rev_filter)
  with snoc show ?case
    using take_use [of "rev (remdups us)" n l] assms by (simp add: lru_use_def remdups_snoc del: take_Suc_Cons)
qed

text \<open>
  C8: Least-recently-used replacement. After any sequence of operations on a fresh cache of
  \<open>n\<close> entries, over any disk that satisfies the block-device contract and whichever operations
  fail, the sectors in the cache are exactly the \<open>n\<close> most recently used ones, where a use is a
  successful read or write. (Fewer than \<open>2 ^ 64\<close> operations, so that no age saturates.)
\<close>

theorem cache_keeps_recent:
  assumes "block_device ops I sct" "I d" "0 < n" "cache_run ops (cached_new n d) xs = (rs, c)"
    and "length xs < 2 ^ 64"
  shows "{lba e | e. e \<in> set (entries c) \<and> valid e} = set (take n (rev (remdups (sectors_used xs rs))))"
proof -
  have loc: "cached ops I sct" using assms(1) by (simp add: cached_def)
  let ?c = "cached_new n d"
  have ne: "entries ?c \<noteq> []" and len: "length (entries ?c) = n" using assms(3) by (simp_all add: cached_new_def)
  have l0: "lru (entries ?c) 0 []" by (auto simp: lru_def cached_new_def cache_entry_empty_def)
  obtain k js where l: "lru (entries c) k js"
    and eq: "lru_lbas (entries c) js = foldl (lru_use n) [] (sectors_used xs rs)"
    using cached.run_lru [OF loc cached.cached_new_inv(1) [OF loc assms(2)] ne l0 _ assms(4)] assms(5) len
    by (auto simp: lru_lbas_def)
  have "{lba e | e. e \<in> set (entries c) \<and> valid e} = set (lru_lbas (entries c) js)"
    using l by (auto simp: lru_lbas_def lru_def in_set_conv_nth)
  with eq lru_use_recent [OF assms(3)] show ?thesis by simp
qed

text \<open>Instance: two entries; sector 1 is the one evicted.\<close>

theorem cache_keeps_recent_witness:
  "let xs = [CacheRead 0, CacheRead 1, CacheRead 0, CacheRead 2];
       c = snd (cache_run ramdisk_ops (cached_new 2 (ramdisk_new 4)) xs)
   in {lba e | e. e \<in> set (entries c) \<and> valid e} = {0, 2}"
proof -
  let ?xs = "[CacheRead 0, CacheRead 1, CacheRead 0, CacheRead 2]"
  let ?run = "cache_run ramdisk_ops (cached_new 2 (ramdisk_new 4)) ?xs"
  obtain rs c where c: "?run = (rs, c)" by force
  have "sectors_used ?xs (fst ?run) = [0, 1, 0, 2]" by code_simp
  with c have us: "sectors_used ?xs rs = [0, 1, 0, 2]" by simp
  have inv: "ramdisk_inv (ramdisk_new 4)" by (simp add: ramdisk_inv_new usize_limit_def)
  from cache_keeps_recent [OF ram.block_device_axioms inv _ c] us
  have "{lba e | e. e \<in> set (entries c) \<and> valid e} = set (take 2 (rev (remdups [0, 1, 0, 2 :: u64])))"
    by simp
  with c show ?thesis by (auto simp: numeral_2_eq_2)
qed

end
