(* ===== verification/Elf.thy ===== *)
theory Elf
  imports WH_Prelude
begin

text \<open>
  The ELF loader's parser (\<open>kernel/src/elf.rs\<close>). An accepted image has only segments that are
  safe to map: inside the file, below the user address limit, never writable and executable
  at once, on pairwise disjoint pages, with the entry point in executable memory.
\<close>

section \<open>Model\<close>

definition MAX_LOAD_SEGMENTS :: nat where
  "MAX_LOAD_SEGMENTS = 8"

definition ELF_HEADER_SIZE :: nat where
  "ELF_HEADER_SIZE = 64"

definition PROGRAM_HEADER_SIZE :: nat where
  "PROGRAM_HEADER_SIZE = 56"

definition PT_LOAD :: u32 where
  "PT_LOAD = 1"

definition PF_EXECUTE :: u32 where
  "PF_EXECUTE = 1"

definition PF_WRITE :: u32 where
  "PF_WRITE = 2"

definition ELF_MACHINE_X86_64 :: u16 where
  "ELF_MACHINE_X86_64 = 0x3e"

definition USER_ADDRESS_LIMIT :: u64 where
  "USER_ADDRESS_LIMIT = 0x0000800000000000"

definition PAGE_SIZE :: u64 where
  "PAGE_SIZE = 4096"

record LoadSegment =
  file_offset :: nat
  file_size :: nat
  virtual_address :: u64
  memory_size :: nat
  mapping_start :: u64
  mapping_size :: nat
  writable :: bool
  executable :: bool

record Image =
  entry :: u64
  segments :: "LoadSegment option list"
  segment_count :: nat

datatype elf_error =
    Truncated | InvalidHeader | Unsupported | InvalidSegment | OverlappingSegments | InvalidEntry
  | TooManySegments

definition image_segments :: "Image \<Rightarrow> LoadSegment list" where
  "image_segments img = List.map_filter (\<lambda>s. s) (take (segment_count img) (segments img))"

definition elf_read_u16 :: "bytes \<Rightarrow> nat \<Rightarrow> elf_error + u16" where
  "elf_read_u16 bs offset =
     (if offset + 2 \<le> length bs then Inr (from_le_bytes (slice bs offset 2)) else Inl Truncated)"

definition elf_read_u32 :: "bytes \<Rightarrow> nat \<Rightarrow> elf_error + u32" where
  "elf_read_u32 bs offset =
     (if offset + 4 \<le> length bs then Inr (from_le_bytes (slice bs offset 4)) else Inl Truncated)"

definition elf_read_u64 :: "bytes \<Rightarrow> nat \<Rightarrow> elf_error + u64" where
  "elf_read_u64 bs offset =
     (if offset + 8 \<le> length bs then Inr (from_le_bytes (slice bs offset 8)) else Inl Truncated)"

definition elf_align_down :: "u64 \<Rightarrow> u64" where
  "elf_align_down value = and value (not (PAGE_SIZE - 1))"

definition elf_align_up :: "u64 \<Rightarrow> u64 option" where
  "elf_align_up value = map_option elf_align_down (checked_add value (PAGE_SIZE - 1))"

text \<open>The check against the segments accepted so far.\<close>

definition overlaps :: "LoadSegment list \<Rightarrow> u64 \<Rightarrow> u64 \<Rightarrow> bool" where
  "overlaps existing start fin \<longleftrightarrow>
     list_ex (\<lambda>s. start < mapping_start s + word_of_nat (mapping_size s) \<and> mapping_start s < fin) existing"

text \<open>The checks on the fields of one \<open>PT_LOAD\<close> header, and its entry into the image.\<close>

definition accept_segment ::
  "bytes \<Rightarrow> Image \<Rightarrow> bool \<Rightarrow> u32 \<Rightarrow> u64 \<Rightarrow> u64 \<Rightarrow> u64 \<Rightarrow> u64 \<Rightarrow> u64 \<Rightarrow> elf_error + Image \<times> bool" where
  "accept_segment bs img entry_is_executable flags foff va fsize msize alignment =
     (let w = (and flags PF_WRITE \<noteq> 0); x = (and flags PF_EXECUTE \<noteq> 0) in
      if unat msize = 0 \<or> unat fsize > unat msize \<or> w \<and> x \<or> alignment = 0 \<or>
         \<not> is_power_of_two alignment \<or> va mod alignment \<noteq> foff mod alignment
      then Inl InvalidSegment
      else case checked_add_usize (unat foff) (unat fsize) of
        None \<Rightarrow> Inl Truncated
      | Some file_end \<Rightarrow> if \<not> file_end \<le> length bs then Inl Truncated
      else case checked_add va msize of
        None \<Rightarrow> Inl InvalidSegment
      | Some memory_end \<Rightarrow> if \<not> memory_end < USER_ADDRESS_LIMIT then Inl InvalidSegment
      else let mstart = elf_align_down va in
      case elf_align_up memory_end of
        None \<Rightarrow> Inl InvalidSegment
      | Some mend \<Rightarrow>
          (let msz = unat (mend - mstart) in
           if overlaps (image_segments img) mstart mend then Inl OverlappingSegments
           else
             Inr (img\<lparr>segments := (segments img)[segment_count img := Some
                    \<lparr>file_offset = unat foff, file_size = unat fsize, virtual_address = va,
                     memory_size = unat msize, mapping_start = mstart, mapping_size = msz,
                     writable = w, executable = x\<rparr>],
                    segment_count := segment_count img + 1\<rparr>,
                  entry_is_executable \<or> x \<and> va \<le> entry img \<and> entry img < memory_end)))"

text \<open>Reading one header; \<open>usize::try_from\<close> never fails on a 64-bit target.\<close>

definition parse_segment :: "bytes \<Rightarrow> Image \<Rightarrow> bool \<Rightarrow> nat \<Rightarrow> elf_error + Image \<times> bool" where
  "parse_segment bs img exec offset =
     bindE (elf_read_u32 bs (offset + 4)) (\<lambda>flags.
     bindE (elf_read_u64 bs (offset + 8)) (\<lambda>foff.
     bindE (elf_read_u64 bs (offset + 16)) (\<lambda>va.
     bindE (elf_read_u64 bs (offset + 32)) (\<lambda>fsize.
     bindE (elf_read_u64 bs (offset + 40)) (\<lambda>msize.
     bindE (elf_read_u64 bs (offset + 48)) (\<lambda>alignment.
       accept_segment bs img exec flags foff va fsize msize alignment))))))"

fun parse_loop :: "bytes \<Rightarrow> nat \<Rightarrow> nat \<Rightarrow> nat list \<Rightarrow> Image \<Rightarrow> bool \<Rightarrow> elf_error + Image \<times> bool" where
  "parse_loop bs program_offset entry_size [] img exec = Inr (img, exec)"
| "parse_loop bs program_offset entry_size (index # rest) img exec =
     (let offset = program_offset + index * entry_size in
      bindE (elf_read_u32 bs offset) (\<lambda>ty.
        if ty \<noteq> PT_LOAD then parse_loop bs program_offset entry_size rest img exec
        else if segment_count img = MAX_LOAD_SEGMENTS then Inl TooManySegments
        else bindE (parse_segment bs img exec offset) (\<lambda>(img', exec').
          parse_loop bs program_offset entry_size rest img' exec')))"

text \<open>The identification and header fields, tested in the order of the source.\<close>

definition header_ok :: "bytes \<Rightarrow> elf_error + bool" where
  "header_ok bs =
     (if take 4 bs \<noteq> [0x7f, 0x45, 0x4c, 0x46] \<or> bs ! 4 \<noteq> 2 \<or> bs ! 5 \<noteq> 1 \<or> bs ! 6 \<noteq> 1 then Inr False
      else bindE (elf_read_u16 bs 16) (\<lambda>ty. if ty \<noteq> 2 then Inr False
      else bindE (elf_read_u16 bs 18) (\<lambda>machine. if machine \<noteq> ELF_MACHINE_X86_64 then Inr False
      else bindE (elf_read_u32 bs 20) (\<lambda>version. if version \<noteq> 1 then Inr False
      else bindE (elf_read_u16 bs 52) (\<lambda>size. Inr (unat size = ELF_HEADER_SIZE))))))"

definition parse :: "bytes \<Rightarrow> elf_error + Image" where
  "parse bs =
     (if length bs < ELF_HEADER_SIZE then Inl Truncated
      else bindE (header_ok bs) (\<lambda>ok.
      if \<not> ok then Inl InvalidHeader
      else bindE (elf_read_u64 bs 24) (\<lambda>ent.
      bindE (elf_read_u64 bs 32) (\<lambda>phoff.
      bindE (elf_read_u16 bs 54) (\<lambda>phentsize.
      bindE (elf_read_u16 bs 56) (\<lambda>phnum.
      let program_offset = unat phoff; entry_size = unat phentsize; count = unat phnum in
      if entry_size < PROGRAM_HEADER_SIZE \<or> count = 0 then Inl Unsupported
      else bindE (ok_or (checked_mul_usize entry_size count) Truncated) (\<lambda>table_size.
      if (case checked_add_usize program_offset table_size of Some fin \<Rightarrow> \<not> fin \<le> length bs | None \<Rightarrow> True)
      then Inl Truncated
      else bindE (parse_loop bs program_offset entry_size [0..<count]
             \<lparr>entry = ent, segments = replicate MAX_LOAD_SEGMENTS None, segment_count = 0\<rparr> False)
           (\<lambda>(img, exec).
              if segment_count img = 0 \<or> \<not> exec then Inl InvalidEntry else Inr img))))))))"

section \<open>Accepted segments\<close>

text \<open>The program header at an offset, decoded without any check.\<close>

definition elf_u32 :: "bytes \<Rightarrow> nat \<Rightarrow> u32" where
  "elf_u32 bs off = from_le_bytes (slice bs off 4)"

definition elf_u64 :: "bytes \<Rightarrow> nat \<Rightarrow> u64" where
  "elf_u64 bs off = from_le_bytes (slice bs off 8)"

definition decode_segment :: "bytes \<Rightarrow> nat \<Rightarrow> LoadSegment" where
  "decode_segment bs off =
     (let va = elf_u64 bs (off + 16); msize = elf_u64 bs (off + 40); mstart = elf_align_down va in
      \<lparr>file_offset = unat (elf_u64 bs (off + 8)), file_size = unat (elf_u64 bs (off + 32)),
       virtual_address = va, memory_size = unat msize, mapping_start = mstart,
       mapping_size = unat (elf_align_down (va + msize + (PAGE_SIZE - 1)) - mstart),
       writable = (and (elf_u32 bs (off + 4)) PF_WRITE \<noteq> 0),
       executable = (and (elf_u32 bs (off + 4)) PF_EXECUTE \<noteq> 0)\<rparr>)"

definition mapping_end :: "LoadSegment \<Rightarrow> nat" where
  "mapping_end s = unat (mapping_start s) + mapping_size s"

text \<open>A segment that is safe to map from a file of \<open>n\<close> bytes.\<close>

definition segment_ok :: "nat \<Rightarrow> LoadSegment \<Rightarrow> bool" where
  "segment_ok n s \<longleftrightarrow>
     0 < memory_size s \<and> file_size s \<le> memory_size s \<and> \<not> (writable s \<and> executable s) \<and>
     file_offset s + file_size s \<le> n \<and>
     4096 dvd unat (mapping_start s) \<and> 4096 dvd mapping_end s \<and>
     unat (mapping_start s) \<le> unat (virtual_address s) \<and>
     unat (virtual_address s) + memory_size s \<le> mapping_end s \<and>
     unat (virtual_address s) + memory_size s < unat USER_ADDRESS_LIMIT \<and>
     mapping_end s \<le> unat USER_ADDRESS_LIMIT"

definition mappings_disjoint :: "LoadSegment \<Rightarrow> LoadSegment \<Rightarrow> bool" where
  "mappings_disjoint s t \<longleftrightarrow>
     mapping_end s \<le> unat (mapping_start t) \<or> mapping_end t \<le> unat (mapping_start s)"

definition entry_in :: "u64 \<Rightarrow> LoadSegment \<Rightarrow> bool" where
  "entry_in e s \<longleftrightarrow> executable s \<and> unat (virtual_address s) \<le> unat e \<and>
     unat e < unat (virtual_address s) + memory_size s"

text \<open>The segments occupy the first slots of the array.\<close>

definition wf_image :: "Image \<Rightarrow> bool" where
  "wf_image img \<longleftrightarrow> length (segments img) = MAX_LOAD_SEGMENTS \<and> segment_count img \<le> MAX_LOAD_SEGMENTS \<and>
     (\<forall>i < segment_count img. segments img ! i \<noteq> None)"

lemma map_filter_all_Some:
  "(\<forall>x\<in>set xs. x \<noteq> None) \<Longrightarrow> length (List.map_filter (\<lambda>s. s) xs) = length xs"
  by (induction xs) (auto simp: List.map_filter_simps)

lemma length_image_segments:
  assumes "wf_image img"
  shows "length (image_segments img) = segment_count img"
proof -
  have "\<forall>x\<in>set (take (segment_count img) (segments img)). x \<noteq> None"
    using assms by (auto simp: wf_image_def in_set_conv_nth)
  from map_filter_all_Some [OF this] assms show ?thesis by (simp add: image_segments_def wf_image_def)
qed

lemma image_segments_push:
  fixes s :: LoadSegment
  assumes "wf_image img" "segment_count img < MAX_LOAD_SEGMENTS"
  defines "img' \<equiv> img\<lparr>segments := (segments img)[segment_count img := Some s], segment_count := segment_count img + 1\<rparr>"
  shows "wf_image img'" and "image_segments img' = image_segments img @ [s]"
proof -
  have len: "segment_count img < length (segments img)" using assms(1,2) by (simp add: wf_image_def)
  show "wf_image img'" using assms(1,2) by (auto simp: wf_image_def img'_def nth_list_update less_Suc_eq)
  show "image_segments img' = image_segments img @ [s]"
    using len by (simp add: image_segments_def img'_def take_Suc_conv_app_nth List.map_filter_def)
qed

lemma elf_align_down_page:
  "4096 dvd unat (elf_align_down v)" "unat (elf_align_down v) \<le> unat v" "unat v < unat (elf_align_down v) + 4096"
  using unat_align_down_bounds [of 12 v] by (simp_all add: elf_align_down_def PAGE_SIZE_def)

lemma elf_align_up_page:
  assumes "elf_align_up v = Some e"
  shows "4096 dvd unat e" "unat v \<le> unat e" "unat e < unat v + 4096" "e = elf_align_down (v + (PAGE_SIZE - 1))"
proof -
  from assms obtain w where w: "checked_add v (PAGE_SIZE - 1) = Some w" "e = elf_align_down w"
    by (auto simp: elf_align_up_def)
  from checked_add_Some [OF w(1)] have "unat w = unat v + 4095" by (simp add: PAGE_SIZE_def)
  with elf_align_down_page [of w] w(2) show "4096 dvd unat e" "unat v \<le> unat e" "unat e < unat v + 4096"
    by simp_all
  have "w = v + (PAGE_SIZE - 1)" using w(1) by (simp add: checked_add_def split: if_splits)
  with w(2) show "e = elf_align_down (v + (PAGE_SIZE - 1))" by simp
qed

lemma accept_segmentE:
  assumes "accept_segment bs img exec fl fo va fs ms al = Inr (img', exec')"
  obtains mend fin where
    "0 < unat ms" "unat fs \<le> unat ms" "\<not> (and fl PF_WRITE \<noteq> 0 \<and> and fl PF_EXECUTE \<noteq> 0)"
    "unat fo + unat fs \<le> length bs" "checked_add va ms = Some mend" "mend < USER_ADDRESS_LIMIT"
    "elf_align_up mend = Some fin" "\<not> overlaps (image_segments img) (elf_align_down va) fin"
    "img' = img\<lparr>segments := (segments img)[segment_count img := Some
        \<lparr>file_offset = unat fo, file_size = unat fs, virtual_address = va, memory_size = unat ms,
         mapping_start = elf_align_down va, mapping_size = unat (fin - elf_align_down va),
         writable = (and fl PF_WRITE \<noteq> 0), executable = (and fl PF_EXECUTE \<noteq> 0)\<rparr>],
        segment_count := segment_count img + 1\<rparr>"
    "exec' = (exec \<or> and fl PF_EXECUTE \<noteq> 0 \<and> va \<le> entry img \<and> entry img < mend)"
  using assms unfolding accept_segment_def Let_def
  by (auto simp: not_less split: if_splits option.splits)

lemma elf_read_Inr:
  "elf_read_u32 bs off = Inr a \<Longrightarrow> a = elf_u32 bs off"
  "elf_read_u64 bs off = Inr b \<Longrightarrow> b = elf_u64 bs off"
  by (auto simp: elf_read_u32_def elf_read_u64_def elf_u32_def elf_u64_def split: if_splits)

text \<open>What one accepted header contributes.\<close>

lemma parse_segment_ok:
  assumes ps: "parse_segment bs img exec off = Inr (img', exec')"
    and wf: "wf_image img" "segment_count img < MAX_LOAD_SEGMENTS"
    and old: "\<forall>s\<in>set (image_segments img). segment_ok (length bs) s"
  defines "s \<equiv> decode_segment bs off"
  shows "wf_image img'" "image_segments img' = image_segments img @ [s]" "entry img' = entry img"
    "segment_ok (length bs) s" "\<forall>t\<in>set (image_segments img). mappings_disjoint t s"
    "exec' \<longleftrightarrow> exec \<or> entry_in (entry img) s"
proof -
  let ?va = "elf_u64 bs (off + 16)" and ?ms = "elf_u64 bs (off + 40)" and ?fs = "elf_u64 bs (off + 32)"
    and ?fo = "elf_u64 bs (off + 8)" and ?al = "elf_u64 bs (off + 48)" and ?fl = "elf_u32 bs (off + 4)"
  from ps have "accept_segment bs img exec ?fl ?fo ?va ?fs ?ms ?al = Inr (img', exec')"
    unfolding parse_segment_def bindE_Inr by (auto dest!: elf_read_Inr)
  then obtain mend fin where
    g: "0 < unat ?ms" "unat ?fs \<le> unat ?ms" "\<not> (and ?fl PF_WRITE \<noteq> 0 \<and> and ?fl PF_EXECUTE \<noteq> 0)"
    and fe: "unat ?fo + unat ?fs \<le> length bs"
    and me: "checked_add ?va ?ms = Some mend" "mend < USER_ADDRESS_LIMIT"
    and fin: "elf_align_up mend = Some fin" "\<not> overlaps (image_segments img) (elf_align_down ?va) fin"
    and img': "img' = img\<lparr>segments := (segments img)[segment_count img := Some
                \<lparr>file_offset = unat ?fo, file_size = unat ?fs, virtual_address = ?va,
                 memory_size = unat ?ms, mapping_start = elf_align_down ?va,
                 mapping_size = unat (fin - elf_align_down ?va),
                 writable = (and ?fl PF_WRITE \<noteq> 0), executable = (and ?fl PF_EXECUTE \<noteq> 0)\<rparr>],
                segment_count := segment_count img + 1\<rparr>"
    and exec': "exec' = (exec \<or> and ?fl PF_EXECUTE \<noteq> 0 \<and> ?va \<le> entry img \<and> entry img < mend)"
    by (rule accept_segmentE)
  note page = elf_align_down_page [of ?va] and fp = elf_align_up_page [OF fin(1)]
  have um: "unat mend = unat ?va + unat ?ms" by (rule checked_add_Some [OF me(1)])
  have mend: "mend = ?va + ?ms" using me(1) by (simp add: checked_add_def split: if_splits)
  have ord: "unat (elf_align_down ?va) \<le> unat fin" using page(2) fp(2) um by linarith
  have size: "unat (fin - elf_align_down ?va) = unat fin - unat (elf_align_down ?va)"
    using ord by (simp add: unat_sub word_le_nat_alt)
  have s: "s = \<lparr>file_offset = unat ?fo, file_size = unat ?fs, virtual_address = ?va,
      memory_size = unat ?ms, mapping_start = elf_align_down ?va, mapping_size = unat (fin - elf_align_down ?va),
      writable = (and ?fl PF_WRITE \<noteq> 0), executable = (and ?fl PF_EXECUTE \<noteq> 0)\<rparr>"
    unfolding s_def decode_segment_def Let_def fp(4) mend by simp
  then have send: "mapping_end s = unat fin" using size ord by (simp add: mapping_end_def)
  show "wf_image img'" "image_segments img' = image_segments img @ [s]"
    using image_segments_push [OF wf, of s] unfolding img' s by simp_all
  show "entry img' = entry img" by (simp add: img')
  have lim: "unat mend < unat USER_ADDRESS_LIMIT" using me(2) by (simp add: word_less_nat_alt)
  have "unat fin \<le> unat USER_ADDRESS_LIMIT"
    using aligned_gap [of "unat USER_ADDRESS_LIMIT" "unat fin"] fp(1,3) lim
    by (cases "unat fin \<le> unat USER_ADDRESS_LIMIT") (auto simp: USER_ADDRESS_LIMIT_def)
  with g fe page fp um lim send show "segment_ok (length bs) s"
    by (simp add: segment_ok_def s)
  show "exec' \<longleftrightarrow> exec \<or> entry_in (entry img) s"
    using exec' um by (simp add: entry_in_def s word_le_nat_alt word_less_nat_alt)
  show "\<forall>t\<in>set (image_segments img). mappings_disjoint t s"
  proof
    fix t assume t: "t \<in> set (image_segments img)"
    then have "mapping_end t \<le> unat USER_ADDRESS_LIMIT" using old by (simp add: segment_ok_def)
    then have "unat (mapping_start t + word_of_nat (mapping_size t)) = mapping_end t"
      by (simp add: mapping_end_def USER_ADDRESS_LIMIT_def unat_word_ariths unat_of_nat)
    moreover have "\<not> (elf_align_down ?va < mapping_start t + word_of_nat (mapping_size t) \<and> mapping_start t < fin)"
      using fin(2) t by (auto simp: overlaps_def list_ex_iff)
    ultimately show "mappings_disjoint t s"
      using send by (auto simp: mappings_disjoint_def s word_less_nat_alt not_less)
  qed
qed

text \<open>The offsets of the \<open>PT_LOAD\<close> headers, in table order.\<close>

definition load_offsets :: "bytes \<Rightarrow> nat \<Rightarrow> nat \<Rightarrow> nat list \<Rightarrow> nat list" where
  "load_offsets bs po es is = filter (\<lambda>off. elf_u32 bs off = PT_LOAD) (map (\<lambda>i. po + i * es) is)"

lemma parse_loop_ok:
  assumes "parse_loop bs po es is img exec = Inr (img', exec')" "wf_image img"
    "\<forall>s\<in>set (image_segments img). segment_ok (length bs) s"
    "sorted_wrt mappings_disjoint (image_segments img)"
    "exec \<longleftrightarrow> (\<exists>s\<in>set (image_segments img). entry_in (entry img) s)"
  shows "wf_image img' \<and> entry img' = entry img \<and>
    image_segments img' = image_segments img @ map (decode_segment bs) (load_offsets bs po es is) \<and>
    (\<forall>s\<in>set (image_segments img'). segment_ok (length bs) s) \<and>
    sorted_wrt mappings_disjoint (image_segments img') \<and>
    (exec' \<longleftrightarrow> (\<exists>s\<in>set (image_segments img'). entry_in (entry img) s))"
  using assms
proof (induction "is" arbitrary: img exec)
  case Nil
  then show ?case by (auto simp: load_offsets_def)
next
  case (Cons i rest)
  let ?off = "po + i * es"
  obtain ty where ty: "elf_read_u32 bs ?off = Inr ty"
    using Cons.prems(1) by (auto simp: bindE_Inr Let_def)
  then have ty': "elf_u32 bs ?off = ty" using elf_read_Inr(1) by simp
  show ?case
  proof (cases "ty = PT_LOAD")
    case False
    with Cons.prems ty have "parse_loop bs po es rest img exec = Inr (img', exec')" by (simp add: Let_def)
    moreover have "load_offsets bs po es (i # rest) = load_offsets bs po es rest"
      using False ty' by (simp add: load_offsets_def)
    ultimately show ?thesis using Cons.IH [OF _ Cons.prems(2-5)] by metis
  next
    case True
    then obtain img1 exec1 where seg: "parse_segment bs img exec ?off = Inr (img1, exec1)"
      and lp: "parse_loop bs po es rest img1 exec1 = Inr (img', exec')"
      and ne: "segment_count img \<noteq> MAX_LOAD_SEGMENTS"
      using Cons.prems(1) ty by (auto simp: bindE_Inr Let_def split: if_splits)
    have room: "segment_count img < MAX_LOAD_SEGMENTS" using Cons.prems(2) ne by (simp add: wf_image_def)
    note p = parse_segment_ok [OF seg Cons.prems(2) room Cons.prems(3)]
    have ok1: "\<forall>s\<in>set (image_segments img1). segment_ok (length bs) s" using p(2,4) Cons.prems(3) by auto
    have dis1: "sorted_wrt mappings_disjoint (image_segments img1)"
      using p(2,5) Cons.prems(4) by (simp add: sorted_wrt_append)
    have exec1: "exec1 \<longleftrightarrow> (\<exists>s\<in>set (image_segments img1). entry_in (entry img1) s)"
      unfolding p(6) Cons.prems(5) p(2,3) by auto
    have off: "load_offsets bs po es (i # rest) = ?off # load_offsets bs po es rest"
      using True ty' by (simp add: load_offsets_def)
    from Cons.IH [OF lp p(1) ok1 dis1 exec1] show ?thesis
      unfolding off list.map append_assoc append_Cons append_Nil p(2,3) .
  qed
qed

text \<open>The fields of the file header that name the program header table.\<close>

definition elf_phoff :: "bytes \<Rightarrow> nat" where
  "elf_phoff bs = unat (elf_u64 bs 32)"

definition elf_phentsize :: "bytes \<Rightarrow> nat" where
  "elf_phentsize bs = unat (from_le_bytes (slice bs 54 2) :: u16)"

definition elf_phnum :: "bytes \<Rightarrow> nat" where
  "elf_phnum bs = unat (from_le_bytes (slice bs 56 2) :: u16)"

lemma parse_Inr:
  assumes "parse bs = Inr img"
  shows "\<exists>exec. parse_loop bs (elf_phoff bs) (elf_phentsize bs) [0..<elf_phnum bs]
      \<lparr>entry = elf_u64 bs 24, segments = replicate MAX_LOAD_SEGMENTS None, segment_count = 0\<rparr> False =
      Inr (img, exec) \<and> segment_count img \<noteq> 0 \<and> exec"
    and "elf_phoff bs + elf_phentsize bs * elf_phnum bs \<le> length bs"
proof -
  from assms have len: "64 \<le> length bs" by (auto simp: parse_def ELF_HEADER_SIZE_def split: if_splits)
  then have r: "elf_read_u64 bs 24 = Inr (elf_u64 bs 24)" "elf_read_u64 bs 32 = Inr (elf_u64 bs 32)"
    "elf_read_u16 bs 54 = Inr (from_le_bytes (slice bs 54 2))"
    "elf_read_u16 bs 56 = Inr (from_le_bytes (slice bs 56 2))"
    by (simp_all add: elf_read_u64_def elf_read_u16_def elf_u64_def)
  from assms show "\<exists>exec. parse_loop bs (elf_phoff bs) (elf_phentsize bs) [0..<elf_phnum bs]
      \<lparr>entry = elf_u64 bs 24, segments = replicate MAX_LOAD_SEGMENTS None, segment_count = 0\<rparr> False =
      Inr (img, exec) \<and> segment_count img \<noteq> 0 \<and> exec"
    by (auto simp: parse_def bindE_Inr r ok_or_Inr Let_def elf_phoff_def elf_phentsize_def elf_phnum_def
        split: if_splits prod.splits)
  from assms show "elf_phoff bs + elf_phentsize bs * elf_phnum bs \<le> length bs"
    by (auto simp: parse_def bindE_Inr r ok_or_Inr Let_def elf_phoff_def elf_phentsize_def elf_phnum_def
        split: if_splits prod.splits option.splits)
qed

lemma parse_image:
  assumes "parse bs = Inr img"
  shows "wf_image img" "entry img = elf_u64 bs 24" "segment_count img \<noteq> 0"
    "image_segments img =
      map (decode_segment bs) (load_offsets bs (elf_phoff bs) (elf_phentsize bs) [0..<elf_phnum bs])"
    "\<forall>s\<in>set (image_segments img). segment_ok (length bs) s"
    "sorted_wrt mappings_disjoint (image_segments img)"
    "\<exists>s\<in>set (image_segments img). entry_in (elf_u64 bs 24) s"
proof -
  let ?i = "\<lparr>entry = elf_u64 bs 24, segments = replicate MAX_LOAD_SEGMENTS None, segment_count = 0\<rparr>"
  obtain exec where lp: "parse_loop bs (elf_phoff bs) (elf_phentsize bs) [0..<elf_phnum bs] ?i False = Inr (img, exec)"
    and ok: "segment_count img \<noteq> 0" "exec"
    using parse_Inr(1) [OF assms] by blast
  have nil: "image_segments ?i = []" and wf: "wf_image ?i"
    by (simp_all add: wf_image_def image_segments_def List.map_filter_def)
  have ent: "entry ?i = elf_u64 bs 24" by simp
  have init: "\<forall>s\<in>set (image_segments ?i). segment_ok (length bs) s" "sorted_wrt mappings_disjoint (image_segments ?i)"
    "False \<longleftrightarrow> (\<exists>s\<in>set (image_segments ?i). entry_in (entry ?i) s)" by (simp_all add: nil)
  note r = parse_loop_ok [OF lp wf init, unfolded nil append_Nil ent]
  from r ok show "wf_image img" "entry img = elf_u64 bs 24" "segment_count img \<noteq> 0"
    "image_segments img =
      map (decode_segment bs) (load_offsets bs (elf_phoff bs) (elf_phentsize bs) [0..<elf_phnum bs])"
    "\<forall>s\<in>set (image_segments img). segment_ok (length bs) s"
    "sorted_wrt mappings_disjoint (image_segments img)"
    "\<exists>s\<in>set (image_segments img). entry_in (elf_u64 bs 24) s" by blast+
qed

text \<open>A two-segment executable: code at \<open>0x401000\<close> and data at \<open>0x403000\<close>.\<close>

definition test_elf :: bytes where
  "test_elf =
     [0x7f, 0x45, 0x4c, 0x46, 2, 1, 1, 0] @ replicate 8 0 @ le_bytes 2 2 @ le_bytes 2 62 @ le_bytes 4 1 @
     [0x10, 0x10, 0x40, 0, 0, 0, 0, 0] @ le_bytes 8 64 @ replicate 8 0 @ replicate 4 0 @ le_bytes 2 64 @
     le_bytes 2 56 @ le_bytes 2 2 @ replicate 6 0 @
     [1, 0, 0, 0, 5, 0, 0, 0, 176, 0, 0, 0, 0, 0, 0, 0, 0, 0x10, 0x40, 0, 0, 0, 0, 0] @ replicate 8 0 @
     [32, 0, 0, 0, 0, 0, 0, 0, 32, 0, 0, 0, 0, 0, 0, 0, 16, 0, 0, 0, 0, 0, 0, 0] @
     [1, 0, 0, 0, 6, 0, 0, 0, 176, 0, 0, 0, 0, 0, 0, 0, 0, 0x30, 0x40, 0, 0, 0, 0, 0] @ replicate 8 0 @
     [8, 0, 0, 0, 0, 0, 0, 0, 64, 0, 0, 0, 0, 0, 0, 0, 16, 0, 0, 0, 0, 0, 0, 0] @ replicate 32 0x90"

lemma test_elf_parses: "case parse test_elf of Inl _ \<Rightarrow> False | Inr img \<Rightarrow> length (image_segments img) = 2"
  by code_simp

text \<open>
  C6: Safety of accepted executables. When the parser accepts a file, it has between one and
  eight segments; each has a non-empty memory image that covers its file part, its file part
  lies inside the file, it is never both writable and executable, and its page mapping covers
  it and ends at or below the user address limit; no two mappings share a page; and the
  entry point lies inside an executable segment.
\<close>

theorem elf_parse_safe:
  assumes "parse bs = Inr img"
  shows "1 \<le> length (image_segments img) \<and> length (image_segments img) \<le> MAX_LOAD_SEGMENTS \<and>
    (\<forall>s\<in>set (image_segments img). segment_ok (length bs) s) \<and>
    (\<forall>i j. i < j \<longrightarrow> j < length (image_segments img) \<longrightarrow>
       mappings_disjoint (image_segments img ! i) (image_segments img ! j)) \<and>
    (\<exists>s\<in>set (image_segments img). entry_in (entry img) s)"
proof -
  have "length (image_segments img) = segment_count img" "segment_count img \<le> MAX_LOAD_SEGMENTS"
    using length_image_segments parse_image(1) [OF assms] by (simp_all add: wf_image_def)
  moreover have "\<forall>i j. i < j \<longrightarrow> j < length (image_segments img) \<longrightarrow>
      mappings_disjoint (image_segments img ! i) (image_segments img ! j)"
    using parse_image(6) [OF assms] unfolding sorted_wrt_iff_nth_less by blast
  ultimately show ?thesis using parse_image(2,3,5,7) [OF assms] by simp
qed

text \<open>Instance: the two-segment executable.\<close>

theorem elf_parse_safe_witness:
  "\<exists>img. parse test_elf = Inr img \<and> (\<exists>s\<in>set (image_segments img). entry_in (entry img) s)"
proof -
  obtain img where img: "parse test_elf = Inr img" using test_elf_parses by (cases "parse test_elf") auto
  from elf_parse_safe [OF img] img show ?thesis by blast
qed

text \<open>
  C7: The segments of an accepted file are exactly its \<open>PT_LOAD\<close> program headers, in table
  order, each decoded from its own fields, and the whole table lies inside the file.
\<close>

theorem elf_parse_exact:
  assumes "parse bs = Inr img"
  shows "image_segments img =
      map (decode_segment bs) (load_offsets bs (elf_phoff bs) (elf_phentsize bs) [0..<elf_phnum bs]) \<and>
    entry img = elf_u64 bs 24 \<and> elf_phoff bs + elf_phentsize bs * elf_phnum bs \<le> length bs"
  using parse_image(2,4) [OF assms] parse_Inr(2) [OF assms] by blast

text \<open>Instance: both headers of the two-segment executable are \<open>PT_LOAD\<close>.\<close>

theorem elf_parse_exact_witness:
  "\<exists>img. parse test_elf = Inr img \<and> image_segments img = map (decode_segment test_elf) [64, 120]"
proof -
  obtain img where img: "parse test_elf = Inr img" using test_elf_parses by (cases "parse test_elf") auto
  have "load_offsets test_elf (elf_phoff test_elf) (elf_phentsize test_elf) [0..<elf_phnum test_elf] = [64, 120]"
    by code_simp
  with elf_parse_exact [OF img] img show ?thesis by simp
qed

end
