(* ===== verification/Spec2Isabelle.thy ===== *)
theory Spec2Isabelle
  imports Vfs_Properties Page_Cache Block_Io Swap Pipe Keyboard Gpt Heap Capability Audit_Log Ipc Cache_Properties Frame_Memory Elf
begin

text \<open>
  Verification of the WovenHat kernel, the Rust sources under \<open>src/kernel/src\<close>.

  \<^bold>\<open>The program.\<close> WovenHat is a small multitasking kernel. Its storage stack is, from the bottom up,
  the sector devices (\<open>ata.rs\<close>, \<open>block.rs\<close>), the queue through which tasks reach the disk
  (\<open>block_io.rs\<close>), the write-back sector cache (\<open>block_cache.rs\<close>), the partition tables
  (\<open>partition.rs\<close>, \<open>gpt.rs\<close>), the FAT32 driver (\<open>fat32.rs\<close>, \<open>storage.rs\<close>), the page cache of disk
  files (\<open>page_cache.rs\<close>), the frames that shared mappings of a file have in common
  (\<open>file_frames.rs\<close>) and the virtual file system (\<open>vfs.rs\<close>). Memory is handed out by the
  frame allocator (\<open>memory.rs\<close>), shared copy-on-write (\<open>paging.rs\<close>), written to swap (\<open>swap.rs\<close>)
  and, for the kernel itself, cut from a heap (\<open>heap.rs\<close>). Tasks (\<open>task.rs\<close>) load executables
  (\<open>elf.rs\<close>), resolve paths, hold capabilities (\<open>capability.rs\<close>), talk through messages (\<open>ipc.rs\<close>) and
  pipes (\<open>pipe.rs\<close>), read the keyboard (\<open>keyboard.rs\<close>) and leave traces in the audit log (\<open>audit.rs\<close>).

  \<^bold>\<open>How the code is written in HOL.\<close> \<open>WH_Prelude\<close> fixes the vocabulary: \<open>u8\<close> to \<open>u64\<close> are words of
  their width, \<open>usize\<close> is \<open>nat\<close> with its checks written out, arrays and slices are lists, a struct is
  a record, an enum a datatype, \<open>Result\<close> a sum whose left side is the error, \<open>&mut self\<close> a state
  that is passed on. Code that reads and changes a state and may return early is written with the
  operations \<open>bindS\<close>, \<open>thenS\<close>, \<open>guardS\<close> of the prelude: an early return keeps what was changed before
  it. A buffer argument \<open>&mut [u8]\<close> is returned along with the result. Statics behind a lock are
  fields of the state; the places where other tasks run between two locked sections are explicit, as
  steps of an \<open>inductive\<close> history relation or as a list of state changes made while a call is blocked.

  \<^bold>\<open>Interfaces.\<close> Four locales carry the contracts that components rely on.
  \<^item> \<open>Bounded_Fifo.bounded_fifo\<close>: a queue that accepts while there is room and delivers in order;
    interpreted on the endpoints of \<open>Ipc\<close>, the byte rings of \<open>Pipe\<close> and the scancode ring of \<open>Keyboard\<close>.
  \<^item> \<open>Slot_Table.slot_table\<close>: an array of optional records searched by key; interpreted on the
    endpoint table, the live blocks of \<open>Heap\<close> and the request table of \<open>Block_Io\<close>.
  \<^item> \<open>Block.block_device\<close>: what the trait \<open>BlockDevice\<close> promises, with every operation allowed to fail;
    interpreted on the RAM disk and on the test device, and given by \<open>sublocale\<close> for a partition of
    a device and for the cache over a device, so that a cache over a partition over a disk is
    again a device.
  \<^item> \<open>Capability.capability_store\<close>: a set of rights; interpreted on the 64-bit set.

  \<^bold>\<open>The theories and what they show.\<close>
  \<^item> \<open>Block\<close>, \<open>Partition_Table\<close>, \<open>Gpt\<close>: the RAM disk, the boot-record scan and the confinement of a
    partition view (\<open>partition.rs\<close>), the checksummed GUID table (\<open>gpt.rs\<close>), its reference
    semantics and the detection of every single corrupted byte.
  \<^item> \<open>Block_Cache\<close>, \<open>Cache_Properties\<close>: every function of \<open>block_cache.rs\<close>; reads return the last
    acknowledged write whichever disk operations fail, a flush is durable, replacement is least
    recently used.
  \<^item> \<open>Block_Io\<close>: the request table, the worker, submission and waiting of \<open>block_io.rs\<close>; each
    request runs at most once under every interleaving, and the queued path equals the direct path.
  \<^item> \<open>Page_Cache\<close>: \<open>PageCache\<close> of \<open>page_cache.rs\<close>; a cached read delivers the bytes of the file through
    hits, misses, evictions, failed loads and invalidation.
  \<^item> \<open>Frame_Memory\<close>: \<open>PhysicalFrameAllocator\<close> of \<open>memory.rs\<close>; no frame has two owners in any history.
  \<^item> \<open>File_Frames\<close>: \<open>CowTable\<close> of \<open>paging.rs\<close> and the frame cache of \<open>file_frames.rs\<close>; reference counts
    are exact, and the lemmas on \<open>overlay\<close>, \<open>frames_update\<close> and \<open>frames_replace\<close> say what a reader of
    the file sees of its shared pages.
  \<^item> \<open>Swap\<close>: \<open>swap.rs\<close> over any block device; a referenced page is read back intact under every
    interleaving, and stale handles are rejected until a generation repeats.
  \<^item> \<open>Heap\<close>: \<open>heap.rs\<close>; live blocks are aligned, inside the heap and disjoint.
  \<^item> \<open>Elf\<close>: \<open>elf.rs\<close>; accepted executables are safe to map and are exactly what the file says.
  \<^item> \<open>Paths\<close>: the path functions of \<open>vfs.rs\<close> and of \<open>task.rs\<close>; resolution gives canonical paths.
  \<^item> \<open>Vfs\<close>, \<open>Vfs_Tree\<close>, \<open>Vfs_Invariant\<close>, \<open>Vfs_Properties\<close>: the node registry, the open-file table and the
    operations of \<open>vfs.rs\<close>. \<open>Vfs_Tree\<close> relates path strings to component lists and shows what each
    registry operation does to the tree of names, \<open>Vfs_Invariant\<close> that every operation keeps the
    invariant of names and descriptors, \<open>Vfs_Properties\<close> what users see: descriptors stay valid, a
    rename moves a subtree, writes are read back, removed files live until closed, and two cases
    in which shared mappings lose bytes.
  \<^item> \<open>Ipc\<close>, \<open>Pipe\<close>, \<open>Keyboard\<close>, \<open>Capability\<close>, \<open>Audit_Log\<close>: \<open>ipc.rs\<close> refines one mailbox per
    task, pipes deliver every byte in order and a blocked write completes, the scancode ring is
    right under every interleaving with the interrupt handler, the capability set is a set, the
    audit ring holds the last 64 events.

  \<^bold>\<open>Bounds and fuel.\<close> Table sizes are the constants of \<open>config.rs\<close> and of the modules, except where
  the source is generic in them (the cache and page-cache sizes), where the model is too. Every loop
  of the model is a terminating function: loops over arrays recurse on the list, the byte loops of
  the page cache and the path walk recurse on what is left. The blocking loops of \<open>pipe.rs\<close> and
  \<open>keyboard.rs\<close> recurse on the list of what the other tasks do while the caller waits; the liveness
  theorems say for which such lists the call returns.

  \<^bold>\<open>Parameters.\<close> The device below the cache, the queue and swap is an argument with the
  \<open>block_device\<close> laws as hypotheses; the loader of the page cache and \<open>storage::read_disk_file\<close>
  below the file system are functions with their contract as a hypothesis; memory contents behind
  frames are a function from frame numbers to bytes; timer ticks and port reads are arguments.

  \<^bold>\<open>Not modelled.\<close> Programs of hardware registers and of inline assembly have no behaviour that the
  sources state: \<open>ata.rs\<close>, \<open>pic.rs\<close>, \<open>gdt.rs\<close>, \<open>interrupts.rs\<close>, \<open>serial.rs\<close>, \<open>smp.rs\<close>, \<open>hal/cpu.rs\<close>,
  \<open>virtio_net.rs\<close>, and the page-table walks of \<open>paging.rs\<close>. \<open>network.rs\<close> drives the protocol stack
  of a third-party crate. \<open>graphics.rs\<close>, \<open>console.rs\<close>, \<open>terminal.rs\<close>, \<open>gui.rs\<close>, \<open>panic.rs\<close> draw on a frame
  buffer. \<open>shell.rs\<close> is the interactive front end, \<open>userspace.rs\<close> holds the machine code of the user
  programs, \<open>main.rs\<close> the boot sequence and its self tests.
\<close>

end
